(* ===== verification/C_Prelude.thy ===== *)
theory C_Prelude
  imports Main "HOL-Library.Word" "HOL-Library.Signed_Division"
begin

text \<open>
  Shared vocabulary of the development: the faults a C program can run into, results that are
  a fault or a value, computations that may also run forever, byte buffers with bounds-checked
  reads and writes, and NUL-terminated strings inside such buffers. Every component theory
  imports this one. The collections \<open>cres_simps\<close>, \<open>mem_simps\<close> and \<open>str_simps\<close> carry the
  component proofs.
\<close>

named_theorems cres_simps \<open>how the result combinators compute\<close>
named_theorems mem_simps \<open>bounds-checked buffer accesses\<close>
named_theorems str_simps \<open>NUL-terminated strings inside buffers\<close>

section \<open>Faults and results\<close>

text \<open>
  What stops a C function other than its return: a failed \<open>assert\<close>, a NULL or dangling pointer
  that is dereferenced, an access outside an object, a call through a NULL function pointer,
  a division by zero, signed overflow, or a call of \<open>exit\<close> with a status.
\<close>

datatype c_fault =
    Assert_failed
  | Null_deref
  | Bad_pointer
  | Out_of_bounds
  | Null_call
  | Div_by_zero
  | Signed_overflow
  | Exit_status int

type_synonym 'a cres = "c_fault + 'a"

type_synonym addr = "64 word"
type_synonym byte = "8 word"
type_synonym size_t = "64 word"

text \<open>The NULL pointer is address 0.\<close>

abbreviation (input) NULL :: addr where
  "NULL \<equiv> 0"

text \<open>Sequencing: the first fault ends the computation.\<close>

fun cbind :: "'a cres \<Rightarrow> ('a \<Rightarrow> 'b cres) \<Rightarrow> 'b cres" where
  "cbind (Inl e) f = Inl e"
| "cbind (Inr x) f = f x"

text \<open>\<open>assert(b)\<close>, and a test that raises a given fault when it fails.\<close>

definition c_check :: "c_fault \<Rightarrow> bool \<Rightarrow> unit cres" where
  "c_check e b = (if b then Inr () else Inl e)"

abbreviation c_assert :: "bool \<Rightarrow> unit cres" where
  "c_assert \<equiv> c_check Assert_failed"

text \<open>
  A pointer is followed in a store, a partial map from addresses to objects. NULL and an
  address that holds no object (never allocated, or freed) are different faults.
\<close>

definition deref :: "(addr \<rightharpoonup> 'n) \<Rightarrow> addr \<Rightarrow> 'n cres" where
  "deref H p =
     (if p = NULL then Inl Null_deref
      else case H p of None \<Rightarrow> Inl Bad_pointer | Some x \<Rightarrow> Inr x)"

text \<open>\<open>p->field = v\<close>: read the object, change it, store it back.\<close>

definition update_at :: "(addr \<rightharpoonup> 'n) \<Rightarrow> addr \<Rightarrow> ('n \<Rightarrow> 'n) \<Rightarrow> (addr \<rightharpoonup> 'n) cres" where
  "update_at H p f = cbind (deref H p) (\<lambda>x. Inr (H(p \<mapsto> f x)))"

text \<open>
  A computation with a loop that may run forever returns an option: \<open>None\<close> when it does not
  end. \<open>lbind\<close> sequences two such computations.
\<close>

type_synonym 'a crun = "'a cres option"

definition lbind :: "'a crun \<Rightarrow> ('a \<Rightarrow> 'b crun) \<Rightarrow> 'b crun" where
  "lbind m f = (case m of None \<Rightarrow> None | Some (Inl e) \<Rightarrow> Some (Inl e) | Some (Inr x) \<Rightarrow> f x)"

text \<open>Unsigned \<open>%\<close>, which traps on a zero divisor.\<close>

definition c_umod :: "'w::len word \<Rightarrow> 'w word \<Rightarrow> 'w word cres" where
  "c_umod a b = (if b = 0 then Inl Div_by_zero else Inr (a mod b))"

text \<open>The range of \<open>int\<close>, and a signed result that must fit in it.\<close>

definition int_min :: int where
  "int_min = - 2147483648"

definition int_max :: int where
  "int_max = 2147483647"

definition c_int :: "int \<Rightarrow> int cres" where
  "c_int i = (if int_min \<le> i \<and> i \<le> int_max then Inr i else Inl Signed_overflow)"

text \<open>Signed \<open>/\<close> and \<open>%\<close> truncate towards zero; \<open>INT_MIN / -1\<close> overflows.\<close>

definition c_div :: "int \<Rightarrow> int \<Rightarrow> int cres" where
  "c_div a b = (if b = 0 then Inl Div_by_zero else c_int (a sdiv b))"

definition c_mod :: "int \<Rightarrow> int \<Rightarrow> int cres" where
  "c_mod a b =
     (if b = 0 then Inl Div_by_zero else cbind (c_int (a sdiv b)) (\<lambda>_. Inr (a smod b)))"

section \<open>Byte buffers\<close>

text \<open>
  An allocated object of n bytes is a list of length n. \<open>memcpy\<close> into it at an offset and out
  of it are checked against its bounds.
\<close>

definition mem_write :: "'b list \<Rightarrow> nat \<Rightarrow> 'b list \<Rightarrow> 'b list cres" where
  "mem_write buf i bs =
     (if i + length bs \<le> length buf
      then Inr (take i buf @ bs @ drop (i + length bs) buf)
      else Inl Out_of_bounds)"

definition mem_read :: "'b list \<Rightarrow> nat \<Rightarrow> nat \<Rightarrow> 'b list cres" where
  "mem_read buf i n =
     (if i + n \<le> length buf then Inr (take n (drop i buf)) else Inl Out_of_bounds)"

section \<open>NUL-terminated strings\<close>

definition nul :: char where
  "nul = CHR 0x00"

text \<open>
  \<open>strlen\<close> reads until the first NUL; without one it leaves the object. The string a buffer
  holds is what stands before its first NUL.
\<close>

fun c_strlen :: "char list \<Rightarrow> nat cres" where
  "c_strlen [] = Inl Out_of_bounds"
| "c_strlen (c # cs) = (if c = nul then Inr 0 else cbind (c_strlen cs) (\<lambda>n. Inr (Suc n)))"

definition c_str :: "char list \<Rightarrow> string" where
  "c_str buf = takeWhile (\<lambda>c. c \<noteq> nul) buf"

text \<open>A C string value, as a caller passes it: no NUL among its characters.\<close>

definition is_cstring :: "string \<Rightarrow> bool" where
  "is_cstring s \<longleftrightarrow> nul \<notin> set s"

text \<open>\<open>strcpy\<close> writes the characters and the terminating NUL.\<close>

definition c_strcpy :: "char list \<Rightarrow> nat \<Rightarrow> string \<Rightarrow> char list cres" where
  "c_strcpy dst off s = mem_write dst off (s @ [nul])"

text \<open>
  \<open>memset(buf, 0, n)\<close>, checked like any other write.
\<close>

definition c_memset0 :: "char list \<Rightarrow> nat \<Rightarrow> char list cres" where
  "c_memset0 buf n = mem_write buf 0 (replicate n nul)"

section \<open>Lemmas: results\<close>

lemma cbind_Inr_iff [cres_simps]:
  "cbind m f = Inr y \<longleftrightarrow> (\<exists>x. m = Inr x \<and> f x = Inr y)"
  by (cases m) auto

lemma cbind_Inl_iff [cres_simps]:
  "cbind m f = Inl e \<longleftrightarrow> m = Inl e \<or> (\<exists>x. m = Inr x \<and> f x = Inl e)"
  by (cases m) auto

lemma cbind_assoc: "cbind (cbind m f) g = cbind m (\<lambda>x. cbind (f x) g)"
  by (cases m) auto

lemma lbind_simps [cres_simps, simp]:
  "lbind None f = None"
  "lbind (Some (Inl e)) f = Some (Inl e)"
  "lbind (Some (Inr x)) f = f x"
  by (simp_all add: lbind_def)

lemma lbind_Inr_iff: "lbind m f = Some (Inr y) \<longleftrightarrow> (\<exists>x. m = Some (Inr x) \<and> f x = Some (Inr y))"
  by (cases m) (auto simp: lbind_def split: sum.split)

lemma c_check_simps [cres_simps, simp]:
  "c_check e True = Inr ()"
  "c_check e False = Inl e"
  "c_check e b = Inr u \<longleftrightarrow> b"
  "c_check e b = Inl e' \<longleftrightarrow> \<not> b \<and> e' = e"
  by (auto simp: c_check_def)

lemma deref_simps [cres_simps, simp]:
  "deref H NULL = Inl Null_deref"
  "p \<noteq> NULL \<Longrightarrow> H p = Some x \<Longrightarrow> deref H p = Inr x"
  "p \<noteq> NULL \<Longrightarrow> H p = None \<Longrightarrow> deref H p = Inl Bad_pointer"
  by (auto simp: deref_def)

lemma deref_Inr_iff [cres_simps]: "deref H p = Inr x \<longleftrightarrow> p \<noteq> NULL \<and> H p = Some x"
  by (auto simp: deref_def split: option.splits)

lemma update_at_simps [cres_simps, simp]:
  "update_at H NULL f = Inl Null_deref"
  "p \<noteq> NULL \<Longrightarrow> H p = Some x \<Longrightarrow> update_at H p f = Inr (H(p \<mapsto> f x))"
  "p \<noteq> NULL \<Longrightarrow> H p = None \<Longrightarrow> update_at H p f = Inl Bad_pointer"
  by (auto simp: update_at_def)

lemma update_at_Inr_iff [cres_simps]:
  "update_at H p f = Inr H' \<longleftrightarrow> p \<noteq> NULL \<and> (\<exists>x. H p = Some x \<and> H' = H(p \<mapsto> f x))"
  by (auto simp: update_at_def cres_simps)

lemma c_umod_pos [cres_simps, simp]: "b \<noteq> 0 \<Longrightarrow> c_umod a b = Inr (a mod b)"
  by (simp add: c_umod_def)

lemma c_int_range [cres_simps, simp]: "int_min \<le> i \<Longrightarrow> i \<le> int_max \<Longrightarrow> c_int i = Inr i"
  by (simp add: c_int_def)

text \<open>For non-negative operands the truncating operators are the mathematical ones.\<close>

lemma sdiv_smod_nonneg:
  fixes a b :: int
  assumes "0 \<le> a" and "0 < b"
  shows "a sdiv b = a div b" and "a smod b = a mod b"
  using assms by (simp_all add: signed_divide_int_def signed_modulo_int_def sgn_if)

lemma c_div_mod_nonneg:
  assumes "0 \<le> a" and "a \<le> int_max" and "0 < b"
  shows "c_div a b = Inr (a div b)" and "c_mod a b = Inr (a mod b)"
proof -
  have "a div b \<le> a"
    using assms by (simp add: div_le_dividend int_div_less_self zdiv_mono2 [of a 1 b, simplified])
  moreover have "0 \<le> a div b"
    using assms by (simp add: pos_imp_zdiv_nonneg_iff)
  ultimately have r: "c_int (a sdiv b) = Inr (a div b)"
    using assms by (simp add: sdiv_smod_nonneg c_int_def int_min_def)
  show "c_div a b = Inr (a div b)" and "c_mod a b = Inr (a mod b)"
    using assms r by (simp_all add: c_div_def c_mod_def sdiv_smod_nonneg)
qed

section \<open>Lemmas: buffers\<close>

lemma mem_write_ok [mem_simps]:
  "i + length bs \<le> length buf \<Longrightarrow>
   mem_write buf i bs = Inr (take i buf @ bs @ drop (i + length bs) buf)"
  by (simp add: mem_write_def)

lemma mem_write_Inr_iff [mem_simps]:
  "mem_write buf i bs = Inr buf' \<longleftrightarrow>
   i + length bs \<le> length buf \<and> buf' = take i buf @ bs @ drop (i + length bs) buf"
  by (auto simp: mem_write_def)

lemma mem_read_ok [mem_simps]:
  "i + n \<le> length buf \<Longrightarrow> mem_read buf i n = Inr (take n (drop i buf))"
  by (simp add: mem_read_def)

lemma mem_write_length: "mem_write buf i bs = Inr buf' \<Longrightarrow> length buf' = length buf"
  by (auto simp: mem_simps)

text \<open>Reading back what was written, and reading elsewhere.\<close>

lemma splice_read_same:
  "i + length bs \<le> length buf \<Longrightarrow>
   take (length bs) (drop i (take i buf @ bs @ drop (i + length bs) buf)) = bs"
  by simp

lemma splice_read_before:
  assumes "j + n \<le> i" and "i + length bs \<le> length buf"
  shows "take n (drop j (take i buf @ bs @ drop (i + length bs) buf)) = take n (drop j buf)"
  using assms by (intro nth_equalityI) (auto simp: nth_append)

lemma splice_read_after:
  assumes "i + length bs \<le> j" and "i + length bs \<le> length buf"
  shows "take n (drop j (take i buf @ bs @ drop (i + length bs) buf)) = take n (drop j buf)"
  using assms by simp

text \<open>A table without its first entry.\<close>

lemma tl_map_upt: "tl (map f [0..<n]) = map (\<lambda>k. f (Suc k)) [0..<n - 1]"
  by (rule nth_equalityI) (auto simp: nth_tl)

section \<open>Lemmas: strings\<close>

lemma c_strlen_append [str_simps]:
  "is_cstring s \<Longrightarrow> c_strlen (s @ nul # rest) = Inr (length s)"
  by (induction s) (auto simp: is_cstring_def)

lemma c_str_append [str_simps]: "is_cstring s \<Longrightarrow> c_str (s @ nul # rest) = s"
  by (induction s) (auto simp: is_cstring_def c_str_def)

lemma c_strlen_c_str: "nul \<in> set buf \<Longrightarrow> c_strlen buf = Inr (length (c_str buf))"
  by (induction buf) (auto simp: c_str_def)

lemma c_str_prefix: "is_cstring m \<Longrightarrow> c_str (m @ rest) = m @ c_str rest"
  by (induction m) (auto simp: is_cstring_def c_str_def)

lemma take_c_str: "take (length (c_str buf)) buf = c_str buf"
  by (simp only: c_str_def takeWhile_eq_take [symmetric])

lemma c_strlen_no_nul: "nul \<notin> set buf \<Longrightarrow> c_strlen buf = Inl Out_of_bounds"
  by (induction buf) auto

lemma c_strlen_Inr_iff:
  "c_strlen buf = Inr n \<longleftrightarrow> nul \<in> set buf \<and> n = length (c_str buf)"
  by (cases "nul \<in> set buf") (auto simp: c_strlen_c_str c_strlen_no_nul)

lemma is_cstring_c_str [simp]: "is_cstring (c_str buf)"
  by (auto simp: is_cstring_def c_str_def dest: set_takeWhileD)

lemma c_strcpy_start [str_simps]:
  "length s < length dst \<Longrightarrow> c_strcpy dst 0 s = Inr (s @ nul # drop (Suc (length s)) dst)"
  by (simp add: c_strcpy_def mem_simps)

lemma c_str_strcpy: "is_cstring s \<Longrightarrow> c_strcpy dst 0 s = Inr dst' \<Longrightarrow> c_str dst' = s"
  by (auto simp: c_strcpy_def mem_simps str_simps)

end
