(* ===== verification/Bounded_Fifo.thy ===== *)
theory Bounded_Fifo
  imports C_Prelude
begin

text \<open>
  The contract of a bounded first-in-first-out queue: a reference model on lists (\<open>bq_step\<close>,
  \<open>bq_run\<close>), a locale with the laws an implementation promises, and the clients' lemmas, proved
  once from the laws: any sequence of operations agrees with the reference model, a run of
  overwriting inserts keeps a sliding window, and a queue drains in order.
\<close>

section \<open>The reference model\<close>

text \<open>
  \<open>Get d\<close> carries the object the caller passes for the result: an empty queue leaves it as it
  is. Every operation answers with a return value and an item.
\<close>

datatype 'a q_op = Put 'a | FPut 'a | Get 'a

fun op_item :: "'a q_op \<Rightarrow> 'a" where
  "op_item (Put x) = x"
| "op_item (FPut x) = x"
| "op_item (Get x) = x"

fun bq_step :: "nat \<Rightarrow> 'a list \<Rightarrow> 'a q_op \<Rightarrow> (int \<times> 'a) \<times> 'a list" where
  "bq_step n q (Put x) = (if length q < n then ((0, x), q @ [x]) else ((- 1, x), q))"
| "bq_step n q (FPut x) = ((0, x), drop (Suc (length q) - n) (q @ [x]))"
| "bq_step n q (Get x) = (case q of [] \<Rightarrow> ((- 1, x), []) | y # ys \<Rightarrow> ((0, y), ys))"

fun bq_run :: "nat \<Rightarrow> 'a list \<Rightarrow> 'a q_op list \<Rightarrow> (int \<times> 'a) list \<times> 'a list" where
  "bq_run n q [] = ([], q)"
| "bq_run n q (x # xs) =
     (let (out, q') = bq_step n q x; (outs, q'') = bq_run n q' xs in (out # outs, q''))"

section \<open>Clients of an implementation\<close>

fun fput_all :: "('s \<Rightarrow> 'a \<Rightarrow> 's cres) \<Rightarrow> 's \<Rightarrow> 'a list \<Rightarrow> 's cres" where
  "fput_all fput s [] = Inr s"
| "fput_all fput s (x # xs) = cbind (fput s x) (\<lambda>s'. fput_all fput s' xs)"

fun drain :: "('s \<Rightarrow> 'a \<Rightarrow> (int \<times> 'a \<times> 's) cres) \<Rightarrow> nat \<Rightarrow> 's \<Rightarrow> 'a \<Rightarrow> 'a list cres" where
  "drain get 0 s tmp = Inr []"
| "drain get (Suc n) s tmp =
     cbind (get s tmp) (\<lambda>(ret, tmp', s').
       cbind (drain get n s' tmp') (\<lambda>out. Inr (tmp' # out)))"

fun q_step ::
    "('s \<Rightarrow> 'a \<Rightarrow> (int \<times> 's) cres) \<Rightarrow> ('s \<Rightarrow> 'a \<Rightarrow> 's cres) \<Rightarrow>
     ('s \<Rightarrow> 'a \<Rightarrow> (int \<times> 'a \<times> 's) cres) \<Rightarrow> 's \<Rightarrow> 'a q_op \<Rightarrow> ((int \<times> 'a) \<times> 's) cres" where
  "q_step put fput get s (Put x) = cbind (put s x) (\<lambda>(r, s'). Inr ((r, x), s'))"
| "q_step put fput get s (FPut x) = cbind (fput s x) (\<lambda>s'. Inr ((0, x), s'))"
| "q_step put fput get s (Get x) = cbind (get s x) (\<lambda>(r, y, s'). Inr ((r, y), s'))"

fun q_run ::
    "('s \<Rightarrow> 'a \<Rightarrow> (int \<times> 's) cres) \<Rightarrow> ('s \<Rightarrow> 'a \<Rightarrow> 's cres) \<Rightarrow>
     ('s \<Rightarrow> 'a \<Rightarrow> (int \<times> 'a \<times> 's) cres) \<Rightarrow> 's \<Rightarrow> 'a q_op list \<Rightarrow>
     ((int \<times> 'a) list \<times> 's) cres" where
  "q_run put fput get s [] = Inr ([], s)"
| "q_run put fput get s (x # xs) =
     cbind (q_step put fput get s x) (\<lambda>(out, s').
       cbind (q_run put fput get s' xs) (\<lambda>(outs, s''). Inr (out # outs, s'')))"

section \<open>The contract\<close>

text \<open>
  \<open>ok\<close> is the implementation's invariant, \<open>wf_item\<close> says which objects may be stored,
  \<open>items\<close> the queue a state stands for. Every operation keeps the capacity and the item shape.
\<close>

locale bounded_fifo =
  fixes ok :: "'s \<Rightarrow> bool"
    and wf_item :: "'s \<Rightarrow> 'a \<Rightarrow> bool"
    and cap :: "'s \<Rightarrow> nat"
    and items :: "'s \<Rightarrow> 'a list"
    and put :: "'s \<Rightarrow> 'a \<Rightarrow> (int \<times> 's) cres"
    and fput :: "'s \<Rightarrow> 'a \<Rightarrow> 's cres"
    and get :: "'s \<Rightarrow> 'a \<Rightarrow> (int \<times> 'a \<times> 's) cres"
  assumes cap_bound: "ok s \<Longrightarrow> length (items s) \<le> cap s"
    and cap_pos: "ok s \<Longrightarrow> 0 < cap s"
    and items_wf: "ok s \<Longrightarrow> x \<in> set (items s) \<Longrightarrow> wf_item s x"
    and put_room: "ok s \<Longrightarrow> wf_item s x \<Longrightarrow> length (items s) < cap s \<Longrightarrow>
      \<exists>s'. put s x = Inr (0, s') \<and> ok s' \<and> cap s' = cap s \<and> wf_item s' = wf_item s \<and>
           items s' = items s @ [x]"
    and put_full: "ok s \<Longrightarrow> length (items s) = cap s \<Longrightarrow> put s x = Inr (- 1, s)"
    and fput_any: "ok s \<Longrightarrow> wf_item s x \<Longrightarrow>
      \<exists>s'. fput s x = Inr s' \<and> ok s' \<and> cap s' = cap s \<and> wf_item s' = wf_item s \<and>
           items s' = drop (Suc (length (items s)) - cap s) (items s @ [x])"
    and get_some: "ok s \<Longrightarrow> wf_item s x \<Longrightarrow> items s = y # ys \<Longrightarrow>
      \<exists>s'. get s x = Inr (0, y, s') \<and> ok s' \<and> cap s' = cap s \<and> wf_item s' = wf_item s \<and>
           items s' = ys"
    and get_none: "ok s \<Longrightarrow> items s = [] \<Longrightarrow> get s x = Inr (- 1, x, s)"
begin

text \<open>One operation against the reference model.\<close>

lemma q_step_sim:
  assumes "ok s" and "wf_item s (op_item x)"
  shows "\<exists>out s'. q_step put fput get s x = Inr (out, s') \<and> ok s' \<and> cap s' = cap s \<and>
           wf_item s' = wf_item s \<and> bq_step (cap s) (items s) x = (out, items s')"
proof (cases x)
  case (Put v)
  show ?thesis
  proof (cases "length (items s) < cap s")
    case True
    with put_room [of s v] assms Put show ?thesis by fastforce
  next
    case False
    with cap_bound [OF assms(1)] have "length (items s) = cap s" by simp
    with put_full [of s v] assms Put show ?thesis by simp
  qed
next
  case (FPut v)
  with fput_any [of s v] assms show ?thesis by fastforce
next
  case (Get v)
  show ?thesis
  proof (cases "items s")
    case Nil
    with get_none [of s v] assms Get show ?thesis by simp
  next
    case (Cons y ys)
    with get_some [of s v y ys] assms Get show ?thesis by fastforce
  qed
qed

text \<open>Any sequence of operations against the reference model.\<close>

lemma q_run_sim:
  assumes "ok s" and "\<forall>x\<in>set xs. wf_item s (op_item x)"
  shows "\<exists>outs s'. q_run put fput get s xs = Inr (outs, s') \<and> ok s' \<and> cap s' = cap s \<and>
           wf_item s' = wf_item s \<and> bq_run (cap s) (items s) xs = (outs, items s')"
  using assms
proof (induction xs arbitrary: s)
  case Nil
  then show ?case by simp
next
  case (Cons x xs)
  from q_step_sim [of s x] Cons.prems obtain out s1
    where s1: "q_step put fput get s x = Inr (out, s1)" "ok s1" "cap s1 = cap s"
      "wf_item s1 = wf_item s" "bq_step (cap s) (items s) x = (out, items s1)"
    by auto
  from Cons.IH [of s1] s1 Cons.prems obtain outs s2
    where "q_run put fput get s1 xs = Inr (outs, s2)" "ok s2" "cap s2 = cap s1"
      "wf_item s2 = wf_item s1" "bq_run (cap s1) (items s1) xs = (outs, items s2)"
    by auto
  with s1 show ?case by auto
qed

text \<open>Overwriting inserts keep the most recent \<open>cap s\<close> items.\<close>

lemma fput_all_window:
  assumes "ok s" and "\<forall>x\<in>set xs. wf_item s x"
  shows "\<exists>s'. fput_all fput s xs = Inr s' \<and> ok s' \<and> cap s' = cap s \<and>
           items s' = drop (length (items s) + length xs - cap s) (items s @ xs)"
  using assms
proof (induction xs arbitrary: s)
  case Nil
  with cap_bound [of s] show ?case by simp
next
  case (Cons x xs)
  from fput_any [of s x] Cons.prems obtain s1
    where s1: "fput s x = Inr s1" "ok s1" "cap s1 = cap s" "wf_item s1 = wf_item s"
      "items s1 = drop (Suc (length (items s)) - cap s) (items s @ [x])"
    by auto
  from Cons.IH [of s1] s1 Cons.prems obtain s2
    where s2: "fput_all fput s1 xs = Inr s2" "ok s2" "cap s2 = cap s"
      "items s2 = drop (length (items s1) + length xs - cap s) (items s1 @ xs)"
    by auto
  have "items s2 = drop (length (items s) + length (x # xs) - cap s) (items s @ x # xs)"
    using s1(5) s2(4) cap_bound [OF Cons.prems(1)] cap_pos [OF Cons.prems(1)]
    by (cases "Suc (length (items s)) \<le> cap s") (auto simp: Suc_diff_le)
  with s1 s2 show ?case by auto
qed

text \<open>Draining returns the items in order.\<close>

lemma drain_items:
  assumes "ok s" and "wf_item s tmp" and "n \<le> length (items s)"
  shows "drain get n s tmp = Inr (take n (items s))"
  using assms
proof (induction n arbitrary: s tmp)
  case 0
  then show ?case by simp
next
  case (Suc n)
  then obtain y ys where it: "items s = y # ys" by (cases "items s") auto
  from get_some [of s tmp y ys] Suc.prems it obtain s1
    where s1: "get s tmp = Inr (0, y, s1)" "ok s1" "wf_item s1 = wf_item s" "items s1 = ys"
    by auto
  have "wf_item s1 y" using items_wf [of s y] it s1(3) Suc.prems by simp
  with Suc.IH [of s1 y] s1 Suc.prems it show ?case by simp
qed

end

end
