(* ===== verification/Ring_Buffer.thy ===== *)
theory Ring_Buffer
  imports C_Prelude Bounded_Fifo
begin

text \<open>
  The ring buffer of \<open>ring_buffer/src/rbuf.c\<close>: fixed-size items of raw bytes in one allocated
  block, indexed by \<open>size_t\<close> head and tail counters, with a \<open>full\<close> flag that tells a full
  buffer from an empty one. The operations work on a store of \<open>ring_buf\<close> structs through
  handles; the theory proves that they implement a bounded first-in-first-out queue
  (locale \<open>bounded_fifo\<close>), which the client program in \<open>ring_buffer/src/main.c\<close> relies on.
\<close>

section \<open>Data\<close>

text \<open>
  \<open>struct ring_buf\<close>. The struct is opaque to clients and owns its block, so the block is
  kept inside it: \<open>None\<close> is a NULL \<open>buffer\<close>.
\<close>

record ring_buf =
  rb_buffer :: "byte list option"
  rb_head :: size_t
  rb_tail :: size_t
  rb_size :: size_t
  rb_item_size :: size_t
  rb_full :: byte

type_synonym rbuf_heap = "addr \<rightharpoonup> ring_buf"

section \<open>Operations\<close>

text \<open>\<open>assert(rbuf)\<close> and the first access through the handle.\<close>

definition rb_ptr :: "rbuf_heap \<Rightarrow> addr \<Rightarrow> ring_buf cres" where
  "rb_ptr H p = cbind (c_assert (p \<noteq> NULL)) (\<lambda>_. deref H p)"

text \<open>\<open>assert(rbuf && rbuf->buffer)\<close>.\<close>

definition rb_ptr_buf :: "rbuf_heap \<Rightarrow> addr \<Rightarrow> (ring_buf \<times> byte list) cres" where
  "rb_ptr_buf H p = cbind (rb_ptr H p) (\<lambda>r.
     case rb_buffer r of None \<Rightarrow> Inl Assert_failed | Some buf \<Rightarrow> Inr (r, buf))"

definition inc_buf :: "rbuf_heap \<Rightarrow> addr \<Rightarrow> rbuf_heap cres" where
  "inc_buf H p = cbind (rb_ptr H p) (\<lambda>r.
     cbind
       (if rb_full r \<noteq> 0
        then cbind (c_umod (rb_tail r + 1) (rb_size r))
               (\<lambda>t. Inr (r\<lparr>rb_tail := t, rb_head := t\<rparr>))
        else cbind (c_umod (rb_head r + 1) (rb_size r))
               (\<lambda>h. Inr (r\<lparr>rb_head := h\<rparr>)))
       (\<lambda>r1. Inr (H(p \<mapsto> r1\<lparr>rb_full := of_bool (rb_head r1 = rb_tail r1)\<rparr>))))"

definition dec_buf :: "rbuf_heap \<Rightarrow> addr \<Rightarrow> rbuf_heap cres" where
  "dec_buf H p = cbind (rb_ptr H p) (\<lambda>r.
     cbind (c_umod (rb_tail r + 1) (rb_size r))
       (\<lambda>t. Inr (H(p \<mapsto> r\<lparr>rb_full := 0, rb_tail := t\<rparr>))))"

definition rbuf_empty :: "rbuf_heap \<Rightarrow> addr \<Rightarrow> byte cres" where
  "rbuf_empty H p = cbind (rb_ptr H p) (\<lambda>r.
     Inr (of_bool (\<not> rb_full r \<noteq> 0 \<and> rb_head r = rb_tail r)))"

text \<open>The name is the source's own.\<close>

definition rbug_full :: "rbuf_heap \<Rightarrow> addr \<Rightarrow> byte cres" where
  "rbug_full H p = cbind (rb_ptr H p) (\<lambda>r. Inr (rb_full r))"

text \<open>
  \<open>calloc(n, m)\<close> zeroes the block and fails when \<open>n * m\<close> overflows; it may also fail for lack
  of memory (\<open>ok\<close> false).
\<close>

definition c_calloc :: "bool \<Rightarrow> size_t \<Rightarrow> size_t \<Rightarrow> byte list option" where
  "c_calloc ok n m =
     (if ok \<and> unat n * unat m < 2 ^ 64 then Some (replicate (unat n * unat m) 0) else None)"

text \<open>
  \<open>a\<close> is what the first \<open>calloc\<close> returns (NULL when it fails), \<open>ok\<close> whether memory is left
  for the second one.
\<close>

definition rbuf_init ::
    "rbuf_heap \<Rightarrow> addr \<Rightarrow> bool \<Rightarrow> size_t \<Rightarrow> size_t \<Rightarrow> (addr \<times> rbuf_heap) cres" where
  "rbuf_init H a ok item_size item_count =
     cbind (c_assert (a \<noteq> NULL)) (\<lambda>_.
       let buf = c_calloc ok item_count item_size in
       cbind (c_assert (buf \<noteq> None)) (\<lambda>_.
         let H1 = H(a \<mapsto> \<lparr>rb_buffer = buf, rb_head = 0, rb_tail = 0, rb_size = item_count,
                          rb_item_size = item_size, rb_full = 0\<rparr>) in
         cbind (rbuf_empty H1 a) (\<lambda>e.
           cbind (c_assert (e \<noteq> 0)) (\<lambda>_. Inr (a, H1)))))"

text \<open>Freeing the struct removes it, with the block it owns, from the store.\<close>

definition rbuf_free :: "rbuf_heap \<Rightarrow> addr \<Rightarrow> rbuf_heap cres" where
  "rbuf_free H p = cbind (rb_ptr H p) (\<lambda>_. Inr (H(p := None)))"

definition rbuf_reset :: "rbuf_heap \<Rightarrow> addr \<Rightarrow> rbuf_heap cres" where
  "rbuf_reset H p = cbind (rb_ptr H p) (\<lambda>r.
     Inr (H(p \<mapsto> r\<lparr>rb_head := 0, rb_tail := 0, rb_full := 0\<rparr>)))"

text \<open>
  \<open>data\<close> is the object the \<open>void *\<close> argument points to; \<open>memcpy\<close> reads \<open>item_size\<close> bytes
  of it and writes them at \<open>head * item_size\<close>.
\<close>

definition rb_store_head :: "ring_buf \<Rightarrow> byte list \<Rightarrow> byte list \<Rightarrow> byte list cres" where
  "rb_store_head r buf data =
     cbind (mem_read data 0 (unat (rb_item_size r)))
       (mem_write buf (unat (rb_head r * rb_item_size r)))"

definition rbuf_put :: "rbuf_heap \<Rightarrow> addr \<Rightarrow> byte list \<Rightarrow> (int \<times> rbuf_heap) cres" where
  "rbuf_put H p data = cbind (rb_ptr_buf H p) (\<lambda>(r, buf).
     if rb_full r \<noteq> 0 then Inr (- 1, H)
     else cbind (rb_store_head r buf data) (\<lambda>buf'.
            cbind (inc_buf (H(p \<mapsto> r\<lparr>rb_buffer := Some buf'\<rparr>)) p) (\<lambda>H'. Inr (0, H'))))"

definition rbuf_fput :: "rbuf_heap \<Rightarrow> addr \<Rightarrow> byte list \<Rightarrow> rbuf_heap cres" where
  "rbuf_fput H p data = cbind (rb_ptr_buf H p) (\<lambda>(r, buf).
     cbind (rb_store_head r buf data) (\<lambda>buf'.
       inc_buf (H(p \<mapsto> r\<lparr>rb_buffer := Some buf'\<rparr>)) p))"

definition rbuf_get ::
    "rbuf_heap \<Rightarrow> addr \<Rightarrow> byte list \<Rightarrow> (int \<times> byte list \<times> rbuf_heap) cres" where
  "rbuf_get H p data = cbind (rb_ptr_buf H p) (\<lambda>(r, buf).
     cbind (rbuf_empty H p) (\<lambda>e.
       if e \<noteq> 0 then Inr (- 1, data, H)
       else cbind (mem_read buf (unat (rb_tail r * rb_item_size r)) (unat (rb_item_size r)))
              (\<lambda>item. cbind (mem_write data 0 item) (\<lambda>data'.
                 cbind (dec_buf H p) (\<lambda>H'. Inr (0, data', H'))))))"

text \<open>
  \<open>rbuf_size\<close> computes in \<open>ssize_t\<close>; the conversions keep the 64 bits, so the word arithmetic
  is the code's.
\<close>

definition rbuf_size :: "rbuf_heap \<Rightarrow> addr \<Rightarrow> size_t cres" where
  "rbuf_size H p = cbind (rb_ptr H p) (\<lambda>r.
     Inr (if rb_full r \<noteq> 0 then rb_size r
          else let ret = rb_head r - rb_tail r
               in if rb_tail r > rb_head r then ret + rb_size r else ret))"

definition rbuf_capacity :: "rbuf_heap \<Rightarrow> addr \<Rightarrow> size_t cres" where
  "rbuf_capacity H p = cbind (rb_ptr H p) (\<lambda>r. Inr (rb_size r))"

text \<open>
  The client program: eight-byte items (a \<open>struct my_struct\<close> is one pointer), capacity 5.
  The loop of five \<open>rbuf_get\<close>s prints what is in \<open>tmp_struct\<close> after each, whatever the
  return value; the result is the list of printed items.
\<close>

fun rbuf_pops :: "nat \<Rightarrow> rbuf_heap \<Rightarrow> addr \<Rightarrow> byte list \<Rightarrow> byte list list cres" where
  "rbuf_pops 0 H p tmp = Inr []"
| "rbuf_pops (Suc n) H p tmp =
     cbind (rbuf_get H p tmp) (\<lambda>(ret, tmp', H').
       cbind (rbuf_pops n H' p tmp') (\<lambda>out. Inr (tmp' # out)))"

definition rbuf_main :: "addr \<Rightarrow> bool \<Rightarrow> byte list \<Rightarrow> byte list \<Rightarrow> byte list \<Rightarrow> byte list list cres"
where
  "rbuf_main a ok struct_one struct_two tmp_struct =
     cbind (rbuf_init Map.empty a ok 8 5) (\<lambda>(p, H0).
     cbind (rbuf_put H0 p struct_one) (\<lambda>(_, H1).
     cbind (rbuf_fput H1 p struct_two) (\<lambda>H2.
     cbind (rbuf_put H2 p struct_one) (\<lambda>(_, H3).
     cbind (rbuf_fput H3 p struct_two) (\<lambda>H4.
     cbind (rbuf_put H4 p struct_one) (\<lambda>(_, H5).
     cbind (rbuf_fput H5 p struct_two) (\<lambda>H6.
     cbind (rbuf_get H6 p tmp_struct) (\<lambda>(_, tmp1, H7).
     cbind (rbuf_put H7 p struct_one) (\<lambda>(_, H8).
     rbuf_pops 5 H8 p tmp1)))))))))"

section \<open>Invariant and abstraction\<close>

text \<open>
  The struct is well formed when its block has exactly the room for its items, both counters
  are in range, and the flag is 0 or 1 and set only when head and tail meet.
\<close>

definition rb_inv :: "ring_buf \<Rightarrow> bool" where
  "rb_inv r \<longleftrightarrow>
     (\<exists>buf. rb_buffer r = Some buf \<and> length buf = unat (rb_size r) * unat (rb_item_size r)) \<and>
     unat (rb_size r) * unat (rb_item_size r) < 2 ^ 64 \<and>
     rb_head r < rb_size r \<and> rb_tail r < rb_size r \<and>
     (rb_full r = 0 \<or> rb_full r = 1 \<and> rb_head r = rb_tail r)"

text \<open>How many items are stored, slot \<open>i\<close> of the block, and the queue the struct stands for.\<close>

definition rb_count :: "ring_buf \<Rightarrow> nat" where
  "rb_count r =
     (if rb_full r \<noteq> 0 then unat (rb_size r)
      else (unat (rb_head r) + unat (rb_size r) - unat (rb_tail r)) mod unat (rb_size r))"

definition rb_slot :: "nat \<Rightarrow> 'b list \<Rightarrow> nat \<Rightarrow> 'b list" where
  "rb_slot m buf i = take m (drop (i * m) buf)"

definition rb_items :: "ring_buf \<Rightarrow> byte list list" where
  "rb_items r =
     (case rb_buffer r of None \<Rightarrow> []
      | Some buf \<Rightarrow>
          map (\<lambda>k. rb_slot (unat (rb_item_size r)) buf ((unat (rb_tail r) + k) mod unat (rb_size r)))
            [0..<rb_count r])"

definition rb_ok :: "rbuf_heap \<Rightarrow> addr \<Rightarrow> bool" where
  "rb_ok H p \<longleftrightarrow> p \<noteq> NULL \<and> (\<exists>r. H p = Some r \<and> rb_inv r)"

definition rb_queue :: "rbuf_heap \<Rightarrow> addr \<Rightarrow> byte list list" where
  "rb_queue H p = (case H p of None \<Rightarrow> [] | Some r \<Rightarrow> rb_items r)"

definition rb_cap :: "rbuf_heap \<Rightarrow> addr \<Rightarrow> nat" where
  "rb_cap H p = (case H p of None \<Rightarrow> 0 | Some r \<Rightarrow> unat (rb_size r))"

definition rb_isz :: "rbuf_heap \<Rightarrow> addr \<Rightarrow> nat" where
  "rb_isz H p = (case H p of None \<Rightarrow> 0 | Some r \<Rightarrow> unat (rb_item_size r))"

section \<open>Arithmetic of the counters\<close>

lemma unat_succ_mod:
  fixes h s :: size_t
  assumes "h < s"
  shows "unat ((h + 1) mod s) = (unat h + 1) mod unat s"
proof -
  have "unat h < unat s" using assms by (simp add: word_less_nat_alt)
  moreover have "unat s < 2 ^ 64" using unsigned_less [of s, where ?'a = nat] by simp
  ultimately have "unat (h + 1) = unat h + 1" by (simp add: unat_word_ariths)
  then show ?thesis by (simp add: unat_mod)
qed

lemma unat_mult_offset:
  fixes i s m :: size_t
  assumes "i < s" and "unat s * unat m < 2 ^ 64"
  shows "unat (i * m) = unat i * unat m"
proof -
  have "unat i * unat m \<le> unat s * unat m"
    using assms(1) by (simp add: word_less_nat_alt)
  with assms(2) have "unat i * unat m < 2 ^ 64" by linarith
  then show ?thesis by (simp add: unat_word_ariths)
qed

lemma slot_end: "i < n \<Longrightarrow> i * m + m \<le> n * (m::nat)"
  by (metis Suc_leI add.commute mult_Suc mult_le_mono1)

lemma ring_diff:
  assumes "t < n" and "c \<le> n"
  shows "((t + c) mod n + n - t) mod n = c mod (n::nat)"
proof (cases "t + c < n")
  case True
  then show ?thesis by simp
next
  case False
  with assms have e: "(t + c) mod n = t + c - n"
    by (simp add: mod_if)
  with False assms have "(t + c) mod n + n - t = c" by simp
  then show ?thesis by simp
qed

lemma ring_index_neq:
  assumes "k < c" and "c < n"
  shows "(t + k) mod n \<noteq> (t + c) mod (n::nat)"
proof
  assume "(t + k) mod n = (t + c) mod n"
  then have "(t + c - (t + k)) mod n = 0"
    using assms by (metis less_imp_le mod_eq_dvd_iff_nat nat_add_left_cancel_le dvd_imp_mod_0)
  with assms show False by simp
qed

section \<open>Slots\<close>

lemma rb_slot_length: "i < n \<Longrightarrow> length buf = n * m \<Longrightarrow> length (rb_slot m buf i) = m"
  using slot_end [of i n m] by (simp add: rb_slot_def)

text \<open>Writing slot \<open>h\<close> changes that slot only.\<close>

lemma rb_slot_write:
  assumes "h < n" and "i < n" and "length buf = n * m" and "length d = m"
  shows "rb_slot m (take (h * m) buf @ d @ drop (h * m + m) buf) i =
    (if i = h then d else rb_slot m buf i)"
proof -
  have room: "h * m + length d \<le> length buf" using slot_end [OF assms(1), of m] assms by simp
  consider "i = h" | "i < h" | "h < i" by linarith
  then show ?thesis
  proof cases
    case 1
    then show ?thesis
      using splice_read_same [OF room] assms by (simp add: rb_slot_def)
  next
    case 2
    then have "i * m + m \<le> h * m" by (rule slot_end)
    with splice_read_before [of "i * m" m "h * m" d buf] room 2 assms show ?thesis
      by (simp add: rb_slot_def)
  next
    case 3
    then have "h * m + m \<le> i * m" by (rule slot_end)
    with splice_read_after [of "h * m" d "i * m" buf m] room 3 assms show ?thesis
      by (simp add: rb_slot_def)
  qed
qed

section \<open>The counters and the queue\<close>

lemma rb_invE:
  assumes "rb_inv r"
  obtains buf where "rb_buffer r = Some buf"
    "length buf = unat (rb_size r) * unat (rb_item_size r)"
    "unat (rb_size r) * unat (rb_item_size r) < 2 ^ 64"
    "unat (rb_head r) < unat (rb_size r)" "unat (rb_tail r) < unat (rb_size r)"
    "rb_head r < rb_size r" "rb_tail r < rb_size r" "rb_size r \<noteq> 0"
    "rb_full r = 0 \<or> rb_full r = 1 \<and> rb_head r = rb_tail r"
proof -
  from assms have "rb_head r < rb_size r" by (simp add: rb_inv_def)
  then have "rb_size r \<noteq> 0" by auto
  with assms that show ?thesis by (auto simp: rb_inv_def word_less_nat_alt)
qed

lemma rb_count_bound: "rb_inv r \<Longrightarrow> rb_count r \<le> unat (rb_size r)"
  by (erule rb_invE) (auto simp: rb_count_def intro: less_imp_le mod_less_divisor)

lemma rb_count_full: "rb_inv r \<Longrightarrow> rb_count r = unat (rb_size r) \<longleftrightarrow> rb_full r \<noteq> 0"
proof (erule rb_invE)
  assume "unat (rb_tail r) < unat (rb_size r)"
  then have "(unat (rb_head r) + unat (rb_size r) - unat (rb_tail r)) mod unat (rb_size r)
    < unat (rb_size r)"
    by (intro mod_less_divisor) simp
  then show "rb_count r = unat (rb_size r) \<longleftrightarrow> rb_full r \<noteq> 0" by (simp add: rb_count_def)
qed

text \<open>The head counter stands \<open>rb_count\<close> slots after the tail.\<close>

lemma rb_head_eq:
  assumes "rb_inv r"
  shows "unat (rb_head r) = (unat (rb_tail r) + rb_count r) mod unat (rb_size r)"
proof (cases "rb_full r = 0")
  case True
  with assms show ?thesis
    by (elim rb_invE) (simp add: rb_count_def mod_add_right_eq)
next
  case False
  with assms show ?thesis
    by (elim rb_invE) (simp add: rb_count_def)
qed

text \<open>A struct with the head \<open>c\<close> slots after the tail and the matching flag holds \<open>c\<close> items.\<close>

lemma rb_countI:
  assumes "unat (rb_tail r) < unat (rb_size r)" and "c \<le> unat (rb_size r)"
    and "unat (rb_head r) = (unat (rb_tail r) + c) mod unat (rb_size r)"
    and "rb_full r \<noteq> 0 \<longleftrightarrow> c = unat (rb_size r)"
  shows "rb_count r = c"
  using assms ring_diff [of "unat (rb_tail r)" "unat (rb_size r)" c]
  by (auto simp: rb_count_def)

lemma rb_items_length: "rb_inv r \<Longrightarrow> length (rb_items r) = rb_count r"
  by (erule rb_invE) (simp add: rb_items_def)

section \<open>What one step does to the struct\<close>

lemma rb_store_head_ok:
  assumes "rb_inv r" and "rb_buffer r = Some buf" and "length d = unat (rb_item_size r)"
  shows "rb_store_head r buf d =
    Inr (take (unat (rb_head r) * unat (rb_item_size r)) buf @ d @
         drop (unat (rb_head r) * unat (rb_item_size r) + unat (rb_item_size r)) buf)"
  using assms slot_end [of "unat (rb_head r)" "unat (rb_size r)" "unat (rb_item_size r)"]
  by (elim rb_invE) (simp add: rb_store_head_def mem_simps unat_mult_offset)

lemma rb_push:
  fixes r :: ring_buf
  defines "n \<equiv> unat (rb_size r)" and "m \<equiv> unat (rb_item_size r)" and "h \<equiv> unat (rb_head r)"
  assumes inv: "rb_inv r" and buf: "rb_buffer r = Some buf" and nf: "rb_full r = 0"
    and d: "length d = m"
    and r': "r' = r\<lparr>rb_buffer := Some (take (h * m) buf @ d @ drop (h * m + m) buf),
                  rb_head := (rb_head r + 1) mod rb_size r,
                  rb_full := of_bool ((rb_head r + 1) mod rb_size r = rb_tail r)\<rparr>"
  shows "rb_inv r'" and "rb_items r' = rb_items r @ [d]"
proof -
  let ?t = "unat (rb_tail r)" and ?c = "rb_count r"
  from inv buf have len: "length buf = n * m" and ov: "n * m < 2 ^ 64"
    and hn: "h < n" and tn: "?t < n" and hs: "rb_head r < rb_size r" and s0: "rb_size r \<noteq> 0"
    by (auto simp: n_def m_def h_def elim!: rb_invE)
  have c: "?c < n"
    using rb_count_bound [OF inv] rb_count_full [OF inv] nf by (simp add: n_def)
  have h: "h = (?t + ?c) mod n" using rb_head_eq [OF inv] by (simp add: h_def n_def)
  have h': "unat ((rb_head r + 1) mod rb_size r) = (?t + Suc ?c) mod n"
    using unat_succ_mod [OF hs] h by (simp add: h_def n_def mod_Suc_eq)
  have eq: "(rb_head r + 1) mod rb_size r = rb_tail r \<longleftrightarrow> Suc ?c = n"
  proof -
    have "(rb_head r + 1) mod rb_size r = rb_tail r \<longleftrightarrow> (?t + Suc ?c) mod n = (?t + 0) mod n"
      using h' tn by (simp add: word_unat_eq_iff)
    also have "\<dots> \<longleftrightarrow> Suc ?c = n"
    proof (cases "Suc ?c = n")
      case True
      then show ?thesis by (metis add.right_neutral mod_add_self2)
    next
      case False
      with c have "Suc ?c < n" by simp
      with ring_index_neq [of 0 "Suc ?c" n ?t] False show ?thesis by auto
    qed
    finally show ?thesis .
  qed
  have hn': "(rb_head r + 1) mod rb_size r < rb_size r"
    using s0 by (simp add: word_less_nat_alt unat_mod unat_gt_0)
  have "length (take (h * m) buf @ d @ drop (h * m + m) buf) = n * m"
    using slot_end [OF hn, of m] len d by simp
  then show "rb_inv r'"
    using inv ov hn' len by (auto simp: rb_inv_def r' n_def m_def)
  have cnt: "rb_count r' = Suc ?c"
    using tn c h' eq by (intro rb_countI) (auto simp: r' n_def)
  have slots: "rb_slot m (take (h * m) buf @ d @ drop (h * m + m) buf) ((?t + k) mod n) =
      (if k = ?c then d else rb_slot m buf ((?t + k) mod n))" if "k < Suc ?c" for k
    using rb_slot_write [OF hn _ len d, of "(?t + k) mod n"] that h c
      ring_index_neq [of k ?c n ?t] hn by auto
  have "rb_items r' =
      map (\<lambda>k. rb_slot m (take (h * m) buf @ d @ drop (h * m + m) buf) ((?t + k) mod n))
        [0..<rb_count r']"
    by (simp add: rb_items_def r' n_def m_def)
  also have "\<dots> = map (\<lambda>k. rb_slot m buf ((?t + k) mod n)) [0..<?c] @ [d]"
    using slots by (simp add: cnt)
  finally show "rb_items r' = rb_items r @ [d]"
    by (simp add: rb_items_def buf n_def m_def)
qed

lemma rb_push_full:
  fixes r :: ring_buf
  defines "n \<equiv> unat (rb_size r)" and "m \<equiv> unat (rb_item_size r)" and "h \<equiv> unat (rb_head r)"
  assumes inv: "rb_inv r" and buf: "rb_buffer r = Some buf" and fl: "rb_full r \<noteq> 0"
    and d: "length d = m"
    and r': "r' = r\<lparr>rb_buffer := Some (take (h * m) buf @ d @ drop (h * m + m) buf),
                  rb_tail := (rb_tail r + 1) mod rb_size r,
                  rb_head := (rb_tail r + 1) mod rb_size r, rb_full := 1\<rparr>"
  shows "rb_inv r'" and "rb_items r' = tl (rb_items r) @ [d]"
proof -
  let ?t = "unat (rb_tail r)"
  from inv buf fl have len: "length buf = n * m" and ov: "n * m < 2 ^ 64" and hn: "h < n"
    and ht: "h = ?t" and ts: "rb_tail r < rb_size r" and s0: "rb_size r \<noteq> 0"
    by (auto simp: n_def m_def h_def elim!: rb_invE)
  have t': "unat ((rb_tail r + 1) mod rb_size r) = (?t + 1) mod n"
    using unat_succ_mod [OF ts] by (simp add: n_def)
  have tn': "(rb_tail r + 1) mod rb_size r < rb_size r"
    using s0 by (simp add: word_less_nat_alt unat_mod unat_gt_0)
  have "length (take (h * m) buf @ d @ drop (h * m + m) buf) = n * m"
    using slot_end [OF hn, of m] len d by simp
  then show "rb_inv r'"
    using inv ov tn' len by (auto simp: rb_inv_def r' n_def m_def)
  have slots: "rb_slot m (take (h * m) buf @ d @ drop (h * m + m) buf) ((?t + 1 + k) mod n) =
      (if k = n - 1 then d else rb_slot m buf ((?t + Suc k) mod n))" if "k < n" for k
  proof (cases "k = n - 1")
    case True
    then have "(?t + 1 + k) mod n = h" using that hn ht by simp
    with rb_slot_write [OF hn _ len d, of h] hn True show ?thesis by simp
  next
    case False
    with that have "Suc k < n" by linarith
    then have "(?t + Suc k) mod n \<noteq> (?t + 0) mod n"
      using ring_index_neq [of 0 "Suc k" n ?t] by simp
    then have "(?t + 1 + k) mod n \<noteq> h" using hn ht by simp
    with rb_slot_write [OF hn _ len d, of "(?t + 1 + k) mod n"] hn False show ?thesis by simp
  qed
  have "rb_items r' = map (\<lambda>k. if k = n - 1 then d else rb_slot m buf ((?t + Suc k) mod n)) [0..<n]"
    using slots t' by (simp add: rb_items_def rb_count_def r' n_def m_def mod_add_left_eq)
  also have "\<dots> = map (\<lambda>k. rb_slot m buf ((?t + Suc k) mod n)) [0..<n - 1] @ [d]"
    using hn by (cases n) simp_all
  also have "map (\<lambda>k. rb_slot m buf ((?t + Suc k) mod n)) [0..<n - 1] = tl (rb_items r)"
    using fl by (simp add: rb_items_def rb_count_def buf n_def m_def tl_map_upt)
  finally show "rb_items r' = tl (rb_items r) @ [d]" .
qed

lemma rb_pop:
  fixes r :: ring_buf
  defines "n \<equiv> unat (rb_size r)" and "m \<equiv> unat (rb_item_size r)"
  assumes inv: "rb_inv r" and buf: "rb_buffer r = Some buf" and it: "rb_items r = y # ys"
    and r': "r' = r\<lparr>rb_full := 0, rb_tail := (rb_tail r + 1) mod rb_size r\<rparr>"
  shows "rb_inv r'" and "rb_items r' = ys"
    and "mem_read buf (unat (rb_tail r * rb_item_size r)) m = Inr y"
proof -
  let ?t = "unat (rb_tail r)" and ?c = "rb_count r"
  from inv buf have len: "length buf = n * m" and ov: "n * m < 2 ^ 64" and tn: "?t < n"
    and ts: "rb_tail r < rb_size r" and s0: "rb_size r \<noteq> 0"
    by (auto simp: n_def m_def elim!: rb_invE)
  have c: "0 < ?c" using rb_items_length [OF inv] it by simp
  have cn: "?c \<le> n" using rb_count_bound [OF inv] by (simp add: n_def)
  have t': "unat ((rb_tail r + 1) mod rb_size r) = (?t + 1) mod n"
    using unat_succ_mod [OF ts] by (simp add: n_def)
  have tn': "(rb_tail r + 1) mod rb_size r < rb_size r"
    using s0 by (simp add: word_less_nat_alt unat_mod unat_gt_0)
  then show "rb_inv r'" using inv by (auto simp: rb_inv_def r')
  have items: "rb_items r = map (\<lambda>k. rb_slot m buf ((?t + k) mod n)) [0..<?c]"
    by (simp add: rb_items_def buf n_def m_def)
  have "unat (rb_head r) = ((?t + 1) mod n + (?c - 1)) mod n"
    using rb_head_eq [OF inv] c mod_add_left_eq [of "?t + 1" n "?c - 1"] by (simp add: n_def)
  then have cnt: "rb_count r' = ?c - 1"
    using tn' t' cn c s0 by (intro rb_countI) (auto simp: r' n_def word_less_nat_alt unat_eq_zero)
  have "rb_items r' = map (\<lambda>k. rb_slot m buf ((?t + Suc k) mod n)) [0..<?c - 1]"
    using t' cnt by (simp add: rb_items_def r' buf n_def m_def mod_Suc_eq mod_add_left_eq)
  also have "\<dots> = tl (rb_items r)" by (simp add: items tl_map_upt)
  finally show "rb_items r' = ys" using it by simp
  have "y = rb_slot m buf ?t"
    using it c tn by (simp add: items upt_conv_Cons)
  then show "mem_read buf (unat (rb_tail r * rb_item_size r)) m = Inr y"
    using slot_end [OF tn, of m] len ov unat_mult_offset [OF ts, of "rb_item_size r"]
    by (simp add: mem_read_def rb_slot_def n_def m_def)
qed

section \<open>The operations implement the queue\<close>

lemma rb_okE:
  assumes "rb_ok H p"
  obtains r buf where "H p = Some r" "p \<noteq> NULL" "rb_inv r" "rb_buffer r = Some buf"
    "rb_ptr H p = Inr r" "rb_ptr_buf H p = Inr (r, buf)"
    "rb_queue H p = rb_items r" "rb_cap H p = unat (rb_size r)"
    "rb_isz H p = unat (rb_item_size r)"
proof -
  from assms obtain r where r: "H p = Some r" "p \<noteq> NULL" "rb_inv r" by (auto simp: rb_ok_def)
  then obtain buf where "rb_buffer r = Some buf" by (auto elim: rb_invE)
  with r that show ?thesis
    by (simp add: rb_ptr_def rb_ptr_buf_def rb_queue_def rb_cap_def rb_isz_def)
qed

text \<open>What a valid handle looks like after its struct was replaced.\<close>

lemma rb_ok_upd:
  "p \<noteq> NULL \<Longrightarrow> rb_inv r \<Longrightarrow> rb_ok (H(p \<mapsto> r)) p"
  "rb_queue (H(p \<mapsto> r)) p = rb_items r"
  "rb_cap (H(p \<mapsto> r)) p = unat (rb_size r)"
  "rb_isz (H(p \<mapsto> r)) p = unat (rb_item_size r)"
  by (simp_all add: rb_ok_def rb_queue_def rb_cap_def rb_isz_def)

lemma inc_buf_upd:
  assumes "p \<noteq> NULL" and "rb_size r \<noteq> 0"
  shows "rb_full r = 0 \<Longrightarrow> inc_buf (H(p \<mapsto> r)) p =
      Inr (H(p \<mapsto> r\<lparr>rb_head := (rb_head r + 1) mod rb_size r,
                   rb_full := of_bool ((rb_head r + 1) mod rb_size r = rb_tail r)\<rparr>))"
    and "rb_full r \<noteq> 0 \<Longrightarrow> inc_buf (H(p \<mapsto> r)) p =
      Inr (H(p \<mapsto> r\<lparr>rb_tail := (rb_tail r + 1) mod rb_size r,
                   rb_head := (rb_tail r + 1) mod rb_size r, rb_full := 1\<rparr>))"
  using assms by (simp_all add: inc_buf_def rb_ptr_def)

lemma rb_full_iff: "rb_inv r \<Longrightarrow> rb_full r \<noteq> 0 \<longleftrightarrow> length (rb_items r) = unat (rb_size r)"
  using rb_count_full rb_items_length by simp

lemma rb_empty_iff:
  assumes "rb_inv r"
  shows "rb_full r = 0 \<and> rb_head r = rb_tail r \<longleftrightarrow> rb_items r = []"
proof -
  have "rb_items r = [] \<longleftrightarrow> rb_count r = 0"
    using rb_items_length [OF assms] by (metis length_0_conv)
  also have "\<dots> \<longleftrightarrow> rb_full r = 0 \<and> rb_head r = rb_tail r"
  proof
    assume c: "rb_count r = 0"
    with assms have "unat (rb_head r) = unat (rb_tail r)"
      using rb_head_eq [OF assms] by (auto elim!: rb_invE)
    moreover have "rb_full r = 0"
      using c assms rb_count_full [OF assms] by (auto elim!: rb_invE simp: unat_eq_zero)
    ultimately show "rb_full r = 0 \<and> rb_head r = rb_tail r" by (simp add: word_unat_eq_iff)
  qed (simp add: rb_count_def)
  finally show ?thesis by blast
qed

lemma rbuf_put_room:
  assumes "rb_ok H p" and "length x = rb_isz H p" and "length (rb_queue H p) < rb_cap H p"
  shows "\<exists>H'. rbuf_put H p x = Inr (0, H') \<and> rb_ok H' p \<and> rb_cap H' p = rb_cap H p \<and>
    rb_isz H' p = rb_isz H p \<and> rb_queue H' p = rb_queue H p @ [x] \<and> (\<forall>q. q \<noteq> p \<longrightarrow> H' q = H q)"
proof -
  from assms(1) obtain r buf where r: "H p = Some r" "p \<noteq> NULL" "rb_inv r"
    "rb_buffer r = Some buf" "rb_ptr_buf H p = Inr (r, buf)" "rb_queue H p = rb_items r"
    "rb_cap H p = unat (rb_size r)" "rb_isz H p = unat (rb_item_size r)"
    by (rule rb_okE)
  have nf: "rb_full r = 0" using rb_full_iff [OF r(3)] assms(3) r(6,7) by auto
  have s0: "rb_size r \<noteq> 0" using r(3) by (auto elim: rb_invE)
  note st = rb_store_head_ok [OF r(3,4), of x] and push = rb_push [OF r(3,4) nf _ refl, of x]
  from r s0 nf assms(2) st push show ?thesis
    by (simp add: rbuf_put_def inc_buf_upd rb_ok_upd)
qed

lemma rbuf_fput_any:
  assumes "rb_ok H p" and "length x = rb_isz H p"
  shows "\<exists>H'. rbuf_fput H p x = Inr H' \<and> rb_ok H' p \<and> rb_cap H' p = rb_cap H p \<and>
    rb_isz H' p = rb_isz H p \<and> (\<forall>q. q \<noteq> p \<longrightarrow> H' q = H q) \<and>
    rb_queue H' p = drop (Suc (length (rb_queue H p)) - rb_cap H p) (rb_queue H p @ [x])"
proof -
  from assms(1) obtain r buf where r: "H p = Some r" "p \<noteq> NULL" "rb_inv r"
    "rb_buffer r = Some buf" "rb_ptr_buf H p = Inr (r, buf)" "rb_queue H p = rb_items r"
    "rb_cap H p = unat (rb_size r)" "rb_isz H p = unat (rb_item_size r)"
    by (rule rb_okE)
  have s0: "rb_size r \<noteq> 0" using r(3) by (auto elim: rb_invE)
  have bound: "length (rb_items r) \<le> unat (rb_size r)"
    using rb_count_bound rb_items_length r(3) by simp
  note st = rb_store_head_ok [OF r(3,4), of x]
  show ?thesis
  proof (cases "rb_full r = 0")
    case True
    with rb_full_iff [OF r(3)] bound have "Suc (length (rb_items r)) \<le> unat (rb_size r)" by simp
    with r s0 True assms(2) st rb_push [OF r(3,4) True _ refl, of x] show ?thesis
      by (simp add: rbuf_fput_def inc_buf_upd rb_ok_upd)
  next
    case False
    with rb_full_iff [OF r(3)] have "length (rb_items r) = unat (rb_size r)" by simp
    moreover have "rb_items r \<noteq> []"
      using s0 calculation by (auto simp: unat_eq_zero)
    ultimately have "drop (Suc (length (rb_items r)) - unat (rb_size r)) (rb_items r @ [x]) =
        tl (rb_items r) @ [x]"
      by (cases "rb_items r") auto
    with r s0 False assms(2) st rb_push_full [OF r(3,4) False _ refl, of x] show ?thesis
      by (simp add: rbuf_fput_def inc_buf_upd rb_ok_upd)
  qed
qed

lemma rbuf_get_some:
  assumes "rb_ok H p" and "length d = rb_isz H p" and "rb_queue H p = y # ys"
  shows "\<exists>H'. rbuf_get H p d = Inr (0, y, H') \<and> rb_ok H' p \<and> rb_cap H' p = rb_cap H p \<and>
    rb_isz H' p = rb_isz H p \<and> rb_queue H' p = ys \<and> (\<forall>q. q \<noteq> p \<longrightarrow> H' q = H q)"
proof -
  from assms(1) obtain r buf where r: "H p = Some r" "p \<noteq> NULL" "rb_inv r"
    "rb_buffer r = Some buf" "rb_ptr H p = Inr r" "rb_ptr_buf H p = Inr (r, buf)"
    "rb_queue H p = rb_items r" "rb_cap H p = unat (rb_size r)"
    "rb_isz H p = unat (rb_item_size r)"
    by (rule rb_okE)
  have s0: "rb_size r \<noteq> 0" using r(3) by (auto elim: rb_invE)
  have ne: "\<not> (rb_full r = 0 \<and> rb_head r = rb_tail r)"
    using rb_empty_iff [OF r(3)] assms(3) r(7) by simp
  note pop = rb_pop [OF r(3,4) _ refl, of y ys]
  from pop(3) r(7) assms(3) have "length y = unat (rb_item_size r)"
    by (auto simp: mem_read_def split: if_splits)
  with pop r s0 ne assms(2,3) show ?thesis
    by (simp add: rbuf_get_def rbuf_empty_def dec_buf_def mem_write_def rb_ok_upd)
qed

lemma rbuf_put_full:
  assumes "rb_ok H p" and "length (rb_queue H p) = rb_cap H p"
  shows "rbuf_put H p x = Inr (- 1, H)"
  using assms by (elim rb_okE) (simp add: rbuf_put_def rb_full_iff)

lemma rbuf_get_none:
  assumes "rb_ok H p" and "rb_queue H p = []"
  shows "rbuf_get H p d = Inr (- 1, d, H)"
proof -
  from assms(1) obtain r buf where r: "rb_inv r" "rb_ptr H p = Inr r"
    "rb_ptr_buf H p = Inr (r, buf)" "rb_queue H p = rb_items r"
    by (rule rb_okE)
  with assms(2) rb_empty_iff [OF r(1)] show ?thesis by (simp add: rbuf_get_def rbuf_empty_def)
qed

lemma rb_items_wf:
  assumes "rb_inv r" and "x \<in> set (rb_items r)"
  shows "length x = unat (rb_item_size r)"
proof -
  from assms(1) obtain buf where b: "rb_buffer r = Some buf"
    "length buf = unat (rb_size r) * unat (rb_item_size r)" "unat (rb_tail r) < unat (rb_size r)"
    by (rule rb_invE)
  with assms(2) show ?thesis
    by (auto simp: rb_items_def intro!: rb_slot_length [where n = "unat (rb_size r)"])
qed

interpretation rb: bounded_fifo
  "\<lambda>H. rb_ok H p" "\<lambda>H x. length x = rb_isz H p" "\<lambda>H. rb_cap H p" "\<lambda>H. rb_queue H p"
  "\<lambda>H. rbuf_put H p" "\<lambda>H. rbuf_fput H p" "\<lambda>H. rbuf_get H p"
  for p
proof unfold_locales
  show "length (rb_queue H p) \<le> rb_cap H p" if "rb_ok H p" for H
    using that by (elim rb_okE) (simp add: rb_count_bound rb_items_length)
  show "0 < rb_cap H p" if "rb_ok H p" for H
    using that by (elim rb_okE rb_invE) simp
  show "length x = rb_isz H p" if "rb_ok H p" "x \<in> set (rb_queue H p)" for H x
    using that by (elim rb_okE) (simp add: rb_items_wf)
qed (use rbuf_put_room rbuf_put_full rbuf_fput_any rbuf_get_some rbuf_get_none in fastforce)+

section \<open>Queries, lifecycle and errors\<close>

lemma rb_size_word:
  assumes "rb_inv r" and "rb_full r = 0"
  shows "(if rb_tail r > rb_head r then rb_head r - rb_tail r + rb_size r
          else rb_head r - rb_tail r) = of_nat (rb_count r)"
proof -
  let ?h = "unat (rb_head r)" and ?t = "unat (rb_tail r)" and ?n = "unat (rb_size r)"
  have hn: "?h < ?n" and tn: "?t < ?n" using assms(1) by (auto elim: rb_invE)
  show ?thesis
  proof (cases "rb_tail r > rb_head r")
    case True
    then have "?h < ?t" by (simp add: word_less_nat_alt)
    then have "rb_count r = ?h + ?n - ?t" using tn assms(2) by (simp add: rb_count_def)
    with True tn show ?thesis by (simp add: of_nat_diff algebra_simps)
  next
    case False
    then have th: "?t \<le> ?h" by (simp add: word_less_nat_alt)
    have "rb_count r = (?h + ?n - ?t) mod ?n" using assms(2) by (simp add: rb_count_def)
    also have "?h + ?n - ?t = ?h - ?t + ?n" using th by simp
    also have "(?h - ?t + ?n) mod ?n = ?h - ?t" using hn by simp
    finally have "rb_count r = ?h - ?t" .
    with False th show ?thesis by simp
  qed
qed

lemma rb_full_of_bool:
  assumes "rb_inv r"
  shows "rb_full r = of_bool (length (rb_items r) = unat (rb_size r))"
  using assms rb_full_iff [OF assms] by (auto elim!: rb_invE)

lemma rbuf_init_fails:
  "rbuf_init H NULL ok item_size item_count = Inl Assert_failed"
  "a \<noteq> NULL \<Longrightarrow> 2 ^ 64 \<le> unat item_count * unat item_size \<Longrightarrow>
   rbuf_init H a ok item_size item_count = Inl Assert_failed"
  "a \<noteq> NULL \<Longrightarrow> rbuf_init H a False item_size item_count = Inl Assert_failed"
  by (simp_all add: rbuf_init_def c_calloc_def Let_def)

lemma rbuf_reset_empties:
  assumes "rb_ok H p"
  shows "\<exists>H'. rbuf_reset H p = Inr H' \<and> rb_ok H' p \<and> rb_queue H' p = [] \<and>
    rb_cap H' p = rb_cap H p"
proof -
  from assms obtain r where r: "H p = Some r" "p \<noteq> NULL" "rb_inv r" "rb_ptr H p = Inr r"
    "rb_cap H p = unat (rb_size r)"
    by (rule rb_okE)
  let ?r = "r\<lparr>rb_head := 0, rb_tail := 0, rb_full := 0\<rparr>"
  have "rb_inv ?r" using r(3) by (auto simp: rb_inv_def word_gt_0 elim: rb_invE)
  moreover from this have "rb_items ?r = []" using rb_empty_iff [of ?r] by simp
  ultimately show ?thesis using r by (simp add: rbuf_reset_def rb_ok_upd)
qed

text \<open>A freed handle, like NULL, makes every later operation fault.\<close>

lemma rbuf_use_after_free:
  assumes "rb_ok H p" and "rbuf_free H p = Inr H'"
  shows "rbuf_put H' p x = Inl Bad_pointer" and "rbuf_get H' p x = Inl Bad_pointer"
    and "rbuf_free H' p = Inl Bad_pointer"
  using assms by (auto elim!: rb_okE
      simp: rbuf_free_def rbuf_put_def rbuf_get_def rb_ptr_buf_def rb_ptr_def)

lemma rbuf_null_handle:
  "rbuf_put H NULL x = Inl Assert_failed" "rbuf_fput H NULL x = Inl Assert_failed"
  "rbuf_get H NULL x = Inl Assert_failed" "rbuf_free H NULL = Inl Assert_failed"
  by (simp_all add: rbuf_put_def rbuf_fput_def rbuf_get_def rbuf_free_def rb_ptr_buf_def rb_ptr_def)

lemma rbuf_init_ok:
  assumes "a \<noteq> NULL" and "item_count \<noteq> 0" and "unat item_count * unat item_size < 2 ^ 64"
  shows "\<exists>H'. rbuf_init H a True item_size item_count = Inr (a, H') \<and> rb_ok H' a \<and>
    rb_queue H' a = [] \<and> rb_cap H' a = unat item_count \<and> rb_isz H' a = unat item_size \<and>
    (\<forall>q. q \<noteq> a \<longrightarrow> H' q = H q)"
proof -
  let ?r = "\<lparr>rb_buffer = Some (replicate (unat item_count * unat item_size) 0), rb_head = 0,
             rb_tail = 0, rb_size = item_count, rb_item_size = item_size, rb_full = 0\<rparr>"
  have inv: "rb_inv ?r" using assms by (simp add: rb_inv_def word_gt_0)
  then have "rb_items ?r = []" using rb_empty_iff [of ?r] by simp
  with inv assms show ?thesis
    by (simp add: rbuf_init_def c_calloc_def Let_def rbuf_empty_def rb_ptr_def rb_ok_upd)
qed

text \<open>The printing loop is the generic drain over \<open>rbuf_get\<close>.\<close>

lemma rbuf_pops_drain: "rbuf_pops n H p tmp = drain (\<lambda>H. rbuf_get H p) n H tmp"
  by (induction n arbitrary: H tmp) (simp_all add: case_prod_unfold)

text \<open>The first six calls of \<open>main\<close> fill the buffer and overwrite its oldest item.\<close>

lemma rbuf_main_fill:
  assumes "a \<noteq> NULL" and "length one = 8" and "length two = 8"
  obtains H0 H1 H2 H3 H4 H5 H6 where
    "rbuf_init Map.empty a True 8 5 = Inr (a, H0)" "rbuf_put H0 a one = Inr (0, H1)"
    "rbuf_fput H1 a two = Inr H2" "rbuf_put H2 a one = Inr (0, H3)"
    "rbuf_fput H3 a two = Inr H4" "rbuf_put H4 a one = Inr (0, H5)"
    "rbuf_fput H5 a two = Inr H6" "rb_ok H6 a" "rb_queue H6 a = [two, one, two, one, two]"
    "rb_cap H6 a = 5" "rb_isz H6 a = 8"
proof -
  note [simp] = assms
  obtain H0 where H0: "rbuf_init Map.empty a True 8 5 = Inr (a, H0)" "rb_ok H0 a"
    "rb_queue H0 a = []" "rb_cap H0 a = 5" "rb_isz H0 a = 8"
    using rbuf_init_ok [of a 5 8 Map.empty] by auto
  obtain H1 where H1: "rbuf_put H0 a one = Inr (0, H1)" "rb_ok H1 a" "rb_queue H1 a = [one]"
    "rb_cap H1 a = 5" "rb_isz H1 a = 8"
    using rbuf_put_room [of H0 a one] H0 by auto
  obtain H2 where H2: "rbuf_fput H1 a two = Inr H2" "rb_ok H2 a" "rb_queue H2 a = [one, two]"
    "rb_cap H2 a = 5" "rb_isz H2 a = 8"
    using rbuf_fput_any [of H1 a two] H1 by auto
  obtain H3 where H3: "rbuf_put H2 a one = Inr (0, H3)" "rb_ok H3 a"
    "rb_queue H3 a = [one, two, one]" "rb_cap H3 a = 5" "rb_isz H3 a = 8"
    using rbuf_put_room [of H2 a one] H2 by auto
  obtain H4 where H4: "rbuf_fput H3 a two = Inr H4" "rb_ok H4 a"
    "rb_queue H4 a = [one, two, one, two]" "rb_cap H4 a = 5" "rb_isz H4 a = 8"
    using rbuf_fput_any [of H3 a two] H3 by auto
  obtain H5 where H5: "rbuf_put H4 a one = Inr (0, H5)" "rb_ok H5 a"
    "rb_queue H5 a = [one, two, one, two, one]" "rb_cap H5 a = 5" "rb_isz H5 a = 8"
    using rbuf_put_room [of H4 a one] H4 by auto
  obtain H6 where H6: "rbuf_fput H5 a two = Inr H6" "rb_ok H6 a"
    "rb_queue H6 a = [two, one, two, one, two]" "rb_cap H6 a = 5" "rb_isz H6 a = 8"
    using rbuf_fput_any [of H5 a two] H5 by auto
  show ?thesis
    by (rule that [OF H0(1) H1(1) H2(1) H3(1) H4(1) H5(1) H6])
qed

text \<open>A concrete empty buffer for two one-byte items, at address 1.\<close>

definition rb_demo :: rbuf_heap where
  "rb_demo = [1 \<mapsto> \<lparr>rb_buffer = Some [0, 0], rb_head = 0, rb_tail = 0, rb_size = 2,
                   rb_item_size = 1, rb_full = 0\<rparr>]"

lemma rb_demo_ok: "rb_ok rb_demo 1"
  by (simp add: rb_demo_def rb_ok_def rb_inv_def)

lemma rb_demo_abs: "rb_queue rb_demo 1 = []" "rb_cap rb_demo 1 = 2" "rb_isz rb_demo 1 = 1"
  by (simp_all add: rb_demo_def rb_queue_def rb_cap_def rb_isz_def rb_items_def rb_count_def)

section \<open>Properties\<close>

text \<open>
  C1. Refinement: on a valid handle, any sequence of \<open>rbuf_put\<close>, \<open>rbuf_fput\<close> and \<open>rbuf_get\<close>
  calls with items of the buffer's item size runs without a fault, returns exactly what the
  bounded first-in-first-out queue of the reference model returns, ends in the state that
  stands for the model's queue, and keeps the handle valid.
\<close>

theorem rbuf_refines_queue:
  assumes "rb_ok H p" and "\<forall>x\<in>set ops. length (op_item x) = rb_isz H p"
  shows "\<exists>outs H'.
    q_run (\<lambda>H. rbuf_put H p) (\<lambda>H. rbuf_fput H p) (\<lambda>H. rbuf_get H p) H ops = Inr (outs, H') \<and>
    rb_ok H' p \<and> rb_cap H' p = rb_cap H p \<and>
    bq_run (rb_cap H p) (rb_queue H p) ops = (outs, rb_queue H' p)"
  using rb.q_run_sim [of H p ops] assms by blast

theorem rbuf_refines_queue_witness:
  "\<exists>H'. q_run (\<lambda>H. rbuf_put H 1) (\<lambda>H. rbuf_fput H 1) (\<lambda>H. rbuf_get H 1) rb_demo
      [Put [7], FPut [8], FPut [9], Put [6], Get [0]] =
      Inr ([(0, [7]), (0, [8]), (0, [9]), (- 1, [6]), (0, [8])], H') \<and>
    rb_ok H' 1 \<and> rb_queue H' 1 = [[9]]"
  using rbuf_refines_queue [OF rb_demo_ok, of "[Put [7], FPut [8], FPut [9], Put [6], Get [0]]"]
  by (auto simp: rb_demo_abs)

text \<open>
  Initialisation: when both allocations succeed and the capacity is not zero, \<open>rbuf_init\<close>
  passes its own assertions and returns a valid, empty buffer with the requested capacity and
  item size, leaving every other object alone.
\<close>

theorem rbuf_init_valid:
  assumes "a \<noteq> NULL" and "item_count \<noteq> 0" and "unat item_count * unat item_size < 2 ^ 64"
  shows "\<exists>H'. rbuf_init H a True item_size item_count = Inr (a, H') \<and> rb_ok H' a \<and>
    rb_queue H' a = [] \<and> rb_cap H' a = unat item_count \<and> rb_isz H' a = unat item_size \<and>
    (\<forall>q. q \<noteq> a \<longrightarrow> H' q = H q)"
  using rbuf_init_ok assms by blast

theorem rbuf_init_valid_witness:
  "\<exists>H'. rbuf_init rb_demo 2 True 4 3 = Inr (2, H') \<and> rb_ok H' 2 \<and> rb_queue H' 2 = [] \<and>
    rb_cap H' 2 = 3 \<and> rb_isz H' 2 = 4 \<and> H' 1 = rb_demo 1"
  using rbuf_init_valid [of 2 3 4 rb_demo] by auto

text \<open>
  C23. Queries: on a valid handle \<open>rbuf_size\<close> (computed with wrapping 64-bit subtraction)
  returns the number of stored items, \<open>rbuf_empty\<close> and \<open>rbug_full\<close> return 1 exactly when
  there are none or as many as the capacity, which \<open>rbuf_capacity\<close> returns.
\<close>

theorem rbuf_queries:
  assumes "rb_ok H p"
  shows "rbuf_size H p = Inr (of_nat (length (rb_queue H p))) \<and>
    rbuf_empty H p = Inr (of_bool (rb_queue H p = [])) \<and>
    rbug_full H p = Inr (of_bool (length (rb_queue H p) = rb_cap H p)) \<and>
    rbuf_capacity H p = Inr (of_nat (rb_cap H p))"
proof -
  from assms obtain r where r: "rb_inv r" "rb_ptr H p = Inr r" "rb_queue H p = rb_items r"
    "rb_cap H p = unat (rb_size r)"
    by (rule rb_okE)
  have "rbuf_size H p = Inr (of_nat (length (rb_queue H p)))"
    using rb_size_word [OF r(1)] rb_items_length [OF r(1)] r
    by (simp add: rbuf_size_def rb_count_def Let_def)
  with r rb_empty_iff [OF r(1)] rb_full_of_bool [OF r(1)] show ?thesis
    by (simp add: rbuf_empty_def rbug_full_def rbuf_capacity_def)
qed

theorem rbuf_queries_witness:
  "rbuf_size rb_demo 1 = Inr 0 \<and> rbuf_empty rb_demo 1 = Inr 1 \<and> rbug_full rb_demo 1 = Inr 0 \<and>
   rbuf_capacity rb_demo 1 = Inr 2"
  using rbuf_queries [OF rb_demo_ok] by (simp add: rb_demo_abs)

text \<open>
  The client program prints one, two, one, two, one: for any two eight-byte items the
  sequence of puts, overwriting puts and gets in \<open>main\<close> leaves them in the buffer in that
  order, and the five gets of the loop return them oldest first.
\<close>

theorem rbuf_main_prints:
  assumes "a \<noteq> NULL" and "length one = 8" and "length two = 8" and "length tmp = 8"
  shows "rbuf_main a True one two tmp = Inr [one, two, one, two, one]"
proof -
  obtain H0 H1 H2 H3 H4 H5 H6 where
    fill: "rbuf_init Map.empty a True 8 5 = Inr (a, H0)" "rbuf_put H0 a one = Inr (0, H1)"
      "rbuf_fput H1 a two = Inr H2" "rbuf_put H2 a one = Inr (0, H3)"
      "rbuf_fput H3 a two = Inr H4" "rbuf_put H4 a one = Inr (0, H5)"
      "rbuf_fput H5 a two = Inr H6"
    and H6: "rb_ok H6 a" "rb_queue H6 a = [two, one, two, one, two]" "rb_cap H6 a = 5"
      "rb_isz H6 a = 8"
    by (rule rbuf_main_fill [OF assms(1-3)])
  obtain H7 where H7: "rbuf_get H6 a tmp = Inr (0, two, H7)" "rb_ok H7 a"
    "rb_queue H7 a = [one, two, one, two]" "rb_cap H7 a = 5" "rb_isz H7 a = 8"
    using rbuf_get_some [of H6 a tmp] H6 assms by auto
  obtain H8 where H8: "rbuf_put H7 a one = Inr (0, H8)" "rb_ok H8 a"
    "rb_queue H8 a = [one, two, one, two, one]" "rb_isz H8 a = 8"
    using rbuf_put_room [of H7 a one] H7 assms by auto
  have "rbuf_pops 5 H8 a two = Inr [one, two, one, two, one]"
    using rb.drain_items [of H8 a two 5] H8 assms by (simp add: rbuf_pops_drain)
  then show ?thesis
    by (simp add: rbuf_main_def fill H7(1) H8(1))
qed

theorem rbuf_main_prints_witness:
  "rbuf_main 64 True (replicate 8 1) (replicate 8 2) (replicate 8 0) =
   Inr [replicate 8 1, replicate 8 2, replicate 8 1, replicate 8 2, replicate 8 1]"
  by (rule rbuf_main_prints) simp_all

end
