(* ===== verification/Linked_List.thy ===== *)
theory Linked_List
  imports C_Prelude
begin

text \<open>
  The intrusive circular doubly-linked list of \<open>linked_list_advanced/include/ll.h\<close> and its
  demo program. Links live in a store; a list is a head with the addresses that follow it in
  the ring (\<open>dll\<close>). Insertion is correct at every position; deletion restores the forward
  links but writes the wrong backward link, and the theory shows exactly when that matters.
\<close>

section \<open>Data and operations\<close>

record list_item =
  li_next :: addr
  li_prev :: addr

type_synonym ll_heap = "addr \<rightharpoonup> list_item"

text \<open>
  The macro \<open>get_container\<close>: the address of the enclosing object, from the address of a member
  at byte offset \<open>off\<close>.
\<close>

definition get_container :: "addr \<Rightarrow> addr \<Rightarrow> addr" where
  "get_container ptr off = ptr - off"

definition ll_init_list :: "ll_heap \<Rightarrow> addr \<Rightarrow> ll_heap cres" where
  "ll_init_list H l =
     cbind (update_at H l (li_next_update (\<lambda>_. l))) (\<lambda>H1.
       update_at H1 l (li_prev_update (\<lambda>_. l)))"

text \<open>\<open>__ll_add\<close>: the four link writes in the source's order.\<close>

definition ll_add_raw :: "ll_heap \<Rightarrow> addr \<Rightarrow> addr \<Rightarrow> addr \<Rightarrow> ll_heap cres" where
  "ll_add_raw H new_item prev nxt =
     cbind (update_at H new_item (li_next_update (\<lambda>_. nxt))) (\<lambda>H1.
     cbind (update_at H1 new_item (li_prev_update (\<lambda>_. prev))) (\<lambda>H2.
     cbind (update_at H2 prev (li_next_update (\<lambda>_. new_item))) (\<lambda>H3.
       update_at H3 nxt (li_prev_update (\<lambda>_. new_item)))))"

definition ll_add :: "ll_heap \<Rightarrow> addr \<Rightarrow> addr \<Rightarrow> ll_heap cres" where
  "ll_add H new_item prev =
     cbind (deref H prev) (\<lambda>i. ll_add_raw H new_item prev (li_next i))"

definition ll_add_tail :: "ll_heap \<Rightarrow> addr \<Rightarrow> addr \<Rightarrow> ll_heap cres" where
  "ll_add_tail H new_item nxt =
     cbind (deref H nxt) (\<lambda>i. ll_add_raw H new_item (li_prev i) nxt)"

text \<open>\<open>__ll_del\<close>, with the assignment \<open>next->prev = next\<close> as it stands in the source.\<close>

definition ll_del_raw :: "ll_heap \<Rightarrow> addr \<Rightarrow> addr \<Rightarrow> ll_heap cres" where
  "ll_del_raw H prev nxt =
     cbind (update_at H prev (li_next_update (\<lambda>_. nxt))) (\<lambda>H1.
       update_at H1 nxt (li_prev_update (\<lambda>_. nxt)))"

definition ll_del :: "ll_heap \<Rightarrow> addr \<Rightarrow> ll_heap cres" where
  "ll_del H del =
     cbind (deref H del) (\<lambda>i.
     cbind (ll_del_raw H (li_prev i) (li_next i)) (\<lambda>H1.
     cbind (update_at H1 del (li_next_update (\<lambda>_. NULL))) (\<lambda>H2.
       update_at H2 del (li_prev_update (\<lambda>_. NULL)))))"

definition ll_is_empty :: "ll_heap \<Rightarrow> addr \<Rightarrow> byte cres" where
  "ll_is_empty H head = cbind (deref H head) (\<lambda>i. Inr (of_bool (li_next i = head)))"

text \<open>
  The demo program: \<open>my_list\<close>, \<open>ints_one\<close> and \<open>ints_two\<close> are the addresses of its three
  local objects; the member \<open>list\<close> of \<open>struct my_integers\<close> stands after three 4-byte ints and
  4 bytes of padding. The result is the pair \<open>(first_struct, last_struct)\<close>.
\<close>

definition list_offset :: addr where
  "list_offset = 16"

definition ll_main :: "ll_heap \<Rightarrow> addr \<Rightarrow> addr \<Rightarrow> addr \<Rightarrow> (addr \<times> addr) cres" where
  "ll_main H my_list ints_one ints_two =
     cbind (ll_init_list H my_list) (\<lambda>H1.
     cbind (ll_add H1 (ints_one + list_offset) my_list) (\<lambda>H2.
     cbind (ll_add_tail H2 (ints_two + list_offset) (ints_one + list_offset)) (\<lambda>H3.
     cbind (deref H3 my_list) (\<lambda>i.
       Inr (get_container (li_next i) list_offset, get_container (li_prev i) list_offset)))))"

section \<open>Well-formed rings\<close>

definition next_of :: "ll_heap \<Rightarrow> addr \<Rightarrow> addr option" where
  "next_of H a = map_option li_next (H a)"

definition prev_of :: "ll_heap \<Rightarrow> addr \<Rightarrow> addr option" where
  "prev_of H a = map_option li_prev (H a)"

text \<open>Consecutive addresses of a path are linked forwards (\<open>fwd\<close>) and backwards (\<open>bwd\<close>).\<close>

fun fwd :: "ll_heap \<Rightarrow> addr list \<Rightarrow> bool" where
  "fwd H (a # b # xs) = (next_of H a = Some b \<and> fwd H (b # xs))"
| "fwd H _ = True"

fun bwd :: "ll_heap \<Rightarrow> addr list \<Rightarrow> bool" where
  "bwd H (a # b # xs) = (prev_of H b = Some a \<and> bwd H (b # xs))"
| "bwd H _ = True"

text \<open>
  \<open>fdll H h xs\<close>: following \<open>next\<close> from the head \<open>h\<close> visits \<open>xs\<close> and returns to the head;
  \<open>dll\<close> adds that every \<open>prev\<close> is the inverse of the \<open>next\<close> that leads there.
\<close>

definition fdll :: "ll_heap \<Rightarrow> addr \<Rightarrow> addr list \<Rightarrow> bool" where
  "fdll H h xs \<longleftrightarrow> distinct (h # xs) \<and> NULL \<notin> set (h # xs) \<and> fwd H (h # xs @ [h])"

definition dll :: "ll_heap \<Rightarrow> addr \<Rightarrow> addr list \<Rightarrow> bool" where
  "dll H h xs \<longleftrightarrow> fdll H h xs \<and> bwd H (h # xs @ [h])"

section \<open>Lemmas on paths\<close>

lemma fwd_append: "fwd H (us @ a # vs) \<longleftrightarrow> fwd H (us @ [a]) \<and> fwd H (a # vs)"
  by (induction us rule: induct_list012; cases vs) simp_all

lemma bwd_append: "bwd H (us @ a # vs) \<longleftrightarrow> bwd H (us @ [a]) \<and> bwd H (a # vs)"
  by (induction us rule: induct_list012; cases vs) simp_all

lemma fwd_frame:
  "fwd H xs \<Longrightarrow> (\<forall>a\<in>set (butlast xs). next_of H' a = next_of H a) \<Longrightarrow> fwd H' xs"
  by (induction H xs rule: fwd.induct) auto

lemma bwd_frame:
  "bwd H xs \<Longrightarrow> (\<forall>a\<in>set (tl xs). prev_of H' a = prev_of H a) \<Longrightarrow> bwd H' xs"
  by (induction H xs rule: bwd.induct) auto

text \<open>
  The ring \<open>h, as, bs, h\<close> cut between \<open>as\<close> and \<open>bs\<close>: \<open>p\<close> is the last address before the
  cut and \<open>n\<close> the first one after it.
\<close>

lemma ring_cut:
  assumes "distinct (h # as @ bs)"
  obtains us p n vs where "last (h # as) = p" and "hd (bs @ [h]) = n"
    and "h # as = us @ [p]" and "bs @ [h] = n # vs"
    and "p \<notin> set us" "p \<notin> set bs" "p \<in> set (h # as)"
    and "n \<notin> set as" "n \<notin> set vs" "n \<in> set (bs @ [h])"
proof -
  have us: "h # as = butlast (h # as) @ [last (h # as)]"
    by (rule append_butlast_last_id [symmetric]) simp
  have vs: "bs @ [h] = hd (bs @ [h]) # tl (bs @ [h])" by simp
  have "distinct (butlast (h # as) @ [last (h # as)])" using assms us
    by (metis distinct_append append_Cons)
  then have p1: "last (h # as) \<notin> set (butlast (h # as))" by simp
  have "distinct (bs @ [h])" using assms by auto
  then have n1: "hd (bs @ [h]) \<notin> set (tl (bs @ [h]))" using vs by (metis distinct.simps(2))
  have p: "last (h # as) \<in> set (h # as)" by (rule last_in_set) simp
  have n: "hd (bs @ [h]) \<in> set (bs @ [h])" by (rule hd_in_set) simp
  have p2: "last (h # as) \<notin> set bs" and n2: "hd (bs @ [h]) \<notin> set as" using p n assms by auto
  show ?thesis by (rule that [OF refl refl us vs p1 p2 p n2 n1 n])
qed

lemma dll_dom:
  assumes "dll H h xs" and "a \<in> set (h # xs)"
  shows "a \<noteq> NULL" and "\<exists>i. H a = Some i"
proof -
  from assms show "a \<noteq> NULL" by (auto simp: dll_def fdll_def)
  from assms(2) obtain us vs where "h # xs = us @ a # vs" by (metis split_list)
  then have "h # xs @ [h] = us @ a # vs @ [h]" by (metis append_Cons append_assoc)
  moreover from assms(1) have "fwd H (h # xs @ [h])" by (simp add: dll_def fdll_def)
  ultimately have "fwd H (a # vs @ [h])" using fwd_append by metis
  then show "\<exists>i. H a = Some i" by (cases vs) (auto simp: next_of_def)
qed

section \<open>Insertion\<close>

text \<open>The four writes of \<open>__ll_add\<close> as an update of the two link functions.\<close>

lemma ll_add_raw_links:
  assumes "H new = Some i" and "H p = Some j" and "H n = Some k"
    and "NULL \<notin> {new, p, n}" and "new \<noteq> p" and "new \<noteq> n"
  shows "\<exists>H'. ll_add_raw H new p n = Inr H' \<and>
    next_of H' = (next_of H)(new := Some n, p := Some new) \<and>
    prev_of H' = (prev_of H)(new := Some p, n := Some new)"
  using assms
  by (cases "p = n") (auto simp: ll_add_raw_def next_of_def prev_of_def intro!: ext)

lemma dll_insert:
  assumes ring: "dll H h (as @ bs)" and new: "new \<notin> set (h # as @ bs)" "new \<noteq> NULL"
    and nx: "next_of H' = (next_of H)(new \<mapsto> hd (bs @ [h]), last (h # as) \<mapsto> new)"
    and pv: "prev_of H' = (prev_of H)(new \<mapsto> last (h # as), hd (bs @ [h]) \<mapsto> new)"
  shows "dll H' h (as @ new # bs)"
proof -
  have dist: "distinct (h # as @ bs)" using ring by (simp add: dll_def fdll_def)
  obtain us p n vs where pn: "last (h # as) = p" "hd (bs @ [h]) = n"
    and us: "h # as = us @ [p]" and vs: "bs @ [h] = n # vs"
    and p: "p \<notin> set us" "p \<notin> set bs" "p \<in> set (h # as)"
    and n: "n \<notin> set as" "n \<notin> set vs" "n \<in> set (bs @ [h])"
    by (rule ring_cut [OF dist])
  note nx = nx [unfolded pn] and pv = pv [unfolded pn]
  have "h # (as @ bs) @ [h] = (h # as) @ bs @ [h]"
    and "h # (as @ new # bs) @ [h] = (h # as) @ new # bs @ [h]" by simp_all
  then have cut: "h # (as @ bs) @ [h] = us @ p # n # vs"
    "h # (as @ new # bs) @ [h] = us @ p # new # n # vs"
    by (simp_all only: us vs append.assoc append_Cons append_Nil)
  have f: "fwd H (us @ [p])" "fwd H (n # vs)" and b: "bwd H (us @ [p])" "bwd H (n # vs)"
    using ring fwd_append [of H us p "n # vs"] bwd_append [of H us p "n # vs"] cut(1)
    by (auto simp: dll_def fdll_def)
  have sets: "set us \<subseteq> set (h # as)" "set vs \<subseteq> set (bs @ [h])" by (simp_all only: us vs) auto
  have cuts: "tl (us @ [p]) = as" "butlast (n # vs) = bs"
    by (simp_all only: us [symmetric] vs [symmetric]) simp_all
  have "fwd H' (us @ [p])"
    by (rule fwd_frame [OF f(1)]) (use p(1) new sets(1) in \<open>auto simp: nx\<close>)
  moreover have "fwd H' (n # vs)"
    by (rule fwd_frame [OF f(2)]) (use p(2) new cuts in \<open>auto simp: nx\<close>)
  moreover have "bwd H' (us @ [p])"
    by (rule bwd_frame [OF b(1)]) (use n(1) new cuts in \<open>auto simp: pv\<close>)
  moreover have "bwd H' (n # vs)"
    by (rule bwd_frame [OF b(2)]) (use n(2) new sets(2) in \<open>auto simp: pv\<close>)
  moreover have "next_of H' p = Some new" "next_of H' new = Some n"
      "prev_of H' new = Some p" "prev_of H' n = Some new"
    using new p(3) n(3) by (auto simp: nx pv)
  ultimately have "fwd H' (us @ p # new # n # vs)" "bwd H' (us @ p # new # n # vs)"
    using fwd_append [of H' us p "new # n # vs"] bwd_append [of H' us p "new # n # vs"]
    by auto
  with dist new ring cut(2) show ?thesis by (auto simp: dll_def fdll_def)
qed

text \<open>The neighbours across a cut, as the links give them.\<close>

lemma dll_neighbours:
  assumes "dll H h (as @ bs)"
  shows "next_of H (last (h # as)) = Some (hd (bs @ [h]))"
    and "prev_of H (hd (bs @ [h])) = Some (last (h # as))"
proof -
  have dist: "distinct (h # as @ bs)" using assms by (simp add: dll_def fdll_def)
  obtain us p n vs where pn: "last (h # as) = p" "hd (bs @ [h]) = n"
    and us: "h # as = us @ [p]" and vs: "bs @ [h] = n # vs"
    by (rule ring_cut [OF dist])
  have "h # (as @ bs) @ [h] = (h # as) @ bs @ [h]" by simp
  then have cut: "h # (as @ bs) @ [h] = us @ p # n # vs"
    by (simp_all only: us vs append.assoc append_Cons append_Nil)
  with assms have "fwd H (us @ p # n # vs)" "bwd H (us @ p # n # vs)"
    by (simp_all add: dll_def fdll_def)
  then show "next_of H (last (h # as)) = Some (hd (bs @ [h]))"
    and "prev_of H (hd (bs @ [h])) = Some (last (h # as))"
    unfolding pn using fwd_append [of H us p "n # vs"] bwd_append [of H us p "n # vs"] by simp_all
qed

lemma dll_ends:
  "last (h # as) \<in> set (h # as @ bs)" "hd (bs @ [h]) \<in> set (h # as @ bs)"
  by (cases "as = []"; cases bs; simp)+

text \<open>Insertion at the cut, from either neighbour.\<close>

lemma dll_add_at:
  assumes "dll H h (as @ bs)" and "new \<notin> set (h # as @ bs)" and "new \<noteq> NULL"
    and "H new = Some i"
  shows "\<exists>H'. ll_add H new (last (h # as)) = Inr H' \<and>
           ll_add_tail H new (hd (bs @ [h])) = Inr H' \<and> dll H' h (as @ new # bs)"
proof -
  let ?p = "last (h # as)" and ?n = "hd (bs @ [h])"
  obtain j where j: "?p \<noteq> NULL" "H ?p = Some j"
    using dll_dom [OF assms(1) dll_ends(1) [where h = h and as = as and bs = bs]] by auto
  obtain k where k: "?n \<noteq> NULL" "H ?n = Some k"
    using dll_dom [OF assms(1) dll_ends(2) [where h = h and as = as and bs = bs]] by auto
  have ne: "new \<noteq> ?p" "new \<noteq> ?n" using dll_ends [where h = h and as = as and bs = bs] assms(2) by metis+
  have links: "li_next j = ?n" "li_prev k = ?p"
    using dll_neighbours [OF assms(1)] j k by (simp_all add: next_of_def prev_of_def)
  obtain H' where H': "ll_add_raw H new ?p ?n = Inr H'"
    "next_of H' = (next_of H)(new := Some ?n, ?p := Some new)"
    "prev_of H' = (prev_of H)(new := Some ?p, ?n := Some new)"
    using ll_add_raw_links [OF assms(4) j(2) k(2)] j(1) k(1) ne assms(3) by auto
  have "dll H' h (as @ new # bs)"
    by (rule dll_insert [OF assms(1-3) H'(2,3)])
  moreover have "ll_add H new ?p = Inr H'" "ll_add_tail H new ?n = Inr H'"
    using j k H'(1) links by (simp_all add: ll_add_def ll_add_tail_def del: last.simps)
  ultimately show ?thesis by blast
qed

section \<open>Deletion\<close>

text \<open>The writes of \<open>ll_del\<close> as an update of the two link functions.\<close>

lemma ll_del_links:
  assumes "H d = Some i" and "H (li_prev i) = Some j" and "H (li_next i) = Some k"
    and "NULL \<notin> {d, li_prev i, li_next i}" and "d \<noteq> li_prev i" and "d \<noteq> li_next i"
  shows "\<exists>H'. ll_del H d = Inr H' \<and>
    next_of H' = (next_of H)(li_prev i := Some (li_next i), d := Some NULL) \<and>
    prev_of H' = (prev_of H)(li_next i := Some (li_next i), d := Some NULL)"
  using assms
  by (cases "li_prev i = li_next i")
    (auto simp: ll_del_def ll_del_raw_def next_of_def prev_of_def intro!: ext)

text \<open>
  What deleting \<open>d\<close> does to a well-formed ring: the forward ring loses exactly \<open>d\<close>; every
  backward link survives but the one of the successor, which now points to the successor
  itself.
\<close>

lemma dll_delete:
  assumes ring: "dll H h (as @ d # bs)"
  shows "\<exists>H'. ll_del H d = Inr H' \<and> fdll H' h (as @ bs) \<and>
    prev_of H' (hd (bs @ [h])) = Some (hd (bs @ [h])) \<and> H' d = Some \<lparr>li_next = 0, li_prev = 0\<rparr>"
proof -
  let ?p = "last (h # as)" and ?n = "hd (bs @ [h])"
  have dist: "distinct (h # as @ bs)" "d \<notin> set (h # as @ bs)"
    using ring by (auto simp: dll_def fdll_def)
  obtain us p n vs where pn: "last (h # as) = p" "hd (bs @ [h]) = n"
    and us: "h # as = us @ [p]" and vs: "bs @ [h] = n # vs"
    and p: "p \<notin> set us" "p \<notin> set bs" "p \<in> set (h # as)" and n: "n \<in> set (bs @ [h])"
    by (rule ring_cut [OF dist(1)])
  have "next_of H d = Some n" "prev_of H d = Some p"
    using dll_neighbours(1) [of H h "as @ [d]" bs] dll_neighbours(2) [of H h as "d # bs"] ring pn
    by simp_all
  then obtain i where i: "H d = Some i" "li_next i = n" "li_prev i = p"
    by (auto simp: next_of_def prev_of_def)
  obtain j k where jk: "H p = Some j" "H n = Some k" and nz: "NULL \<notin> {d, p, n}"
    using dll_dom [OF ring] p(3) n by fastforce
  have ne: "d \<noteq> p" "d \<noteq> n" using p(3) n dist(2) by auto
  obtain H' where H': "ll_del H d = Inr H'"
      "next_of H' = (next_of H)(p := Some n, d := Some NULL)"
      "prev_of H' = (prev_of H)(n := Some n, d := Some NULL)"
    using ll_del_links [of H d i j k] i jk nz ne by auto
  have "h # (as @ d # bs) @ [h] = (h # as) @ d # bs @ [h]"
    and "h # (as @ bs) @ [h] = (h # as) @ bs @ [h]" by simp_all
  then have cut: "h # (as @ d # bs) @ [h] = us @ p # d # n # vs"
    "h # (as @ bs) @ [h] = us @ p # n # vs"
    by (simp_all only: us vs append.assoc append_Cons append_Nil)
  have f: "fwd H (us @ [p])" "fwd H (n # vs)"
    using ring fwd_append [of H us p "d # n # vs"] cut(1) by (auto simp: dll_def fdll_def)
  have sets: "set us \<subseteq> set (h # as)" "butlast (n # vs) = bs"
    by (simp_all only: us vs [symmetric]) auto
  have "fwd H' (us @ [p])"
    by (rule fwd_frame [OF f(1)]) (use p(1) dist(2) sets(1) in \<open>auto simp: H'(2)\<close>)
  moreover have "fwd H' (n # vs)"
    by (rule fwd_frame [OF f(2)]) (use p(2) dist(2) sets(2) in \<open>auto simp: H'(2)\<close>)
  moreover have "next_of H' p = Some n" using ne by (simp add: H'(2))
  ultimately have "fwd H' (us @ p # n # vs)" using fwd_append [of H' us p "n # vs"] by simp
  then have "fdll H' h (as @ bs)" using ring dist cut(2) by (auto simp: dll_def fdll_def)
  moreover have "next_of H' d = Some NULL" "prev_of H' d = Some NULL" "prev_of H' n = Some n"
    using ne by (auto simp: H'(2,3))
  ultimately show ?thesis using H'(1) pn(2)
    by (auto simp: next_of_def prev_of_def intro: list_item.equality)
qed

text \<open>The two neighbours of a deleted item coincide only when it was the only one.\<close>

lemma ring_ends_eq:
  assumes "distinct (h # as @ bs)" and "last (h # as) = hd (bs @ [h])"
  shows "as @ bs = []"
proof -
  obtain us p n vs where "last (h # as) = p" "hd (bs @ [h]) = n"
    and p: "p \<notin> set bs" "p \<in> set (h # as)" and n: "n \<notin> set as" "n \<in> set (bs @ [h])"
    by (rule ring_cut [OF assms(1)])
  with assms have e: "last (h # as) = h" "hd (bs @ [h]) = h" by auto
  from e(1) assms(1) have "as = []" by (cases as) (auto split: if_splits)
  moreover from e(2) assms(1) have "bs = []" by (cases bs) auto
  ultimately show ?thesis by simp
qed

lemma ll_is_empty_iff:
  assumes "dll H h xs"
  shows "ll_is_empty H h = Inr (of_bool (xs = []))"
proof -
  from dll_dom [OF assms, of h] obtain i where i: "H h = Some i" "h \<noteq> NULL" by auto
  with dll_neighbours(1) [of H h "[]" xs] assms have "li_next i = hd (xs @ [h])"
    by (simp add: next_of_def)
  moreover have "hd (xs @ [h]) = h \<longleftrightarrow> xs = []"
    using assms by (cases xs) (auto simp: dll_def fdll_def)
  ultimately show ?thesis using i by (simp add: ll_is_empty_def)
qed

lemma get_container_member: "get_container (obj + off) off = obj"
  by (simp add: get_container_def)

lemma dll_init:
  "l \<noteq> NULL \<Longrightarrow> H l = Some i \<Longrightarrow> \<exists>H'. ll_init_list H l = Inr H' \<and> dll H' l []"
  by (auto simp: ll_init_list_def dll_def fdll_def next_of_def prev_of_def)

text \<open>
  A ring with head 1 and items 2 and 3, and two unlinked items 4 and 5.
\<close>

definition ll_demo :: ll_heap where
  "ll_demo = [1 \<mapsto> \<lparr>li_next = 2, li_prev = 3\<rparr>, 2 \<mapsto> \<lparr>li_next = 3, li_prev = 1\<rparr>,
              3 \<mapsto> \<lparr>li_next = 1, li_prev = 2\<rparr>, 4 \<mapsto> \<lparr>li_next = 0, li_prev = 0\<rparr>,
              5 \<mapsto> \<lparr>li_next = 0, li_prev = 0\<rparr>]"

lemma ll_demo_dll: "dll ll_demo 1 [2, 3]"
  by (simp add: ll_demo_def dll_def fdll_def next_of_def prev_of_def)

section \<open>Properties\<close>

text \<open>
  C9. Insertion: in a well-formed ring, \<open>ll_add\<close> after an item and \<open>ll_add_tail\<close> before its
  successor both insert an allocated, unlinked item exactly between the two, at any position,
  the head included, and the result is a well-formed ring.
\<close>

theorem ll_add_inserts:
  assumes "dll H h (as @ bs)" and "new \<notin> set (h # as @ bs)" and "new \<noteq> NULL"
    and "H new = Some i"
  shows "\<exists>H'. ll_add H new (last (h # as)) = Inr H' \<and>
    ll_add_tail H new (hd (bs @ [h])) = Inr H' \<and> dll H' h (as @ new # bs)"
  by (rule dll_add_at [OF assms])

theorem ll_add_inserts_witness:
  "\<exists>H'. ll_add ll_demo 4 2 = Inr H' \<and> ll_add_tail ll_demo 4 3 = Inr H' \<and> dll H' 1 [2, 4, 3]"
  using ll_add_inserts [of ll_demo 1 "[2]" "[3]" 4 "\<lparr>li_next = 0, li_prev = 0\<rparr>"] ll_demo_dll
  by (simp add: ll_demo_def)

text \<open>
  C35. Deletion keeps the forward ring but not the backward one: \<open>ll_del\<close> of any item succeeds
  and following \<open>next\<close> visits the remaining items in order, but the ring is well formed
  afterwards only if nothing remains, because \<open>__ll_del\<close> makes the successor its own
  predecessor.
\<close>

theorem ll_del_breaks_prev:
  assumes "dll H h (as @ d # bs)"
  shows "\<exists>H'. ll_del H d = Inr H' \<and> fdll H' h (as @ bs) \<and> (dll H' h (as @ bs) \<longleftrightarrow> as @ bs = [])"
proof -
  obtain H' where H': "ll_del H d = Inr H'" "fdll H' h (as @ bs)"
      "prev_of H' (hd (bs @ [h])) = Some (hd (bs @ [h]))"
    using dll_delete [OF assms] by auto
  have dist: "distinct (h # as @ bs)" using assms by (auto simp: dll_def fdll_def)
  have "as @ bs = []" if "dll H' h (as @ bs)"
    using dll_neighbours(2) [OF that] H'(3) ring_ends_eq [OF dist] by simp
  moreover have "dll H' h (as @ bs)" if "as @ bs = []"
    using that H'(2,3) by (simp add: dll_def)
  ultimately show ?thesis using H'(1,2) by blast
qed

theorem ll_del_breaks_prev_witness:
  "\<exists>H'. ll_del ll_demo 2 = Inr H' \<and> fdll H' 1 [3] \<and> \<not> dll H' 1 [3]"
  using ll_del_breaks_prev [of ll_demo 1 "[]" 2 "[3]"] ll_demo_dll by simp

text \<open>
  The wrong link loses items: after the last item of a longer ring is deleted, appending
  with \<open>ll_add_tail\<close> at the head leaves a ring that holds the new item alone.
\<close>

theorem ll_append_after_del_loses:
  assumes "dll H h (as @ [d])" and "new \<notin> set (h # as @ [d])" and "new \<noteq> NULL"
    and "H new = Some i"
  shows "\<exists>H1 H2. ll_del H d = Inr H1 \<and> fdll H1 h as \<and>
    ll_add_tail H1 new h = Inr H2 \<and> fdll H2 h [new]"
proof -
  obtain H1 where H1: "ll_del H d = Inr H1" "fdll H1 h as" "prev_of H1 h = Some h"
    using dll_delete [OF assms(1)] by auto
  have "H1 new = H new"
    using H1(1) assms dll_dom [OF assms(1)] dll_neighbours(1) [of H h "as @ [d]" "[]"]
      dll_neighbours(2) [of H h as "[d]"] last_in_set [of "h # as"]
    by (auto simp: ll_del_def ll_del_raw_def cres_simps next_of_def prev_of_def)
  then obtain k where k: "H1 h = Some k" "li_prev k = h" "H1 new = Some i" "h \<noteq> NULL" "h \<noteq> new"
    using H1(2,3) assms by (auto simp: prev_of_def fdll_def)
  obtain H2 where "ll_add_raw H1 new h h = Inr H2"
      "next_of H2 = (next_of H1)(new := Some h, h := Some new)"
    using ll_add_raw_links [of H1 new i h k h k] k assms(3) by auto
  with k assms(3) have "ll_add_tail H1 new h = Inr H2 \<and> fdll H2 h [new]"
    by (simp add: ll_add_tail_def fdll_def)
  with H1 show ?thesis by blast
qed

theorem ll_append_after_del_loses_witness:
  "\<exists>H1 H2. ll_del ll_demo 3 = Inr H1 \<and> fdll H1 1 [2] \<and> ll_add_tail H1 4 1 = Inr H2 \<and>
     fdll H2 1 [4]"
  using ll_append_after_del_loses [of ll_demo 1 "[2]" 3 4 "\<lparr>li_next = 0, li_prev = 0\<rparr>"]
    ll_demo_dll
  by (simp add: ll_demo_def)

text \<open>
  The demo program: \<open>ll_add_tail\<close> before \<open>ints_one\<close> puts \<open>ints_two\<close> at the front, so
  \<open>get_container\<close> finds \<open>ints_two\<close> as the first object and \<open>ints_one\<close> as the last.
\<close>

theorem ll_main_result:
  assumes "NULL \<notin> {l, one + list_offset, two + list_offset}" and "l \<noteq> one + list_offset"
    and "l \<noteq> two + list_offset" and "one \<noteq> two"
    and "{l, one + list_offset, two + list_offset} \<subseteq> dom H"
  shows "ll_main H l one two = Inr (two, one)"
proof -
  from assms(5) obtain i j k
    where "H l = Some i" "H (one + list_offset) = Some j" "H (two + list_offset) = Some k"
    by (auto simp: dom_def)
  with assms(1-4) show ?thesis
    by (auto simp: ll_main_def ll_init_list_def ll_add_def ll_add_tail_def ll_add_raw_def
        get_container_member)
qed

theorem ll_main_result_witness:
  "ll_main ((\<lambda>_. None)(256 \<mapsto> \<lparr>li_next = 7, li_prev = 8\<rparr>, 528 \<mapsto> \<lparr>li_next = 0, li_prev = 0\<rparr>,
     784 \<mapsto> \<lparr>li_next = 0, li_prev = 0\<rparr>)) 256 512 768 = Inr (768, 512)"
  by (rule ll_main_result) (simp_all add: list_offset_def)

end
