(* ===== verification/Sentinel_List.thy ===== *)
theory Sentinel_List
  imports C_Prelude
begin

text \<open>
  Singly-linked lists that start at a statically allocated head node, as \<open>state_machine\<close>,
  \<open>embedded_button_checker\<close>, the message-queue servers and \<open>async_UDP_multithread\<close> all keep
  them. The two traversal loops they share, written once over any node type, and what they
  return on a chain of nodes; the locale \<open>linked_node\<close> states what a node type's \<open>next\<close> field
  must satisfy and gives the lemmas for appending and unlinking nodes.
\<close>

section \<open>The traversal loops\<close>

text \<open>
  \<open>for (iterator = start; iterator->next; iterator = iterator->next) ;\<close>
  The loop does not end on a cyclic list, which is the value \<open>None\<close>.
\<close>

partial_function (option) last_node :: "('n \<Rightarrow> addr) \<Rightarrow> (addr \<rightharpoonup> 'n) \<Rightarrow> addr \<Rightarrow> addr crun" where
  "last_node nxt H it =
     (case deref H it of
        Inl e \<Rightarrow> Some (Inl e)
      | Inr n \<Rightarrow> if nxt n = NULL then Some (Inr it) else last_node nxt H (nxt n))"

text \<open>
  \<open>for (iterator = start; iterator->next && (iterator->next->key != k);
       iterator = iterator->next) ;\<close>
\<close>

partial_function (option) find_prev ::
    "('n \<Rightarrow> addr) \<Rightarrow> ('n \<Rightarrow> 'k) \<Rightarrow> (addr \<rightharpoonup> 'n) \<Rightarrow> 'k \<Rightarrow> addr \<Rightarrow> addr crun" where
  "find_prev nxt key H k it =
     (case deref H it of
        Inl e \<Rightarrow> Some (Inl e)
      | Inr n \<Rightarrow>
          if nxt n = NULL then Some (Inr it)
          else case deref H (nxt n) of
                 Inl e \<Rightarrow> Some (Inl e)
               | Inr m \<Rightarrow> if key m = k then Some (Inr it) else find_prev nxt key H k (nxt n))"

section \<open>Chains\<close>

text \<open>\<open>chain nxt H p as\<close>: starting at \<open>p\<close> and following \<open>next\<close> visits \<open>as\<close> and then NULL.\<close>

primrec chain :: "('n \<Rightarrow> addr) \<Rightarrow> (addr \<rightharpoonup> 'n) \<Rightarrow> addr \<Rightarrow> addr list \<Rightarrow> bool" where
  "chain nxt H p [] \<longleftrightarrow> p = NULL"
| "chain nxt H p (a # as) \<longleftrightarrow>
     p = a \<and> a \<noteq> NULL \<and> (case H a of None \<Rightarrow> False | Some n \<Rightarrow> chain nxt H (nxt n) as)"

text \<open>The nodes of a chain, and the address where a search for a key stops.\<close>

definition nodes_at :: "(addr \<rightharpoonup> 'n) \<Rightarrow> addr list \<Rightarrow> 'n list" where
  "nodes_at H as = map (\<lambda>a. the (H a)) as"

lemma chain_Cons: "chain nxt H p (a # as) \<longleftrightarrow>
    p = a \<and> a \<noteq> NULL \<and> (\<exists>n. H a = Some n \<and> chain nxt H (nxt n) as)"
  by (simp split: option.split)

declare chain.simps(2) [simp del]

lemma chain_unique: "chain nxt H p as \<Longrightarrow> chain nxt H p bs \<Longrightarrow> as = bs"
proof (induction as arbitrary: p bs)
  case Nil
  then show ?case by (cases bs) (auto simp: chain_Cons)
next
  case (Cons a as)
  then show ?case by (cases bs) (auto simp: chain_Cons)
qed

lemma chain_suffix: "chain nxt H p (us @ a # vs) \<Longrightarrow> chain nxt H a (a # vs)"
  by (induction us arbitrary: p) (auto simp: chain_Cons)

lemma chain_notin: "chain nxt H p (a # as) \<Longrightarrow> a \<notin> set as"
proof
  assume c: "chain nxt H p (a # as)" and "a \<in> set as"
  then obtain us vs where "as = us @ a # vs" by (metis split_list)
  moreover from this c have "chain nxt H a (a # vs)" by (metis append_Cons chain_suffix)
  moreover from c have "p = a" by (simp add: chain_Cons)
  ultimately have "a # us @ a # vs = a # vs" using c chain_unique by metis
  then show False by (metis append_Cons append_Nil append_same_eq list.discI)
qed

lemma chain_distinct: "chain nxt H p as \<Longrightarrow> distinct as"
proof (induction as arbitrary: p)
  case (Cons a as)
  then show ?case using chain_notin [of nxt H p a as] by (auto simp: chain_Cons)
qed simp

lemma chain_not_NULL: "chain nxt H p as \<Longrightarrow> NULL \<notin> set as"
  by (induction as arbitrary: p) (auto simp: chain_Cons)

lemma chain_dom: "chain nxt H p as \<Longrightarrow> a \<in> set as \<Longrightarrow> \<exists>n. H a = Some n"
  by (induction as arbitrary: p) (auto simp: chain_Cons)

text \<open>Changing the store outside a chain, or inside its nodes but not their links, keeps it.\<close>

lemma chain_frame:
  assumes "chain nxt H p as"
    and "\<And>a. a \<in> set as \<Longrightarrow> map_option nxt (H' a) = map_option nxt (H a)"
  shows "chain nxt H' p as"
  using assms
proof (induction as arbitrary: p)
  case (Cons a as)
  then obtain n where n: "p = a" "a \<noteq> NULL" "H a = Some n" "chain nxt H (nxt n) as"
    by (auto simp: chain_Cons)
  moreover from Cons.prems(2) [of a] n(3) obtain n' where "H' a = Some n'" "nxt n' = nxt n"
    by (auto simp: map_option_case split: option.splits)
  moreover have "chain nxt H' (nxt n) as" using Cons.IH [OF n(4)] Cons.prems(2) by simp
  ultimately show ?case by (simp add: chain_Cons)
qed simp

lemma chain_upd_other: "a \<notin> set as \<Longrightarrow> chain nxt (H(a := v)) p as \<longleftrightarrow> chain nxt H p as"
  by (auto elim!: chain_frame)

section \<open>What the loops return on a chain\<close>

lemma last_node_chain:
  "chain nxt H p (p # as) \<Longrightarrow> last_node nxt H p = Some (Inr (last (p # as)))"
proof (induction as arbitrary: p)
  case Nil
  then show ?case by (auto simp: chain_Cons last_node.simps)
next
  case (Cons a as)
  then obtain n where "p \<noteq> NULL" "H p = Some n" "nxt n = a" "a \<noteq> NULL" "chain nxt H a (a # as)"
    by (auto simp: chain_Cons)
  with Cons.IH [of a] show ?case by (subst last_node.simps) simp
qed

text \<open>
  The search stops in front of the first node with the key, at the end if there is none.
\<close>

lemma find_prev_hit:
  assumes "chain nxt H p (p # as @ b # bs)" and "key (the (H b)) = k"
    and "\<forall>a\<in>set as. key (the (H a)) \<noteq> k"
  shows "find_prev nxt key H k p = Some (Inr (last (p # as)))"
  using assms
proof (induction as arbitrary: p)
  case Nil
  then show ?case by (auto simp: chain_Cons find_prev.simps)
next
  case (Cons a as)
  then obtain n where "p \<noteq> NULL" "H p = Some n" "nxt n = a" "a \<noteq> NULL"
    and c: "chain nxt H a (a # as @ b # bs)"
    by (auto simp: chain_Cons)
  moreover from chain_dom [OF c, of a] obtain m where "H a = Some m" by auto
  ultimately show ?case using Cons.IH [OF c] Cons.prems by (subst find_prev.simps) simp
qed

lemma find_prev_miss:
  assumes "chain nxt H p (p # as)" and "\<forall>a\<in>set as. key (the (H a)) \<noteq> k"
  shows "find_prev nxt key H k p = Some (Inr (last (p # as)))"
  using assms
proof (induction as arbitrary: p)
  case Nil
  then show ?case by (auto simp: chain_Cons find_prev.simps)
next
  case (Cons a as)
  then obtain n where "p \<noteq> NULL" "H p = Some n" "nxt n = a" "a \<noteq> NULL"
    and c: "chain nxt H a (a # as)"
    by (auto simp: chain_Cons)
  moreover from chain_dom [OF c, of a] obtain m where "H a = Some m" by auto
  ultimately show ?case using Cons.IH [OF c] Cons.prems by (subst find_prev.simps) simp
qed

text \<open>The link out of the last node before a position.\<close>

lemma chain_next:
  assumes "chain nxt H p (p # as @ bs)"
  shows "\<exists>n. H (last (p # as)) = Some n \<and> nxt n = (case bs of [] \<Rightarrow> NULL | b # _ \<Rightarrow> b)"
  using assms
proof (induction as arbitrary: p)
  case Nil
  then show ?case by (cases bs) (auto simp: chain_Cons)
next
  case (Cons a as)
  then have "chain nxt H a (a # as @ bs)" by (auto simp: chain_Cons)
  from Cons.IH [OF this] show ?case by simp
qed

lemma chain_head_ne_last:
  assumes "chain nxt H p (p # b # as)"
  shows "p \<noteq> last (b # as)"
proof -
  have "last (b # as) \<in> set (b # as)" by (rule last_in_set) simp
  with chain_notin [OF assms] show ?thesis by metis
qed

lemma chain_last:
  assumes "chain nxt H p (p # as)"
  obtains n where "H (last (p # as)) = Some n" and "nxt n = NULL"
    and "last (p # as) \<noteq> NULL" and "last (p # as) \<in> set (p # as)"
proof -
  have "last (p # as) \<in> set (p # as)" by (rule last_in_set) simp
  moreover from this have "last (p # as) \<noteq> NULL" using chain_not_NULL [OF assms] by metis
  ultimately show ?thesis using that chain_next [of nxt H p as "[]"] assms by auto
qed

text \<open>
  A search ends, in front of the first node with the key or at the end; either way the
  result's successor is NULL or a node of the list that has the key.
\<close>

lemma find_prev_total:
  assumes "chain nxt H p (p # as)"
  shows "\<exists>q n. find_prev nxt key H k p = Some (Inr q) \<and> q \<noteq> NULL \<and> H q = Some n \<and>
    (nxt n = NULL \<or> nxt n \<in> set as \<and> key (the (H (nxt n))) = k)"
proof (cases "\<exists>a\<in>set as. key (the (H a)) = k")
  case True
  from split_list_first_prop [OF this] obtain us b vs
    where as: "as = us @ b # vs" "key (the (H b)) = k" "\<forall>a\<in>set us. key (the (H a)) \<noteq> k"
    by blast
  with chain_next [of nxt H p us "b # vs"] assms obtain n
    where "H (last (p # us)) = Some n" "nxt n = b" by auto
  moreover have "last (p # us) \<noteq> NULL"
    using chain_not_NULL [OF assms] last_in_set [of "p # us"] as(1) by auto
  ultimately show ?thesis using find_prev_hit [of nxt H p us b vs key k] assms as by auto
next
  case False
  with find_prev_miss [OF assms, of key k] assms show ?thesis
    by (metis (no_types, lifting) chain_last)
qed

section \<open>The node interface\<close>

locale linked_node =
  fixes nxt :: "'n \<Rightarrow> addr" and set_nxt :: "addr \<Rightarrow> 'n \<Rightarrow> 'n"
  assumes nxt_set [simp]: "nxt (set_nxt a n) = a"
begin

text \<open>Appending: the last node is redirected to a fresh node with a NULL link.\<close>

lemma chain_snoc:
  assumes "chain nxt H p (p # as)" and "a \<notin> set (p # as)" and "a \<noteq> NULL"
    and "H' a = Some m" and "nxt m = NULL"
    and "map_option nxt (H' (last (p # as))) = Some a"
    and "\<And>b. b \<in> set (p # as) \<Longrightarrow> b \<noteq> last (p # as) \<Longrightarrow>
           map_option nxt (H' b) = map_option nxt (H b)"
  shows "chain nxt H' p (p # as @ [a])"
  using assms
proof (induction as arbitrary: p)
  case Nil
  then show ?case by (auto simp: chain_Cons)
next
  case (Cons b as)
  then obtain n where n: "p \<noteq> NULL" "H p = Some n" "nxt n = b" and c: "chain nxt H b (b # as)"
    by (auto simp: chain_Cons)
  have ne: "p \<noteq> last (b # as)" by (rule chain_head_ne_last [OF Cons.prems(1)])
  then have "map_option nxt (H' p) = Some b" using Cons.prems(7) [of p] n by simp
  moreover have "chain nxt H' b (b # as @ [a])"
    by (rule Cons.IH [OF c]) (use Cons.prems in auto)
  ultimately show ?case using n by (auto simp: chain_Cons)
qed

text \<open>Unlinking: the predecessor is redirected past a node, which is freed.\<close>

lemma chain_unlink:
  assumes "chain nxt H p (p # as @ d # bs)" and "H (last (p # as)) = Some m" and "H d = Some n"
  shows "chain nxt (H(last (p # as) \<mapsto> set_nxt (nxt n) m, d := None)) p (p # as @ bs)"
  using assms
proof (induction as arbitrary: p)
  case Nil
  then have c: "chain nxt H (nxt n) bs" and "p \<noteq> d" "d \<notin> set bs" "p \<notin> set bs" "p \<noteq> NULL"
    using chain_distinct [OF Nil.prems(1)] by (auto simp: chain_Cons)
  then have "chain nxt (H(p \<mapsto> set_nxt (nxt n) m, d := None)) (nxt n) bs"
    by (intro chain_frame [OF c]) auto
  with \<open>p \<noteq> d\<close> \<open>p \<noteq> NULL\<close> show ?case by (simp add: chain_Cons fun_upd_def)
next
  case (Cons b as)
  then obtain k where k: "p \<noteq> NULL" "H p = Some k" "nxt k = b" and c: "chain nxt H b (b # as @ d # bs)"
    by (auto simp: chain_Cons)
  have "p \<notin> set (b # as @ d # bs)" using chain_notin [OF Cons.prems(1)] by simp
  then have ne: "p \<noteq> last (b # as)" "p \<noteq> d" using last_in_set [of "b # as"] by auto
  have "chain nxt (H(last (b # as) \<mapsto> set_nxt (nxt n) m, d := None)) b (b # as @ bs)"
    by (rule Cons.IH [OF c]) (use Cons.prems in auto)
  with k ne show ?case by (auto simp: chain_Cons fun_upd_def)
qed

end

end
