(* ===== verification/State_Machine.thy ===== *)
theory State_Machine
  imports Sentinel_List
begin

text \<open>
  The state machine of \<open>state_machine/src/sm.c\<close>: a list of states behind the static head
  \<open>sm.head\<close>, each with optional init, enter, run and exit callbacks; registration, lookup and
  deletion by ID; the initialisation loop; and the handler task, which receives IDs from a
  queue, switches states and runs the current one. Callbacks are recorded as the calls the
  machine makes, in order.
\<close>

section \<open>Data\<close>

text \<open>A function pointer is the number of a function, \<open>None\<close> when it is NULL.\<close>

type_synonym fptr = "nat option"

record system_state =
  ss_ID :: "32 word"
  ss_data :: addr
  ss_init :: fptr
  ss_enter :: fptr
  ss_run :: fptr
  ss_exit :: fptr
  ss_next :: addr
  ss_initialized :: "1 word"

text \<open>
  The global \<open>sm\<close>. Its member \<open>head\<close> lives in the store of nodes, at the fixed address
  \<open>sm_head\<close>.
\<close>

record state_machine =
  sm_nodes :: "addr \<rightharpoonup> system_state"
  sm_state_count :: "32 word"
  sm_current :: addr
  sm_next :: addr
  sm_initialized :: "1 word"

definition sm_head :: addr where
  "sm_head = 1"

text \<open>What \<open>calloc(1, sizeof(system_state_t))\<close> and the static initialiser \<open>{ 0 }\<close> give.\<close>

definition zero_state :: system_state where
  "zero_state = \<lparr>ss_ID = 0, ss_data = NULL, ss_init = None, ss_enter = None, ss_run = None,
     ss_exit = None, ss_next = NULL, ss_initialized = 0\<rparr>"

definition sm_zero :: state_machine where
  "sm_zero = \<lparr>sm_nodes = [sm_head \<mapsto> zero_state], sm_state_count = 0, sm_current = NULL,
     sm_next = NULL, sm_initialized = 0\<rparr>"

text \<open>A call through a callback pointer, with the data pointer it gets.\<close>

datatype sm_call = Call nat addr

definition call_if :: "fptr \<Rightarrow> addr \<Rightarrow> sm_call list" where
  "call_if f d = (case f of None \<Rightarrow> [] | Some g \<Rightarrow> [Call g d])"

section \<open>Operations\<close>

text \<open>
  \<open>addState\<close>; \<open>a\<close> is what \<open>calloc\<close> returns. The result is not checked, so NULL is followed
  by the first write through it. The last statement writes the ID into \<open>iterator\<close>, the node
  before the new one.
\<close>

definition addState ::
    "addr \<Rightarrow> fptr \<Rightarrow> fptr \<Rightarrow> fptr \<Rightarrow> fptr \<Rightarrow> addr \<Rightarrow> state_machine \<Rightarrow>
     (32 word \<times> state_machine) crun" where
  "addState a init enter run exit data s =
     lbind (last_node ss_next (sm_nodes s) sm_head) (\<lambda>iterator.
       let H0 = (if a = NULL then sm_nodes s else (sm_nodes s)(a \<mapsto> zero_state)) in
       Some (cbind (update_at H0 iterator (ss_next_update (\<lambda>_. a))) (\<lambda>H1.
         cbind (update_at H1 a (\<lambda>n. n\<lparr>ss_init := init, ss_enter := enter, ss_run := run,
                                       ss_exit := exit, ss_data := data\<rparr>)) (\<lambda>H2.
           let c = sm_state_count s + 1 in
           cbind (update_at H2 iterator (ss_ID_update (\<lambda>_. c))) (\<lambda>H3.
             Inr (c, s\<lparr>sm_nodes := H3, sm_state_count := c\<rparr>))))))"

definition findState :: "32 word \<Rightarrow> state_machine \<Rightarrow> addr crun" where
  "findState ID s =
     lbind (find_prev ss_next ss_ID (sm_nodes s) ID sm_head) (\<lambda>iterator.
       Some (cbind (deref (sm_nodes s) iterator) (\<lambda>n. Inr (ss_next n))))"

definition deleteState :: "32 word \<Rightarrow> state_machine \<Rightarrow> state_machine crun" where
  "deleteState ID s =
     lbind (find_prev ss_next ss_ID (sm_nodes s) ID sm_head) (\<lambda>iterator.
       Some (cbind (deref (sm_nodes s) iterator) (\<lambda>n.
         if ss_next n = NULL then Inr s
         else cbind (deref (sm_nodes s) (ss_next n)) (\<lambda>d.
           if ss_ID d = 0 then Inr s
           else let delete = ss_next n in
             cbind (if ss_next d = NULL
                    then update_at (sm_nodes s) iterator (ss_next_update (\<lambda>_. NULL))
                    else update_at (sm_nodes s) iterator (ss_next_update (\<lambda>_. ss_next d)))
               (\<lambda>H1. Inr (s\<lparr>sm_nodes := H1(delete := None)\<rparr>))))))"

text \<open>The loop of \<open>smInit\<close>: it visits every node that has a successor.\<close>

partial_function (option) init_calls ::
    "(addr \<rightharpoonup> system_state) \<Rightarrow> addr \<Rightarrow> sm_call list \<Rightarrow> sm_call list crun" where
  "init_calls H iterator acc =
     (case deref H iterator of
        Inl e \<Rightarrow> Some (Inl e)
      | Inr n \<Rightarrow> if ss_next n = NULL then Some (Inr acc)
                 else init_calls H (ss_next n) (acc @ call_if (ss_init n) (ss_data n)))"

text \<open>
  \<open>smInit\<close>; \<open>queue_ok\<close> says whether \<open>xQueueCreate\<close> returned a queue. The result is the return
  value and the init callbacks that were called.
\<close>

definition smInit :: "bool \<Rightarrow> state_machine \<Rightarrow> (byte \<times> sm_call list) crun" where
  "smInit queue_ok s =
     (if \<not> queue_ok then Some (Inl (Exit_status 1))
      else lbind (init_calls (sm_nodes s) sm_head []) (\<lambda>calls. Some (Inr (0, calls))))"

text \<open>
  The start of \<open>statesHandlerTask\<close>. The condition \<open>!smInit\<close> negates the function's address,
  it does not call it: it is always false, so the right operand of \<open>&&\<close> with its assignments
  is never evaluated.
\<close>

definition smInit_address :: addr where
  "smInit_address = 4096"

definition task_start :: "state_machine \<Rightarrow> state_machine cres" where
  "task_start s =
     (let s1 = s\<lparr>sm_initialized := sm_initialized s + 1\<rparr> in
      if sm_initialized s = 0
      then if smInit_address = NULL
           then cbind (deref (sm_nodes s) sm_head) (\<lambda>n.
                  if ss_next n = NULL then Inl (Exit_status 1)
                  else Inr (s1\<lparr>sm_next := ss_next n, sm_current := ss_next n\<rparr>))
           else Inr s1
      else Inr s1)"

text \<open>
  An item of the queue, its first byte and the others. \<open>xQueueReceive\<close> copies the whole item to \<open>state_in\<close>, an
  object of one byte. \<open>smInit\<close> creates \<open>state_queue\<close> with items of \<open>sizeof(unsigned int)\<close>, four bytes; the handler
  receives from \<open>sm_queue\<close>, which the repository does not declare, so that its items may have any size.
\<close>

type_synonym queue_item = "byte \<times> byte list"

definition receive_item :: "queue_item \<Rightarrow> byte cres" where
  "receive_item item = cbind (mem_write [0] 0 (fst item # snd item)) (\<lambda>cell. Inr (hd cell))"

text \<open>
  One pass of the handler's loop. \<open>msg\<close> is the item \<open>xQueueReceive\<close> delivered, \<open>None\<close> when
  the queue was empty.
\<close>

definition switch_state :: "state_machine \<Rightarrow> (sm_call list \<times> state_machine) cres" where
  "switch_state s =
     (if sm_current s \<noteq> sm_next s
      then cbind (deref (sm_nodes s) (sm_current s)) (\<lambda>c.
           cbind (deref (sm_nodes s) (sm_next s)) (\<lambda>n.
             Inr (call_if (ss_exit c) (ss_data c) @ call_if (ss_enter n) (ss_data n),
                  s\<lparr>sm_current := sm_next s\<rparr>)))
      else Inr ([], s))"

definition task_step ::
    "queue_item option \<Rightarrow> state_machine \<Rightarrow> (sm_call list \<times> state_machine) crun" where
  "task_step msg s =
     lbind (case msg of
              None \<Rightarrow> Some (Inr s)
            | Some item \<Rightarrow> lbind (Some (receive_item item)) (\<lambda>state_in.
                lbind (findState (ucast state_in) s) (\<lambda>p. Some (Inr (s\<lparr>sm_next := p\<rparr>)))))
       (\<lambda>s1. Some (cbind (switch_state s1) (\<lambda>(calls, s2).
          cbind (deref (sm_nodes s2) (sm_current s2)) (\<lambda>c.
            Inr (calls @ call_if (ss_run c) (ss_data c), s2)))))"

text \<open>
  \<open>statesHandlerTask\<close>: the start and then one pass for each entry of \<open>msgs\<close>, what the queue
  delivers in the first passes of the endless loop.
\<close>

fun task_loop ::
    "queue_item option list \<Rightarrow> sm_call list \<times> state_machine \<Rightarrow> (sm_call list \<times> state_machine) crun"
where
  "task_loop [] (calls, s) = Some (Inr (calls, s))"
| "task_loop (m # ms) (calls, s) =
     lbind (task_step m s) (\<lambda>(calls', s'). task_loop ms (calls @ calls', s'))"

definition statesHandlerTask ::
    "queue_item option list \<Rightarrow> state_machine \<Rightarrow> (sm_call list \<times> state_machine) crun" where
  "statesHandlerTask msgs s = lbind (Some (task_start s)) (\<lambda>s1. task_loop msgs ([], s1))"

section \<open>Well-formed machines\<close>

text \<open>
  \<open>sm_list s as\<close>: the registered states are the nodes at \<open>as\<close>, in order.
  \<open>sm_fresh s as\<close>: in addition no state was ever deleted, so the count is the number of
  states and the IDs are the ones \<open>addState\<close> wrote: 1 in the head, \<open>i + 1\<close> in the \<open>i\<close>-th
  state, 0 in the last.
\<close>

definition sm_list :: "state_machine \<Rightarrow> addr list \<Rightarrow> bool" where
  "sm_list s as \<longleftrightarrow> chain ss_next (sm_nodes s) sm_head (sm_head # as)"

definition sm_fresh :: "state_machine \<Rightarrow> addr list \<Rightarrow> bool" where
  "sm_fresh s as \<longleftrightarrow> sm_list s as \<and> sm_state_count s = of_nat (length as) \<and>
     length as < 2 ^ 32 - 1 \<and>
     (\<forall>i<length as. ss_ID (the (sm_nodes s ((sm_head # as) ! i))) = of_nat (i + 1)) \<and>
     ss_ID (the (sm_nodes s (last (sm_head # as)))) = 0"

interpretation ss: linked_node ss_next "\<lambda>a. ss_next_update (\<lambda>_. a)"
  by unfold_locales simp

section \<open>Registration and lookup\<close>

lemma word32_of_nat_eq:
  "i < 2 ^ 32 \<Longrightarrow> j < 2 ^ 32 \<Longrightarrow> (of_nat i :: 32 word) = of_nat j \<longleftrightarrow> i = j"
  by (auto dest!: arg_cong [of _ _ unat] simp: unat_of_nat)

lemma sm_list_last:
  assumes "sm_list s as"
  obtains n where "sm_nodes s (last (sm_head # as)) = Some n" and "ss_next n = NULL"
    and "last (sm_head # as) \<noteq> NULL" and "last (sm_head # as) \<in> set (sm_head # as)"
  using assms unfolding sm_list_def by (rule chain_last)

text \<open>What \<open>addState\<close> does, with the ID going into the node before the new one.\<close>

lemma addState_eq:
  assumes "sm_list s as" and "a \<notin> set (sm_head # as)" and "a \<noteq> NULL"
    and "sm_nodes s (last (sm_head # as)) = Some n"
  shows "addState a init enter run exit data s =
    Some (Inr (sm_state_count s + 1, s\<lparr>
      sm_nodes := (sm_nodes s)(
        a \<mapsto> zero_state\<lparr>ss_init := init, ss_enter := enter, ss_run := run, ss_exit := exit,
                         ss_data := data\<rparr>,
        last (sm_head # as) \<mapsto> n\<lparr>ss_next := a, ss_ID := sm_state_count s + 1\<rparr>),
      sm_state_count := sm_state_count s + 1\<rparr>))"
proof -
  let ?it = "last (sm_head # as)"
  have it: "?it \<noteq> NULL" "?it \<noteq> a" using assms(1,2) by (metis sm_list_last)+
  have "last_node ss_next (sm_nodes s) sm_head = Some (Inr ?it)"
    using assms(1) by (simp only: sm_list_def last_node_chain)
  with it assms(3,4) show ?thesis
    by (simp add: addState_def Let_def fun_upd_twist del: last.simps)
qed

lemma addState_list:
  assumes "sm_list s as" and "a \<notin> set (sm_head # as)" and "a \<noteq> NULL"
    and "addState a init enter run exit data s = Some (Inr (ID, s'))"
  shows "sm_list s' (as @ [a])"
proof -
  obtain n where n: "sm_nodes s (last (sm_head # as)) = Some n"
      "last (sm_head # as) \<in> set (sm_head # as)"
    using assms(1) by (rule sm_list_last)
  have "last (sm_head # as) \<noteq> a" using n(2) assms(2) by metis
  with addState_eq [OF assms(1-3) n(1)] assms have "chain ss_next (sm_nodes s') sm_head (sm_head # as @ [a])"
    by (intro ss.chain_snoc [of "sm_nodes s"])
      (auto simp: sm_list_def zero_state_def simp del: last.simps)
  then show ?thesis by (simp add: sm_list_def)
qed

text \<open>Where a node of the list stands: its position, and the last one.\<close>

lemma nth_ne_last:
  assumes "distinct xs" and "i < length xs - 1"
  shows "xs ! i \<noteq> last xs"
  using assms nth_eq_iff_index_eq [of xs i "length xs - 1"] by (cases "xs = []") (auto simp: last_conv_nth)

lemma sm_list_distinct: "sm_list s as \<Longrightarrow> distinct (sm_head # as)"
  unfolding sm_list_def by (rule chain_distinct)

lemma addState_fresh:
  assumes "sm_fresh s as" and "a \<notin> set (sm_head # as)" and "a \<noteq> NULL"
    and "length as + 2 < 2 ^ 32"
  shows "\<exists>s'. addState a init enter run exit data s = Some (Inr (of_nat (length as + 1), s')) \<and>
    sm_fresh s' (as @ [a]) \<and>
    sm_nodes s' a = Some (zero_state\<lparr>ss_init := init, ss_enter := enter, ss_run := run,
                                     ss_exit := exit, ss_data := data\<rparr>)"
proof -
  let ?xs = "sm_head # as" and ?c = "of_nat (length as + 1) :: 32 word"
  from assms(1) have l: "sm_list s as" and c: "sm_state_count s + 1 = ?c"
    and ids: "\<forall>i<length as. ss_ID (the (sm_nodes s (?xs ! i))) = of_nat (i + 1)"
    by (auto simp: sm_fresh_def)
  obtain n where n: "sm_nodes s (last ?xs) = Some n" "last ?xs \<in> set ?xs"
    using l by (rule sm_list_last)
  define s' where "s' = s\<lparr>sm_nodes := (sm_nodes s)(
      a \<mapsto> zero_state\<lparr>ss_init := init, ss_enter := enter, ss_run := run, ss_exit := exit,
                       ss_data := data\<rparr>,
      last ?xs \<mapsto> n\<lparr>ss_next := a, ss_ID := ?c\<rparr>), sm_state_count := ?c\<rparr>"
  have add: "addState a init enter run exit data s = Some (Inr (?c, s'))"
    using addState_eq [OF l assms(2,3) n(1)] by (simp only: c s'_def)
  have ne: "last ?xs \<noteq> a" using n(2) assms(2) by metis
  have "ss_ID (the (sm_nodes s' ((sm_head # as @ [a]) ! i))) = of_nat (i + 1)"
    if "i < length (as @ [a])" for i
  proof (cases "i = length as")
    case True
    then have "(sm_head # as @ [a]) ! i = last ?xs" by (simp add: last_conv_nth nth_append nth_Cons')
    with ne True show ?thesis by (simp add: s'_def del: last.simps)
  next
    case False
    with that have i: "i < length as" by simp
    then have e: "(sm_head # as @ [a]) ! i = ?xs ! i" using nth_append [of ?xs "[a]" i] by simp
    have "?xs ! i \<noteq> last ?xs" using nth_ne_last [OF sm_list_distinct [OF l], of i] i by simp
    moreover have "?xs ! i \<noteq> a" using assms(2) i by (metis less_SucI length_Cons nth_mem)
    ultimately show ?thesis using ids i by (simp add: s'_def e del: last.simps nth_Cons_Suc)
  qed
  moreover have "ss_ID (the (sm_nodes s' a)) = 0" using ne by (simp add: s'_def zero_state_def del: last.simps)
  moreover have "sm_list s' (as @ [a])" by (rule addState_list [OF l assms(2,3) add])
  ultimately have "sm_fresh s' (as @ [a])" using assms(4) by (simp add: sm_fresh_def s'_def)
  with add ne show ?thesis by (auto simp: s'_def simp del: last.simps)
qed

text \<open>Lookup in a machine whose IDs are the ones \<open>addState\<close> wrote.\<close>

lemma findState_hit:
  assumes "sm_list s (us @ b # vs)" and "ss_ID (the (sm_nodes s b)) = k"
    and "\<forall>a\<in>set us. ss_ID (the (sm_nodes s a)) \<noteq> k"
  shows "findState k s = Some (Inr b)"
proof -
  have c: "chain ss_next (sm_nodes s) sm_head (sm_head # us @ b # vs)"
    using assms(1) by (simp add: sm_list_def)
  from chain_next [OF c] obtain n
    where n: "sm_nodes s (last (sm_head # us)) = Some n" "ss_next n = b" by auto
  have "last (sm_head # us) \<noteq> NULL"
    using chain_not_NULL [OF c] last_in_set [of "sm_head # us"] by auto
  with n find_prev_hit [OF c assms(2,3)] show ?thesis
    by (simp add: findState_def del: last.simps)
qed

lemma findState_miss:
  assumes "sm_list s as" and "\<forall>a\<in>set as. ss_ID (the (sm_nodes s a)) \<noteq> k"
  shows "findState k s = Some (Inr NULL)"
proof -
  obtain n where n: "sm_nodes s (last (sm_head # as)) = Some n" "ss_next n = NULL"
      "last (sm_head # as) \<noteq> NULL"
    using assms(1) by (rule sm_list_last)
  have "find_prev ss_next ss_ID (sm_nodes s) k sm_head = Some (Inr (last (sm_head # as)))"
    using assms by (intro find_prev_miss) (simp_all add: sm_list_def)
  with n show ?thesis by (simp add: findState_def del: last.simps)
qed

text \<open>The ID of the \<open>j\<close>-th registered state.\<close>

lemma sm_fresh_ids:
  assumes "sm_fresh s as" and "j < length as"
  shows "ss_ID (the (sm_nodes s (as ! j))) = (if j = length as - 1 then 0 else of_nat (j + 2))"
proof (cases "j = length as - 1")
  case True
  with assms have "as ! j = last (sm_head # as)" by (auto simp: last_conv_nth)
  with assms(1) True show ?thesis by (simp only: sm_fresh_def) simp
next
  case False
  with assms have "Suc j < length as" by simp
  with assms(1) have "ss_ID (the (sm_nodes s ((sm_head # as) ! Suc j))) = of_nat (Suc j + 1)"
    unfolding sm_fresh_def by blast
  with False show ?thesis by simp
qed

lemma findState_shifted:
  assumes "sm_fresh s as" and "2 \<le> k" and "k \<le> length as"
  shows "findState (of_nat k) s = Some (Inr (as ! (k - 2)))"
proof -
  have split: "as = take (k - 2) as @ as ! (k - 2) # drop (k - 1) as"
    using assms(2,3) id_take_nth_drop [of "k - 2" as] by (simp add: Suc_diff_Suc numeral_2_eq_2)
  have bound: "length as < 2 ^ 32 - 1" using assms(1) by (simp add: sm_fresh_def)
  have hit: "ss_ID (the (sm_nodes s (as ! (k - 2)))) = of_nat k"
    using sm_fresh_ids [OF assms(1), of "k - 2"] assms(2,3) by auto
  have "ss_ID (the (sm_nodes s a)) \<noteq> of_nat k" if "a \<in> set (take (k - 2) as)" for a
  proof -
    from that obtain j where j: "j < k - 2" "a = as ! j"
      using assms(3) by (auto simp: in_set_conv_nth)
    with sm_fresh_ids [OF assms(1), of j] assms(2,3)
    have "ss_ID (the (sm_nodes s a)) = of_nat (j + 2)" by auto
    with word32_of_nat_eq [of "j + 2" k] j assms(3) bound show ?thesis by simp
  qed
  with findState_hit [of s "take (k - 2) as" "as ! (k - 2)" "drop (k - 1) as"] hit split assms(1)
  show ?thesis by (auto simp: sm_fresh_def)
qed

lemma findState_first_lost:
  assumes "sm_fresh s as"
  shows "findState 1 s = Some (Inr NULL)"
proof (rule findState_miss)
  have bound: "length as < 2 ^ 32 - 1" using assms by (simp add: sm_fresh_def)
  show "\<forall>a\<in>set as. ss_ID (the (sm_nodes s a)) \<noteq> 1"
  proof
    fix a assume "a \<in> set as"
    then obtain j where j: "j < length as" "a = as ! j" by (auto simp: in_set_conv_nth)
    with sm_fresh_ids [OF assms j(1)] word32_of_nat_eq [of "j + 2" 1] bound
    show "ss_ID (the (sm_nodes s a)) \<noteq> 1" by auto
  qed
qed (use assms in \<open>simp add: sm_fresh_def\<close>)

text \<open>Lookup always ends, with NULL or a registered state.\<close>

lemma findState_total:
  assumes "sm_list s as"
  shows "\<exists>p. findState k s = Some (Inr p) \<and> (p = NULL \<or> p \<in> set as)"
  using find_prev_total [of ss_next "sm_nodes s" sm_head as ss_ID k] assms
  by (auto simp: sm_list_def findState_def)

section \<open>Deletion\<close>

lemma deleteState_hit:
  assumes "sm_list s (us @ b # vs)" and "ss_ID (the (sm_nodes s b)) = k" and "k \<noteq> 0"
    and "\<forall>a\<in>set us. ss_ID (the (sm_nodes s a)) \<noteq> k"
  shows "\<exists>s'. deleteState k s = Some (Inr s') \<and> sm_list s' (us @ vs) \<and> sm_nodes s' b = None \<and>
    sm_state_count s' = sm_state_count s \<and> sm_current s' = sm_current s"
proof -
  let ?it = "last (sm_head # us)"
  have c: "chain ss_next (sm_nodes s) sm_head (sm_head # us @ b # vs)"
    using assms(1) by (simp add: sm_list_def)
  from chain_next [OF c] obtain n where n: "sm_nodes s ?it = Some n" "ss_next n = b" by auto
  have nz: "?it \<noteq> NULL" "b \<noteq> NULL"
    using chain_not_NULL [OF c] last_in_set [of "sm_head # us"] by auto
  from chain_dom [OF c, of b] obtain d where d: "sm_nodes s b = Some d" by auto
  have "deleteState k s =
      Some (Inr (s\<lparr>sm_nodes := (sm_nodes s)(?it \<mapsto> n\<lparr>ss_next := ss_next d\<rparr>, b := None)\<rparr>))"
    using find_prev_hit [OF c assms(2,4)] n nz d assms(2,3)
    by (simp add: deleteState_def del: last.simps)
  moreover have "chain ss_next ((sm_nodes s)(?it \<mapsto> n\<lparr>ss_next := ss_next d\<rparr>, b := None))
      sm_head (sm_head # us @ vs)"
    by (rule ss.chain_unlink [OF c n(1) d])
  ultimately show ?thesis by (auto simp: sm_list_def simp del: last.simps)
qed

section \<open>Initialisation\<close>

definition init_call :: "system_state \<Rightarrow> sm_call list" where
  "init_call n = call_if (ss_init n) (ss_data n)"

lemma init_calls_chain:
  assumes "chain ss_next H p (p # as @ [a])"
  shows "init_calls H p acc = Some (Inr (acc @ concat (map init_call (nodes_at H (p # as)))))"
  using assms
proof (induction as arbitrary: p acc)
  case Nil
  then obtain n m where "p \<noteq> NULL" "H p = Some n" "ss_next n = a" "a \<noteq> NULL" "H a = Some m"
      "ss_next m = NULL"
    by (auto simp: chain_Cons)
  then show ?case
    by (subst init_calls.simps, simp, subst init_calls.simps) (simp add: nodes_at_def init_call_def)
next
  case (Cons b as)
  then obtain n where n: "p \<noteq> NULL" "H p = Some n" "ss_next n = b" "b \<noteq> NULL"
    and c: "chain ss_next H b (b # as @ [a])"
    by (auto simp: chain_Cons)
  from Cons.IH [OF c] n show ?case
    by (subst init_calls.simps) (simp add: nodes_at_def init_call_def comp_def)
qed

section \<open>The handler\<close>

lemma task_start_eq:
  "task_start s = Inr (s\<lparr>sm_initialized := sm_initialized s + 1\<rparr>)"
  by (simp add: task_start_def smInit_address_def Let_def)

lemma findState_initialized:
  "findState k (s\<lparr>sm_initialized := v\<rparr>) = findState k s"
  by (simp add: findState_def)

text \<open>An item of one byte is received; a longer one is written beyond \<open>state_in\<close>.\<close>

lemma receive_item_eq [simp]: "receive_item (b, bs) = (if bs = [] then Inr b else Inl Out_of_bounds)"
  by (simp add: receive_item_def mem_write_def)

abbreviation one_byte :: "byte \<Rightarrow> queue_item" where
  "one_byte b \<equiv> (b, [])"

lemma task_step_overflow: "bs \<noteq> [] \<Longrightarrow> task_step (Some (b, bs)) s = Some (Inl Out_of_bounds)"
  by (simp add: task_step_def)

text \<open>With no current state every pass of the loop faults.\<close>

lemma task_step_no_current:
  assumes "sm_list s as" and "sm_current s = NULL" and "sm_next s = NULL"
  shows "task_step m s = Some (Inl (case m of Some (_, _ # _) \<Rightarrow> Out_of_bounds | _ \<Rightarrow> Null_deref))"
proof (cases m)
  case None
  with assms show ?thesis by (simp add: task_step_def switch_state_def)
next
  case (Some item)
  obtain b bs where item: "item = (b, bs)" by (cases item)
  from findState_total [OF assms(1)] obtain p where "findState (ucast b) s = Some (Inr p)" by blast
  with Some item assms show ?thesis by (cases bs) (simp_all add: task_step_def switch_state_def)
qed

section \<open>The handler as a protocol\<close>

text \<open>
  What the callbacks may rely on, stated over the states themselves. A run of the machine is a
  sequence of events; \<open>protocol p es\<close> says that with \<open>p\<close> as the current state \<open>es\<close> is one in which
  only the current state runs, and a state is entered exactly when the state before it is left.
\<close>

datatype sm_event = Exit_of addr | Enter_of addr | Run_of addr

fun protocol :: "addr \<Rightarrow> sm_event list \<Rightarrow> bool" where
  "protocol p [] = True"
| "protocol p (Run_of r # es) = (r = p \<and> protocol p es)"
| "protocol p (Exit_of r # Enter_of q # es) = (r = p \<and> q \<noteq> p \<and> protocol q es)"
| "protocol p es = False"

text \<open>The calls an event stands for: none when the state has no such callback.\<close>

fun event_calls :: "state_machine \<Rightarrow> sm_event \<Rightarrow> sm_call list" where
  "event_calls s (Exit_of p) = (let n = the (sm_nodes s p) in call_if (ss_exit n) (ss_data n))"
| "event_calls s (Enter_of p) = (let n = the (sm_nodes s p) in call_if (ss_enter n) (ss_data n))"
| "event_calls s (Run_of p) = (let n = the (sm_nodes s p) in call_if (ss_run n) (ss_data n))"

text \<open>The state a pass ends in, NULL when the received ID names none, and the events of the passes.\<close>

definition visited :: "state_machine \<Rightarrow> addr \<Rightarrow> byte option \<Rightarrow> addr" where
  "visited s p m = (case m of
       None \<Rightarrow> p
     | Some b \<Rightarrow> (case findState (ucast b) s of Some (Inr q) \<Rightarrow> q | _ \<Rightarrow> NULL))"

fun loop_events :: "state_machine \<Rightarrow> addr \<Rightarrow> byte option list \<Rightarrow> sm_event list" where
  "loop_events s p [] = []"
| "loop_events s p (m # ms) =
     (let q = visited s p m in
      (if q = p then [Run_of p] else [Exit_of p, Enter_of q, Run_of q]) @ loop_events s q ms)"

definition is_run :: "sm_event \<Rightarrow> bool" where
  "is_run e \<longleftrightarrow> (case e of Run_of p \<Rightarrow> True | _ \<Rightarrow> False)"

lemma protocol_loop_events: "protocol p (loop_events s p ms)"
  by (induction ms arbitrary: p) (simp_all add: Let_def)

lemma runs_loop_events: "length (filter is_run (loop_events s p ms)) = length ms"
  by (induction ms arbitrary: p) (simp_all add: Let_def is_run_def)

lemma findState_position [simp]: "findState k (s\<lparr>sm_next := p, sm_current := q\<rparr>) = findState k s"
  by (simp add: findState_def)

lemma visited_position [simp]: "visited (s\<lparr>sm_next := p, sm_current := q\<rparr>) = visited s"
  by (simp add: visited_def fun_eq_iff split: option.split)

lemma event_calls_position [simp]: "event_calls (s\<lparr>sm_next := p, sm_current := q\<rparr>) = event_calls s"
proof
  show "event_calls (s\<lparr>sm_next := p, sm_current := q\<rparr>) e = event_calls s e" for e by (cases e) simp_all
qed

lemma loop_events_position [simp]: "loop_events (s\<lparr>sm_next := p, sm_current := q\<rparr>) r ms = loop_events s r ms"
  by (induction ms arbitrary: r) simp_all

text \<open>
  One pass of the handler on a received ID that names a registered state: it makes the
  exit call of the current state and the enter call of the new one, in that order and only
  when they differ, then the run call of the new state, which becomes current. An ID that
  names no state makes the pass dereference NULL.
\<close>

lemma task_step_switches:
  assumes "sm_list s as" and "sm_current s \<noteq> NULL" and "sm_nodes s (sm_current s) = Some c"
  shows "\<exists>p. findState (ucast m) s = Some (Inr p) \<and>
    task_step (Some (one_byte m)) s =
      (if p = NULL then Some (Inl Null_deref)
       else let n = the (sm_nodes s p) in
         Some (Inr ((if p = sm_current s then []
                     else call_if (ss_exit c) (ss_data c) @ call_if (ss_enter n) (ss_data n)) @
                    call_if (ss_run n) (ss_data n),
                    s\<lparr>sm_next := p, sm_current := p\<rparr>)))"
proof -
  from findState_total [OF assms(1)] obtain p
    where p: "findState (ucast m) s = Some (Inr p)" "p = NULL \<or> p \<in> set as" by blast
  show ?thesis
  proof (cases "p = NULL")
    case True
    with p assms show ?thesis by (simp add: task_step_def switch_state_def)
  next
    case False
    with p(2) chain_dom [of ss_next "sm_nodes s" sm_head "sm_head # as" p] assms(1)
    obtain n where "sm_nodes s p = Some n" by (auto simp: sm_list_def)
    with False p assms show ?thesis
      by (cases "p = sm_current s") (simp_all add: task_step_def switch_state_def Let_def)
  qed
qed

text \<open>A pass in which the queue is empty runs the current state.\<close>

lemma task_step_idle:
  assumes "sm_current s \<noteq> NULL" and "sm_next s = sm_current s" and "sm_nodes s (sm_current s) = Some c"
  shows "task_step None s = Some (Inr (call_if (ss_run c) (ss_data c), s))"
  using assms by (simp add: task_step_def switch_state_def)

lemma task_step_events:
  fixes m :: "byte option"
  assumes "sm_list s as" and "sm_current s \<in> set as" and "sm_next s = sm_current s"
  defines "q \<equiv> visited s (sm_current s) m"
  shows "task_step (map_option one_byte m) s =
      (if q = NULL then Some (Inl Null_deref)
       else Some (Inr (concat (map (event_calls s) (loop_events s (sm_current s) [m])),
         s\<lparr>sm_next := q, sm_current := q\<rparr>)))"
    and "q = NULL \<or> q \<in> set as"
proof -
  have ch: "chain ss_next (sm_nodes s) sm_head (sm_head # as)" using assms(1) by (simp add: sm_list_def)
  have c0: "sm_current s \<noteq> NULL" using chain_not_NULL [OF ch] assms(2) by auto
  from chain_dom [OF ch, of "sm_current s"] assms(2) obtain c where c: "sm_nodes s (sm_current s) = Some c" by auto
  show "q = NULL \<or> q \<in> set as"
  proof (cases m)
    case (Some b)
    from findState_total [OF assms(1), of "ucast b"] show ?thesis using Some by (auto simp: q_def visited_def)
  qed (use assms(2) in \<open>simp add: q_def visited_def\<close>)
  show "task_step (map_option one_byte m) s = (if q = NULL then Some (Inl Null_deref)
       else Some (Inr (concat (map (event_calls s) (loop_events s (sm_current s) [m])),
         s\<lparr>sm_next := q, sm_current := q\<rparr>)))"
  proof (cases m)
    case None
    have "s\<lparr>sm_next := sm_current s, sm_current := sm_current s\<rparr> = s" using assms(3) by simp
    with None task_step_idle [OF c0 assms(3) c] c c0 show ?thesis by (simp add: q_def visited_def)
  next
    case (Some b)
    from task_step_switches [OF assms(1) c0 c, of b] obtain p where p: "findState (ucast b) s = Some (Inr p)"
      "task_step (Some (one_byte b)) s = (if p = NULL then Some (Inl Null_deref)
       else let n = the (sm_nodes s p) in
         Some (Inr ((if p = sm_current s then []
                     else call_if (ss_exit c) (ss_data c) @ call_if (ss_enter n) (ss_data n)) @
                    call_if (ss_run n) (ss_data n),
                    s\<lparr>sm_next := p, sm_current := p\<rparr>)))" by blast
    then have "visited s (sm_current s) (Some b) = p" by (simp add: visited_def)
    with Some p c show ?thesis by (simp add: q_def Let_def)
  qed
qed

lemma task_loop_events:
  assumes "sm_list s as" and "sm_current s \<in> set as" and "sm_next s = sm_current s"
  shows "task_loop (map (map_option one_byte) ms @ rest) (calls, s) =
    (if \<exists>b. Some b \<in> set ms \<and> findState (ucast b) s = Some (Inr NULL) then Some (Inl Null_deref)
     else let es = loop_events s (sm_current s) ms; q = foldl (visited s) (sm_current s) ms in
       task_loop rest (calls @ concat (map (event_calls s) es), s\<lparr>sm_next := q, sm_current := q\<rparr>))"
  using assms
proof (induction ms arbitrary: s calls)
  case Nil
  then have "s\<lparr>sm_next := sm_current s, sm_current := sm_current s\<rparr> = s" by simp
  then show ?case by simp
next
  case (Cons m ms)
  let ?q = "visited s (sm_current s) m"
  let ?s = "s\<lparr>sm_next := ?q, sm_current := ?q\<rparr>"
  note st = task_step_events [OF Cons.prems, of m]
  have cur: "sm_current s \<noteq> NULL"
    using chain_not_NULL [of ss_next "sm_nodes s" sm_head "sm_head # as"] Cons.prems(1,2) by (auto simp: sm_list_def)
  have bad: "?q = NULL \<longleftrightarrow> (\<exists>b. m = Some b \<and> findState (ucast b) s = Some (Inr NULL))"
    using cur findState_total [OF Cons.prems(1)] by (cases m) (fastforce simp: visited_def)+
  show ?case
  proof (cases "?q = NULL")
    case True
    then have "\<exists>b. Some b \<in> set (m # ms) \<and> findState (ucast b) s = Some (Inr NULL)" using bad by auto
    with True st(1) show ?thesis by (simp)
  next
    case False
    then have rest: "(\<exists>b. Some b \<in> set (m # ms) \<and> findState (ucast b) s = Some (Inr NULL)) \<longleftrightarrow>
        (\<exists>b. Some b \<in> set ms \<and> findState (ucast b) s = Some (Inr NULL))" using bad by auto
    have "sm_list ?s as" using Cons.prems(1) by (simp add: sm_list_def)
    from Cons.IH [OF this, of "calls @ concat (map (event_calls s) (loop_events s (sm_current s) [m]))"] st False
    show ?thesis unfolding rest
      by (auto simp: Let_def)
  qed
qed

section \<open>A concrete machine\<close>

text \<open>Two registered states at 2 and 3; IDs as \<open>addState\<close> leaves them.\<close>

definition sm_demo :: state_machine where
  "sm_demo = \<lparr>sm_nodes =
      [sm_head \<mapsto> zero_state\<lparr>ss_ID := 1, ss_next := 2\<rparr>,
       2 \<mapsto> zero_state\<lparr>ss_ID := 2, ss_next := 3, ss_init := Some 10, ss_enter := Some 11,
                      ss_run := Some 12, ss_exit := Some 13, ss_data := 100\<rparr>,
       3 \<mapsto> zero_state\<lparr>ss_init := Some 20, ss_enter := Some 21, ss_run := Some 22,
                      ss_exit := Some 23, ss_data := 200\<rparr>],
     sm_state_count = 2, sm_current = 2, sm_next = 2, sm_initialized = 1\<rparr>"

lemma sm_demo_list: "sm_list sm_demo [2, 3]"
  by (simp add: sm_list_def sm_demo_def sm_head_def zero_state_def chain_Cons)

lemma sm_demo_fresh: "sm_fresh sm_demo [2, 3]"
  using sm_demo_list
  by (simp add: sm_fresh_def sm_demo_def sm_head_def zero_state_def less_Suc_eq)

section \<open>Properties\<close>

text \<open>
  Registration: as long as no state was deleted, \<open>addState\<close> with a fresh node succeeds,
  returns the number of registered states as the new ID, appends the node with its callbacks
  and data, and keeps the machine in the shape described by \<open>sm_fresh\<close>, in which the ID just
  returned is stored in the node before the new one.
\<close>

theorem addState_registers:
  assumes "sm_fresh s as" and "a \<notin> set (sm_head # as)" and "a \<noteq> NULL"
    and "length as + 2 < 2 ^ 32"
  shows "\<exists>s'. addState a init enter run exit data s = Some (Inr (of_nat (length as + 1), s')) \<and>
    sm_fresh s' (as @ [a]) \<and>
    sm_nodes s' a = Some (zero_state\<lparr>ss_init := init, ss_enter := enter, ss_run := run,
                                     ss_exit := exit, ss_data := data\<rparr>)"
  by (rule addState_fresh [OF assms])

theorem addState_registers_witness:
  "\<exists>s'. addState 4 None (Some 5) None None 300 sm_demo = Some (Inr (3, s')) \<and>
    sm_fresh s' [2, 3, 4] \<and> sm_nodes s' 4 = Some (zero_state\<lparr>ss_enter := Some 5, ss_data := 300\<rparr>)"
  using addState_registers [OF sm_demo_fresh, of 4 None "Some 5" None None 300]
  by (simp add: sm_head_def zero_state_def)

text \<open>
  Lookup is off by one: in a machine built by \<open>addState\<close> alone, the ID returned for the
  \<open>k\<close>-th state finds the state registered before it, and the ID of the first state finds
  nothing.
\<close>

theorem findState_off_by_one:
  assumes "sm_fresh s as" and "1 \<le> k" and "k \<le> length as"
  shows "findState (of_nat k) s = Some (Inr (if k = 1 then NULL else as ! (k - 2)))"
  using findState_first_lost [OF assms(1)] findState_shifted [OF assms(1), of k] assms(2,3)
  by (cases "k = 1") auto

theorem findState_off_by_one_witness:
  "findState 1 sm_demo = Some (Inr 0) \<and> findState 2 sm_demo = Some (Inr 2)"
  using findState_off_by_one [OF sm_demo_fresh, of 1] findState_off_by_one [OF sm_demo_fresh, of 2]
  by simp

text \<open>
  Deletion: \<open>deleteState\<close> of a nonzero ID unlinks and frees the first state with that ID,
  and leaves the other states in order; the ID count and the current state stay as they are,
  even when the current state is the one that was freed.
\<close>

theorem deleteState_unlinks:
  assumes "sm_list s (us @ b # vs)" and "ss_ID (the (sm_nodes s b)) = k" and "k \<noteq> 0"
    and "\<forall>a\<in>set us. ss_ID (the (sm_nodes s a)) \<noteq> k"
  shows "\<exists>s'. deleteState k s = Some (Inr s') \<and> sm_list s' (us @ vs) \<and> sm_nodes s' b = None \<and>
    sm_state_count s' = sm_state_count s \<and> sm_current s' = sm_current s"
  by (rule deleteState_hit [OF assms])

theorem deleteState_unlinks_witness:
  "\<exists>s'. deleteState 2 sm_demo = Some (Inr s') \<and> sm_list s' [3] \<and> sm_nodes s' 2 = None \<and>
    sm_current s' = 2"
  using deleteState_unlinks [of sm_demo "[]" 2 "[3]" 2] sm_demo_list
  by (auto simp: sm_demo_def sm_head_def zero_state_def)

text \<open>
  \<open>smInit\<close> calls the init callbacks of the head and of every registered state but the
  last one, in list order.
\<close>

theorem smInit_skips_last:
  assumes "sm_list s (as @ [a])"
  shows "smInit True s =
    Some (Inr (0, concat (map init_call (nodes_at (sm_nodes s) (sm_head # as)))))"
  using init_calls_chain [of "sm_nodes s" sm_head as a "[]"] assms
  by (simp add: smInit_def sm_list_def)

theorem smInit_skips_last_witness: "smInit True sm_demo = Some (Inr (0, [Call 10 100]))"
  using smInit_skips_last [of sm_demo "[2]" 3] sm_demo_list
  by (simp add: sm_demo_def nodes_at_def init_call_def call_if_def sm_head_def zero_state_def)

text \<open>
  C14. The handler task, with any states registered. As the program stands it never runs one: \<open>current\<close> and \<open>next\<close> are
  NULL when the task starts and stay so, because the condition that should set them tests the address of \<open>smInit\<close>
  (\<open>sm.c:111\<close>), and the first pass faults, whatever the queue holds: it dereferences NULL, or before that
  writes an item of more than one byte over the end of \<open>state_in\<close>. The rest is about the loop itself, entered with
  a registered state as \<open>current\<close> and \<open>next\<close>, which is what that condition is there to provide. An item
  longer than one byte still stops it (\<open>smInit\<close> creates a queue of four-byte items; the one received from,
  \<open>sm_queue\<close>, is not declared in the repository). While the passes find the queue empty or receive items of one byte,
  that name registered states, it makes exactly the calls of a sequence of events that obeys the protocol:
  only the current state runs, once in every pass, and whenever the current state changes the old one's exit call comes
  directly before the new one's enter call; the state of the last ID is current in the end. The first
  ID that names no state makes the loop dereference NULL.
\<close>

theorem task_loop_protocol:
  assumes "sm_list s as"
  shows "(sm_current s = NULL \<and> sm_next s = NULL \<longrightarrow> statesHandlerTask (m # rest) s =
      Some (Inl (case m of Some (_, _ # _) \<Rightarrow> Out_of_bounds | _ \<Rightarrow> Null_deref))) \<and>
    (sm_current s \<in> set as \<and> sm_next s = sm_current s \<longrightarrow>
      task_loop (map (map_option one_byte) ms @ rest) (calls, s) =
        (if \<exists>b. Some b \<in> set ms \<and> findState (ucast b) s = Some (Inr NULL) then Some (Inl Null_deref)
         else let es = loop_events s (sm_current s) ms; q = foldl (visited s) (sm_current s) ms in
           task_loop rest (calls @ concat (map (event_calls s) es), s\<lparr>sm_next := q, sm_current := q\<rparr>)) \<and>
      protocol (sm_current s) (loop_events s (sm_current s) ms) \<and>
      length (filter is_run (loop_events s (sm_current s) ms)) = length ms) \<and>
    task_loop (Some (b, b' # bs) # rest) (calls, s) = Some (Inl Out_of_bounds)"
proof (intro conjI impI)
  assume "sm_current s = NULL \<and> sm_next s = NULL"
  moreover have "sm_list (s\<lparr>sm_initialized := sm_initialized s + 1\<rparr>) as" using assms by (simp add: sm_list_def)
  ultimately show "statesHandlerTask (m # rest) s =
      Some (Inl (case m of Some (_, _ # _) \<Rightarrow> Out_of_bounds | _ \<Rightarrow> Null_deref))"
    using task_step_no_current [of "s\<lparr>sm_initialized := sm_initialized s + 1\<rparr>" as m]
    by (simp add: statesHandlerTask_def task_start_eq)
qed (use task_loop_events [OF assms] protocol_loop_events runs_loop_events in \<open>simp_all add: task_step_overflow\<close>)

theorem task_loop_protocol_witness:
  "statesHandlerTask [None] (sm_demo\<lparr>sm_current := 0, sm_next := 0\<rparr>) = Some (Inl Null_deref) \<and>
   (\<exists>s'. task_loop [None, Some (0, []), None] ([], sm_demo) =
     Some (Inr ([Call 12 100, Call 13 100, Call 21 200, Call 22 200, Call 22 200], s')) \<and> sm_current s' = 3)"
proof
  have "sm_list (sm_demo\<lparr>sm_current := 0, sm_next := 0\<rparr>) [2, 3]" using sm_demo_list by (simp add: sm_list_def)
  from task_loop_protocol [OF this, of None "[]"]
  show "statesHandlerTask [None] (sm_demo\<lparr>sm_current := 0, sm_next := 0\<rparr>) = Some (Inl Null_deref)" by simp
next
  have "findState 0 sm_demo = Some (Inr 3)"
    using findState_hit [of sm_demo "[2]" 3 "[]" 0] sm_demo_list
    by (simp add: sm_demo_def sm_head_def zero_state_def)
  then have v: "visited sm_demo p (Some 0) = 3" "visited sm_demo p None = p" for p
    by (simp_all add: visited_def)
  have c: "sm_current sm_demo \<in> set [2, 3] \<and> sm_next sm_demo = sm_current sm_demo"
    "\<not> (\<exists>b. Some b \<in> set [None, Some 0, None] \<and> findState (ucast b) sm_demo = Some (Inr NULL))"
    using \<open>findState 0 sm_demo = Some (Inr 3)\<close> by (simp_all add: sm_demo_def)
  from task_loop_protocol [OF sm_demo_list, of _ "[]" "[None, Some 0, None]" "[]"] c
  show "\<exists>s'. task_loop [None, Some (0, []), None] ([], sm_demo) =
     Some (Inr ([Call 12 100, Call 13 100, Call 21 200, Call 22 200, Call 22 200], s')) \<and> sm_current s' = 3"
    by (simp add: Let_def v) (simp add: sm_demo_def zero_state_def call_if_def)
qed

end
