(* ===== verification/Buttons.thy ===== *)
theory Buttons
  imports Sentinel_List
begin

text \<open>
  The button registry of \<open>embedded_button_checker/src/buttons.c\<close>: a list of buttons behind the
  static head \<open>bt.head\<close>, debounced polling of one button, registration, lookup and deletion by
  identifier, and the collection of pressed buttons into a string. The tick counter, the poll
  functions and the semaphore belong to the platform: ticks and poll functions are arguments,
  and the semaphore calls each operation makes are part of its result.
\<close>

section \<open>Data\<close>

record button =
  bt_identifier :: byte
  bt_state :: "1 word"
  bt_previous_press_time :: "32 word"
  bt_poll :: "(int \<Rightarrow> int \<Rightarrow> int) option"
  bt_port_arg :: int
  bt_pin_arg :: int
  bt_next :: addr

record buttons =
  bt_lock :: addr
  bt_nodes :: "addr \<rightharpoonup> button"
  bt_count :: "32 word"

definition bt_head :: addr where
  "bt_head = 1"

definition zero_button :: button where
  "zero_button = \<lparr>bt_identifier = 0, bt_state = 0, bt_previous_press_time = 0, bt_poll = None,
     bt_port_arg = 0, bt_pin_arg = 0, bt_next = NULL\<rparr>"

definition bt_zero :: buttons where
  "bt_zero = \<lparr>bt_lock = NULL, bt_nodes = [bt_head \<mapsto> zero_button], bt_count = 0\<rparr>"

text \<open>The semaphore calls of an operation, with the handle each one gets.\<close>

datatype lock_op = Take addr | Give addr

definition lock_if :: "buttons \<Rightarrow> lock_op \<Rightarrow> lock_op list" where
  "lock_if b l = (if bt_lock b \<noteq> NULL then [l] else [])"

section \<open>Operations\<close>

text \<open>
  \<open>checkButton\<close> on the button at \<open>p\<close>: the return value (\<open>signed char\<close>) and the new store.
  \<open>DEBOUNCE_DELAY\<close> has no value in the source; it is the argument \<open>delay\<close>.
\<close>

definition checkButton ::
    "32 word \<Rightarrow> 32 word \<Rightarrow> (addr \<rightharpoonup> button) \<Rightarrow> addr \<Rightarrow> (int \<times> (addr \<rightharpoonup> button)) cres" where
  "checkButton tick delay H p = cbind (deref H p) (\<lambda>but.
     if tick - bt_previous_press_time but > delay
     then case bt_poll but of
            None \<Rightarrow> Inl Null_call
          | Some poll \<Rightarrow>
              if poll (bt_port_arg but) (bt_pin_arg but) \<noteq> uint (bt_state but)
              then if bt_state but \<noteq> 0
                   then Inr (0, H(p \<mapsto> but\<lparr>bt_state := 0\<rparr>))
                   else Inr (1, H(p \<mapsto> but\<lparr>bt_state := 1\<rparr>))
              else Inr (- 1, H)
     else Inr (- 1, H))"

definition buttonFind :: "byte \<Rightarrow> buttons \<Rightarrow> (lock_op list \<times> addr) crun" where
  "buttonFind identifier b =
     lbind (find_prev bt_next bt_identifier (bt_nodes b) identifier bt_head) (\<lambda>iterator.
       Some (cbind (deref (bt_nodes b) iterator) (\<lambda>n.
         Inr ([Take (bt_lock b), Give (bt_lock b)], bt_next n))))"

text \<open>
  \<open>buttonAdd\<close>; \<open>a\<close> is what \<open>calloc\<close> returns. The four configuration fields are written to
  \<open>iterator\<close>, the node before the new one.
\<close>

definition buttonAdd ::
    "addr \<Rightarrow> byte \<Rightarrow> (int \<Rightarrow> int \<Rightarrow> int) option \<Rightarrow> int \<Rightarrow> int \<Rightarrow> buttons \<Rightarrow>
     (lock_op list \<times> buttons) crun" where
  "buttonAdd a identifier poll port_arg pin_arg b =
     lbind (last_node bt_next (bt_nodes b) bt_head) (\<lambda>iterator.
       let H0 = (if a = NULL then bt_nodes b else (bt_nodes b)(a \<mapsto> zero_button)) in
       Some (cbind (update_at H0 iterator (bt_next_update (\<lambda>_. a))) (\<lambda>H1.
         if a = NULL then Inl (Exit_status 1)
         else cbind (update_at H1 iterator (\<lambda>n. n\<lparr>bt_poll := poll, bt_port_arg := port_arg,
                       bt_pin_arg := pin_arg, bt_identifier := identifier\<rparr>)) (\<lambda>H2.
           Inr (lock_if b (Take (bt_lock b)) @ lock_if b (Give (bt_lock b)),
                b\<lparr>bt_nodes := H2, bt_count := bt_count b + 1\<rparr>)))))"

definition buttonDelete :: "byte \<Rightarrow> buttons \<Rightarrow> (lock_op list \<times> buttons) crun" where
  "buttonDelete identifier b =
     lbind (find_prev bt_next bt_identifier (bt_nodes b) identifier bt_head) (\<lambda>iterator.
       let locks = lock_if b (Take (bt_lock b)) @ lock_if b (Give (bt_lock b)) in
       Some (cbind (deref (bt_nodes b) iterator) (\<lambda>n.
         if bt_next n = NULL then Inr (locks, b)
         else cbind (deref (bt_nodes b) (bt_next n)) (\<lambda>d.
           if bt_identifier d \<noteq> identifier then Inr (locks, b)
           else let delete = bt_next n in
             cbind (if bt_next d = NULL
                    then update_at (bt_nodes b) iterator (bt_next_update (\<lambda>_. NULL))
                    else update_at (bt_nodes b) iterator (bt_next_update (\<lambda>_. bt_next d)))
               (\<lambda>H1. Inr (locks, b\<lparr>bt_nodes := H1(delete := None),
                                     bt_count := bt_count b - 1\<rparr>))))))"

text \<open>
  \<open>strncat(ret, src, 1)\<close> where \<open>src\<close> starts with the byte \<open>c\<close>: a NUL byte appends nothing,
  and in every case the terminating NUL is written.
\<close>

fun bytes_strlen :: "byte list \<Rightarrow> nat cres" where
  "bytes_strlen [] = Inl Out_of_bounds"
| "bytes_strlen (c # cs) = (if c = 0 then Inr 0 else cbind (bytes_strlen cs) (\<lambda>n. Inr (Suc n)))"

definition strncat1 :: "byte list \<Rightarrow> byte \<Rightarrow> byte list cres" where
  "strncat1 ret c =
     cbind (bytes_strlen ret) (\<lambda>n. mem_write ret n (if c = 0 then [0] else [c, 0]))"

text \<open>
  The loop of \<open>buttonGetPresses\<close>: it polls the successor of each node and appends the node's
  own identifier when \<open>checkButton\<close> did not return 0.
\<close>

partial_function (option) press_loop ::
    "32 word \<Rightarrow> 32 word \<Rightarrow> (addr \<rightharpoonup> button) \<Rightarrow> addr \<Rightarrow> byte list \<Rightarrow>
     (byte list \<times> (addr \<rightharpoonup> button)) crun" where
  "press_loop tick delay H iterator ret =
     (case deref H iterator of
        Inl e \<Rightarrow> Some (Inl e)
      | Inr n \<Rightarrow>
          if bt_next n = NULL then Some (Inr (ret, H))
          else case checkButton tick delay H (bt_next n) of
                 Inl e \<Rightarrow> Some (Inl e)
               | Inr (r, H') \<Rightarrow>
                   (case strncat1 ret (if r \<noteq> 0 then bt_identifier n else 0) of
                      Inl e \<Rightarrow> Some (Inl e)
                    | Inr ret' \<Rightarrow> press_loop tick delay H' (bt_next n) ret'))"

text \<open>\<open>ok\<close> says whether the \<open>calloc\<close> of the result string succeeds.\<close>

definition buttonGetPresses ::
    "32 word \<Rightarrow> 32 word \<Rightarrow> bool \<Rightarrow> buttons \<Rightarrow> (lock_op list \<times> byte list \<times> buttons) crun" where
  "buttonGetPresses tick delay ok b =
     (if \<not> ok then Some (Inl (Exit_status 1))
      else lbind (press_loop tick delay (bt_nodes b) bt_head (replicate (unat (bt_count b)) 0))
        (\<lambda>(ret, H). Some (Inr ([Take (bt_lock b), Give (bt_lock b)], ret, b\<lparr>bt_nodes := H\<rparr>))))"

text \<open>
  \<open>buttonInit\<close> stores the new semaphore (\<open>sem\<close>, possibly NULL) and creates the task; \<open>pass\<close>
  says whether \<open>xTaskCreate\<close> returned \<open>pdPASS\<close>. \<open>buttonTask\<close> calls it and then loops forever.
\<close>

definition buttonInit :: "addr \<Rightarrow> bool \<Rightarrow> buttons \<Rightarrow> buttons cres" where
  "buttonInit sem pass b = (if pass then Inr (b\<lparr>bt_lock := sem\<rparr>) else Inl (Exit_status 1))"

definition buttonTask :: "addr \<Rightarrow> bool \<Rightarrow> buttons \<Rightarrow> unit crun" where
  "buttonTask sem pass b =
     (case buttonInit sem pass b of Inl e \<Rightarrow> Some (Inl e) | Inr _ \<Rightarrow> None)"

section \<open>Well-formed registries\<close>

definition bt_list :: "buttons \<Rightarrow> addr list \<Rightarrow> bool" where
  "bt_list b as \<longleftrightarrow> chain bt_next (bt_nodes b) bt_head (bt_head # as)"

interpretation bt: linked_node bt_next "\<lambda>a. bt_next_update (\<lambda>_. a)"
  by unfold_locales simp

lemma buttonAdd_eq:
  assumes "bt_list b as" and "a \<notin> set (bt_head # as)" and "a \<noteq> NULL"
    and "bt_nodes b (last (bt_head # as)) = Some n"
  shows "buttonAdd a identifier poll port pin b =
    Some (Inr (lock_if b (Take (bt_lock b)) @ lock_if b (Give (bt_lock b)), b\<lparr>
      bt_nodes := (bt_nodes b)(a \<mapsto> zero_button,
        last (bt_head # as) \<mapsto> n\<lparr>bt_next := a, bt_poll := poll, bt_port_arg := port,
                                 bt_pin_arg := pin, bt_identifier := identifier\<rparr>),
      bt_count := bt_count b + 1\<rparr>))"
proof -
  let ?it = "last (bt_head # as)"
  have c: "chain bt_next (bt_nodes b) bt_head (bt_head # as)"
    using assms(1) by (simp add: bt_list_def)
  have it: "?it \<noteq> NULL" "?it \<noteq> a" using c assms(2) by (metis chain_last)+
  from last_node_chain [OF c] it assms(3,4) show ?thesis
    by (simp add: buttonAdd_def Let_def del: last.simps)
qed

lemma buttonAdd_list:
  assumes "bt_list b as" and "a \<notin> set (bt_head # as)" and "a \<noteq> NULL"
    and "buttonAdd a identifier poll port pin b = Some (Inr (locks, b'))"
  shows "bt_list b' (as @ [a])"
proof -
  have c: "chain bt_next (bt_nodes b) bt_head (bt_head # as)"
    using assms(1) by (simp add: bt_list_def)
  obtain n where n: "bt_nodes b (last (bt_head # as)) = Some n"
      "last (bt_head # as) \<in> set (bt_head # as)"
    using c by (rule chain_last)
  have "last (bt_head # as) \<noteq> a" using n(2) assms(2) by metis
  with c buttonAdd_eq [OF assms(1-3) n(1)] assms
  have "chain bt_next (bt_nodes b') bt_head (bt_head # as @ [a])"
    by (intro bt.chain_snoc [of "bt_nodes b"]) (auto simp: zero_button_def simp del: last.simps)
  then show ?thesis by (simp add: bt_list_def)
qed

text \<open>A search returns NULL or a registered node that has the identifier.\<close>

lemma buttonFind_total:
  assumes "bt_list b as"
  shows "\<exists>p. buttonFind k b = Some (Inr ([Take (bt_lock b), Give (bt_lock b)], p)) \<and>
    (p = NULL \<or> p \<in> set as \<and> bt_identifier (the (bt_nodes b p)) = k)"
  using find_prev_total [of bt_next "bt_nodes b" bt_head as bt_identifier k] assms
  by (auto simp: bt_list_def buttonFind_def)

lemma buttonDelete_hit:
  assumes "bt_list b (us @ d # vs)" and "bt_identifier (the (bt_nodes b d)) = k"
    and "\<forall>a\<in>set us. bt_identifier (the (bt_nodes b a)) \<noteq> k"
  shows "\<exists>locks b'. buttonDelete k b = Some (Inr (locks, b')) \<and> bt_list b' (us @ vs) \<and>
    bt_nodes b' d = None \<and> bt_count b' = bt_count b - 1"
proof -
  let ?it = "last (bt_head # us)"
  have c: "chain bt_next (bt_nodes b) bt_head (bt_head # us @ d # vs)"
    using assms(1) by (simp add: bt_list_def)
  from chain_next [OF c] obtain n where n: "bt_nodes b ?it = Some n" "bt_next n = d" by auto
  have nz: "?it \<noteq> NULL" "d \<noteq> NULL"
    using chain_not_NULL [OF c] last_in_set [of "bt_head # us"] by auto
  from chain_dom [OF c, of d] obtain m where m: "bt_nodes b d = Some m" by auto
  have "chain bt_next ((bt_nodes b)(?it \<mapsto> n\<lparr>bt_next := bt_next m\<rparr>, d := None))
      bt_head (bt_head # us @ vs)"
    by (rule bt.chain_unlink [OF c n(1) m])
  moreover have "\<exists>locks. buttonDelete k b = Some (Inr (locks,
      b\<lparr>bt_nodes := (bt_nodes b)(?it \<mapsto> n\<lparr>bt_next := bt_next m\<rparr>, d := None),
        bt_count := bt_count b - 1\<rparr>))"
    using find_prev_hit [OF c assms(2,3)] n nz m assms(2)
    by (simp add: buttonDelete_def Let_def del: last.simps)
  ultimately show ?thesis by (auto simp: bt_list_def simp del: last.simps)
qed

section \<open>Polling\<close>

text \<open>\<open>checkButton\<close> changes at most the state bit of the button it polls.\<close>

lemma checkButton_frame:
  assumes "checkButton tick delay H p = Inr (r, H')"
  shows "\<exists>n. H p = Some n \<and> (H' = H \<or> (\<exists>v. H' = H(p \<mapsto> n\<lparr>bt_state := v\<rparr>)))"
  using assms by (auto simp: checkButton_def cres_simps split: if_splits option.splits)

lemma press_loop_unconfigured_last:
  assumes "chain bt_next H p (p # as @ [a])" and "H a = Some n" and "bt_poll n = None"
    and "tick - bt_previous_press_time n > delay"
  shows "\<exists>e. press_loop tick delay H p ret = Some (Inl e)"
  using assms
proof (induction as arbitrary: p H ret)
  case Nil
  then obtain m where "p \<noteq> NULL" "H p = Some m" "bt_next m = a" "a \<noteq> NULL"
    by (auto simp: chain_Cons)
  with Nil.prems show ?case by (subst press_loop.simps) (simp add: checkButton_def)
next
  case (Cons b as)
  then obtain m where m: "p \<noteq> NULL" "H p = Some m" "bt_next m = b" "b \<noteq> NULL"
    and c: "chain bt_next H b (b # as @ [a])"
    by (auto simp: chain_Cons)
  show ?case
  proof (cases "checkButton tick delay H b")
    case (Inl e)
    with m show ?thesis by (subst press_loop.simps) simp
  next
    case (Inr rH)
    obtain r H' where rH: "rH = (r, H')" by (cases rH)
    show ?thesis
    proof (cases "strncat1 ret (if r \<noteq> 0 then bt_identifier m else 0)")
      case (Inl e)
      with m Inr rH show ?thesis by (subst press_loop.simps) simp
    next
      case (Inr ret')
      from checkButton_frame [of tick delay H b r H'] \<open>checkButton tick delay H b = Inr rH\<close> rH
      obtain k where k: "H b = Some k" "H' = H \<or> (\<exists>v. H' = H(b \<mapsto> k\<lparr>bt_state := v\<rparr>))" by auto
      have "b \<noteq> a" using chain_distinct [OF c] by simp
      with k Cons.prems(2) have "H' a = Some n" by auto
      moreover have "chain bt_next H' b (b # as @ [a])"
        using k by (intro chain_frame [OF c]) auto
      ultimately obtain e where "press_loop tick delay H' b ret' = Some (Inl e)"
        using Cons.IH [of H' b ret'] Cons.prems(3,4) by blast
      with m Inr \<open>checkButton tick delay H b = Inr rH\<close> rH show ?thesis
        by (subst press_loop.simps) simp
    qed
  qed
qed

section \<open>Any number of registrations\<close>

text \<open>The arguments of a call of \<open>buttonAdd\<close>, and a sequence of calls with the blocks \<open>calloc\<close> gives.\<close>

type_synonym button_config = "byte \<times> (int \<Rightarrow> int \<Rightarrow> int) option \<times> int \<times> int"

fun add_all :: "(addr \<times> button_config) list \<Rightarrow> buttons \<Rightarrow> buttons crun" where
  "add_all [] b = Some (Inr b)"
| "add_all ((a, k, poll, port, pin) # cs) b =
     lbind (buttonAdd a k poll port pin b) (\<lambda>(locks, b'). add_all cs b')"

definition configured :: "button \<Rightarrow> button_config \<Rightarrow> bool" where
  "configured n = (\<lambda>(k, poll, port, pin). bt_identifier n = k \<and> bt_poll n = poll \<and> bt_port_arg n = port \<and>
     bt_pin_arg n = pin \<and> bt_state n = 0 \<and> bt_previous_press_time n = 0)"

text \<open>
  A registry after the registrations \<open>cs\<close>: the head holds the first configuration, each node the
  configuration of the button after it, and the last node is blank.
\<close>

definition shifted :: "button_config list \<Rightarrow> addr list \<Rightarrow> buttons \<Rightarrow> bool" where
  "shifted cs as b \<longleftrightarrow> bt_list b as \<and> length cs = length as \<and> bt_count b = of_nat (length as) \<and>
     (\<forall>i<length as. configured (the (bt_nodes b ((bt_head # as) ! i))) (cs ! i)) \<and>
     bt_nodes b (last (bt_head # as)) = Some zero_button"

lemma shifted_zero: "shifted [] [] bt_zero"
  by (simp add: shifted_def bt_list_def bt_zero_def bt_head_def zero_button_def chain_Cons)

lemma shifted_add:
  assumes "shifted cs as b" and "a \<notin> set (bt_head # as)" and "a \<noteq> NULL"
  shows "\<exists>locks b'. buttonAdd a k poll port pin b = Some (Inr (locks, b')) \<and>
    shifted (cs @ [(k, poll, port, pin)]) (as @ [a]) b'"
proof -
  let ?xs = "bt_head # as"
  have l: "bt_list b as" and len: "length cs = length as" and n: "bt_nodes b (last ?xs) = Some zero_button"
    using assms(1) by (simp_all add: shifted_def)
  have c: "chain bt_next (bt_nodes b) bt_head ?xs" using l by (simp add: bt_list_def)
  have ne: "last ?xs \<noteq> a" using assms(2) last_in_set [of ?xs] by auto
  define b' where "b' = b\<lparr>bt_nodes := (bt_nodes b)(a \<mapsto> zero_button,
      last ?xs \<mapsto> zero_button\<lparr>bt_next := a, bt_poll := poll, bt_port_arg := port, bt_pin_arg := pin,
        bt_identifier := k\<rparr>), bt_count := bt_count b + 1\<rparr>"
  obtain locks where add: "buttonAdd a k poll port pin b = Some (Inr (locks, b'))"
    using buttonAdd_eq [OF l assms(2,3) n] by (simp add: b'_def)
  have l': "bt_list b' (as @ [a])" by (rule buttonAdd_list [OF l assms(2,3) add])
  have "configured (the (bt_nodes b' ((bt_head # as @ [a]) ! i))) ((cs @ [(k, poll, port, pin)]) ! i)"
    if "i < length (as @ [a])" for i
  proof (cases "i = length as")
    case True
    then have "(bt_head # as @ [a]) ! i = last ?xs" by (simp add: last_conv_nth nth_append nth_Cons')
    then show ?thesis using ne True len by (simp add: b'_def configured_def zero_button_def nth_append del: last.simps)
  next
    case False
    with that have i: "i < length as" by simp
    then have e: "(bt_head # as @ [a]) ! i = ?xs ! i" using nth_append [of ?xs "[a]" i] by simp
    have "?xs ! i \<noteq> last ?xs"
      using chain_distinct [OF c] i nth_eq_iff_index_eq [of ?xs i "length as"] by (simp add: last_conv_nth del: last.simps)
    moreover have "?xs ! i \<noteq> a" using assms(2) i by (metis less_SucI length_Cons nth_mem)
    ultimately show ?thesis using assms(1) i len
      by (simp add: b'_def e shifted_def nth_append del: last.simps nth_Cons_Suc)
  qed
  moreover have "bt_nodes b' a = Some zero_button" using ne by (simp add: b'_def del: last.simps)
  moreover have "bt_count b' = of_nat (length (as @ [a]))" using assms(1) by (simp add: b'_def shifted_def)
  ultimately have "shifted (cs @ [(k, poll, port, pin)]) (as @ [a]) b'"
    using l' len by (simp add: shifted_def del: nth_append)
  with add show ?thesis by blast
qed

lemma shifted_add_all:
  assumes "shifted cs as b" and "distinct (bt_head # as @ map fst xs)" and "NULL \<notin> fst ` set xs"
  shows "\<exists>b'. add_all xs b = Some (Inr b') \<and> shifted (cs @ map snd xs) (as @ map fst xs) b'"
  using assms
proof (induction xs arbitrary: cs as b)
  case (Cons x xs)
  obtain a k poll port pin where x: "x = (a, k, poll, port, pin)" by (cases x)
  from Cons.prems x have "a \<notin> set (bt_head # as)" "a \<noteq> NULL" by auto
  from shifted_add [OF Cons.prems(1) this] obtain locks b1 where
    b1: "buttonAdd a k poll port pin b = Some (Inr (locks, b1))"
      "shifted (cs @ [(k, poll, port, pin)]) (as @ [a]) b1" by blast
  from Cons.IH [OF b1(2)] Cons.prems x obtain b' where
    "add_all xs b1 = Some (Inr b')" "shifted ((cs @ [(k, poll, port, pin)]) @ map snd xs) ((as @ [a]) @ map fst xs) b'"
    by auto
  with b1(1) x show ?case by simp
qed simp

section \<open>Polling one button\<close>

text \<open>
  Samples of a button: the tick of each poll and the level its poll function reads then. The second
  function is an edge detector with the state bit \<open>v\<close> and no notion of time.
\<close>

fun sample_button :: "32 word \<Rightarrow> (32 word \<times> int) list \<Rightarrow> (addr \<rightharpoonup> button) \<Rightarrow> addr \<Rightarrow> int list cres" where
  "sample_button delay [] H p = Inr []"
| "sample_button delay ((tick, v) # xs) H p =
     cbind (update_at H p (bt_poll_update (\<lambda>_. Some (\<lambda>_ _. v)))) (\<lambda>H1.
     cbind (checkButton tick delay H1 p) (\<lambda>(r, H2).
     cbind (sample_button delay xs H2 p) (\<lambda>rs. Inr (r # rs))))"

fun edges :: "int \<Rightarrow> int list \<Rightarrow> int list" where
  "edges v [] = []"
| "edges v (w # ws) = (if w = v then - 1 # edges v ws else (1 - v) # edges (1 - v) ws)"

lemma bit_cases: "(v :: 1 word) = 0 \<or> v = 1"
proof -
  have "unat v < 2" using unsigned_less [of v] by simp
  then have "unat v = 0 \<or> unat v = 1" by linarith
  then show ?thesis by (metis unat_eq_zero unat_1 word_unat_eq_iff)
qed

section \<open>Properties\<close>

text \<open>A registry with one button, as one call of \<open>buttonAdd\<close> leaves it.\<close>

definition bt_demo :: buttons where
  "bt_demo = \<lparr>bt_lock = 9, bt_nodes = [
      bt_head \<mapsto> zero_button\<lparr>bt_next := 2, bt_identifier := 65, bt_poll := Some (\<lambda>_ _. 1)\<rparr>,
      2 \<mapsto> zero_button], bt_count = 1\<rparr>"

lemma bt_demo_list: "bt_list bt_demo [2]"
  by (simp add: bt_list_def bt_demo_def bt_head_def zero_button_def chain_Cons)

text \<open>
  C36. The registry after any number of registrations at fresh addresses. Every configuration lands one node too early, in the node
  before the new one, and the last node is blank. So collecting the presses faults as soon as one
  button is registered and the debounce time has passed since the start, and a search for the nonzero
  identifier of the only button finds nothing; with no button it returns an empty string.
\<close>

theorem buttons_registered:
  assumes "distinct (bt_head # map fst xs)" and "NULL \<notin> fst ` set xs"
  shows "\<exists>b. add_all xs bt_zero = Some (Inr b) \<and> shifted (map snd xs) (map fst xs) b \<and>
    (xs = [] \<longrightarrow> buttonGetPresses tick delay True b = Some (Inr ([Take NULL, Give NULL], [], b))) \<and>
    (xs \<noteq> [] \<longrightarrow> tick > delay \<longrightarrow> (\<exists>e. buttonGetPresses tick delay True b = Some (Inl e))) \<and>
    (\<forall>a k c. xs = [(a, k, c)] \<longrightarrow> k \<noteq> 0 \<longrightarrow> (\<exists>locks. buttonFind k b = Some (Inr (locks, NULL))))"
proof -
  from shifted_add_all [OF shifted_zero, of xs] assms obtain b where
    b: "add_all xs bt_zero = Some (Inr b)" "shifted (map snd xs) (map fst xs) b" by auto
  have l: "bt_list b (map fst xs)" and blank: "bt_nodes b (last (bt_head # map fst xs)) = Some zero_button"
    using b(2) by (simp_all add: shifted_def)
  have "buttonGetPresses tick delay True b = Some (Inr ([Take NULL, Give NULL], [], b))" if "xs = []"
    using b(1) that by (auto simp: buttonGetPresses_def bt_zero_def press_loop.simps bt_head_def zero_button_def)
  moreover have "\<exists>e. buttonGetPresses tick delay True b = Some (Inl e)" if "xs \<noteq> []" "tick > delay"
  proof -
    from that(1) obtain as a where as: "map fst xs = as @ [a]" by (metis map_is_Nil_conv rev_exhaust)
    have "bt_nodes b a = Some zero_button" using blank as by simp
    with press_loop_unconfigured_last [of "bt_nodes b" bt_head as a zero_button delay tick
        "replicate (unat (bt_count b)) 0"] l as that(2)
    show ?thesis by (auto simp: buttonGetPresses_def bt_list_def zero_button_def)
  qed
  moreover have "\<exists>locks. buttonFind k b = Some (Inr (locks, NULL))" if "xs = [(a, k, c)]" "k \<noteq> 0" for a k c
  proof -
    from buttonFind_total [OF l, of k] obtain p where
      "buttonFind k b = Some (Inr ([Take (bt_lock b), Give (bt_lock b)], p))"
      "p = NULL \<or> p \<in> set (map fst xs) \<and> bt_identifier (the (bt_nodes b p)) = k" by blast
    with that blank show ?thesis by (auto simp: zero_button_def)
  qed
  ultimately show ?thesis using b by blast
qed

theorem buttons_registered_witness:
  "\<exists>b. add_all [(2, 65, Some (\<lambda>_ _. 1), 3, 4), (5, 66, None, 0, 0)] bt_zero = Some (Inr b) \<and>
    (\<exists>e. buttonGetPresses 100 10 True b = Some (Inl e))"
proof -
  let ?xs = "[(2, 65, Some (\<lambda>_ _. 1), 3, 4), (5, 66, None, 0, 0)]"
  have "distinct (bt_head # map fst ?xs)" "NULL \<notin> fst ` set ?xs" "?xs \<noteq> []" "(100 :: 32 word) > 10"
    by (simp_all add: bt_head_def)
  with buttons_registered [of ?xs 100 10] show ?thesis by blast
qed

text \<open>
  C37. There is no debouncing. \<open>checkButton\<close> compares the tick with the time of the previous press, but
  nothing ever stores that time: once the ticks are past the delay, however fast the samples follow each
  other, its results are those of a plain edge detector, and every bounce of the contact is reported.
\<close>

theorem checkButton_never_debounces:
  assumes "H p = Some n" and "p \<noteq> NULL" and "bt_previous_press_time n = 0" and "\<forall>(tick, v)\<in>set xs. tick > delay"
  shows "sample_button delay xs H p = Inr (edges (uint (bt_state n)) (map snd xs))"
  using assms
proof (induction xs arbitrary: H n)
  case (Cons x xs)
  obtain tick v where x: "x = (tick, v)" by (cases x)
  let ?n = "n\<lparr>bt_poll := Some (\<lambda>_ _. v)\<rparr>"
  have rest: "sample_button delay xs (H(p \<mapsto> ?n\<lparr>bt_state := w\<rparr>)) p = Inr (edges (uint w) (map snd xs))" for w
    by (rule Cons.IH [where n = "?n\<lparr>bt_state := w\<rparr>", simplified]) (use Cons.prems in auto)
  have same: "?n\<lparr>bt_state := bt_state n\<rparr> = ?n" by simp
  from rest [of "bt_state n"] have keep: "sample_button delay xs (H(p \<mapsto> ?n)) p = Inr (edges (uint (bt_state n)) (map snd xs))"
    unfolding same .
  have tick: "tick > delay" using Cons.prems(4) x by auto
  have at: "deref (H(p \<mapsto> m)) p = Inr m" for m using Cons.prems(2) by (simp add: deref_def)
  from bit_cases [of "bt_state n"] show ?case
    by (rule disjE; cases "v = uint (bt_state n)") (use Cons.prems(1-3) tick x keep rest [of 0] rest [of 1] in
      \<open>simp_all add: checkButton_def update_at_def at del: fun_upd_apply\<close>)
qed simp

theorem checkButton_never_debounces_witness:
  "sample_button 10 [(11, 1), (12, 0), (13, 1), (13, 1)] [2 \<mapsto> zero_button] 2 = Inr [1, 0, 1, - 1]"
  using checkButton_never_debounces [of "[2 \<mapsto> zero_button]" 2 zero_button "[(11, 1), (12, 0), (13, 1), (13, 1)]" 10]
  by (simp add: zero_button_def)

text \<open>
  Collecting presses crashes: when the last registered node has no poll function, as every
  \<open>buttonAdd\<close> leaves it, and its debounce time has passed, \<open>buttonGetPresses\<close> does not return;
  it faults at that node at the latest.
\<close>

theorem buttonGetPresses_crashes:
  assumes "bt_list b (as @ [a])" and "bt_nodes b a = Some n" and "bt_poll n = None"
    and "tick - bt_previous_press_time n > delay"
  shows "\<exists>e. buttonGetPresses tick delay True b = Some (Inl e)"
  using press_loop_unconfigured_last [of "bt_nodes b" bt_head as a n delay tick
      "replicate (unat (bt_count b)) 0"] assms
  by (auto simp: buttonGetPresses_def bt_list_def)

theorem buttonGetPresses_crashes_witness: "\<exists>e. buttonGetPresses 100 10 True bt_demo = Some (Inl e)"
  using buttonGetPresses_crashes [of bt_demo "[]" 2 zero_button 10 100] bt_demo_list
  by (simp add: bt_demo_def bt_head_def zero_button_def)

text \<open>
  Deletion: \<open>buttonDelete\<close> unlinks and frees the first node with the identifier, keeps
  the others in order and decrements the count.
\<close>

theorem buttonDelete_unlinks:
  assumes "bt_list b (us @ d # vs)" and "bt_identifier (the (bt_nodes b d)) = k"
    and "\<forall>a\<in>set us. bt_identifier (the (bt_nodes b a)) \<noteq> k"
  shows "\<exists>locks b'. buttonDelete k b = Some (Inr (locks, b')) \<and> bt_list b' (us @ vs) \<and>
    bt_nodes b' d = None \<and> bt_count b' = bt_count b - 1"
  by (rule buttonDelete_hit [OF assms])

theorem buttonDelete_unlinks_witness:
  "\<exists>locks b'. buttonDelete 0 bt_demo = Some (Inr (locks, b')) \<and> bt_list b' [] \<and> bt_count b' = 0"
  using buttonDelete_unlinks [of bt_demo "[]" 2 "[]" 0] bt_demo_list
  by (auto simp: bt_demo_def bt_head_def zero_button_def)

end
