(* ===== verification/My_String.thy ===== *)
theory My_String
  imports C_Prelude
begin

text \<open>
  The string objects of the \<open>oo_string\<close> snippets. Version one is a program without functions.
  Versions two and three keep a heap-allocated
  struct with a length and a pointer to a heap-allocated copy of the string (three hides the
  struct behind a handle; the code is the same); version four keeps one static struct with a
  fixed buffer. Both promise the same thing, which the locale \<open>string_object\<close> states: after a
  successful set, the getters return the string and its length.
\<close>

section \<open>Versions two and three: heap-allocated strings\<close>

record my_string =
  ms_str_len :: "64 word"
  ms_string :: addr

text \<open>The structs and the character buffers of the program.\<close>

record ms_store =
  ms_objs :: "addr \<rightharpoonup> my_string"
  ms_bufs :: "addr \<rightharpoonup> char list"

text \<open>
  A \<open>const char *\<close> argument is \<open>None\<close> for NULL. \<open>a1\<close> and \<open>a2\<close> are what the two \<open>calloc\<close>
  calls return.
\<close>

definition myStringInit ::
    "addr \<Rightarrow> addr \<Rightarrow> string option \<Rightarrow> ms_store \<Rightarrow> (addr \<times> ms_store) cres" where
  "myStringInit a1 a2 the_string st =
     (if a1 = NULL then Inr (NULL, st)
      else case the_string of
        None \<Rightarrow> Inl Null_deref
      | Some s \<Rightarrow>
          let len = of_nat (length s) :: 64 word in
          if a2 = NULL
          then Inr (NULL, st\<lparr>ms_objs := (ms_objs st)(a1 := None)\<rparr>)
          else cbind (c_strcpy (replicate (unat (len + 1)) nul) 0 s) (\<lambda>buf.
            Inr (a1, st\<lparr>ms_objs := (ms_objs st)(a1 \<mapsto> \<lparr>ms_str_len = len, ms_string = a2\<rparr>),
                        ms_bufs := (ms_bufs st)(a2 \<mapsto> buf)\<rparr>)))"

text \<open>
  \<open>realloc(old, n)\<close>, returning \<open>r\<close>: NULL leaves the old block; otherwise the old block is
  replaced by one of \<open>n\<close> bytes that starts with the old contents. What the bytes after them
  hold is not specified (\<open>junk\<close>).
\<close>

definition ms_realloc ::
    "char \<Rightarrow> addr \<Rightarrow> (addr \<rightharpoonup> char list) \<Rightarrow> addr \<Rightarrow> nat \<Rightarrow> (addr \<rightharpoonup> char list) cres" where
  "ms_realloc junk r B old n =
     cbind (if old = NULL then Inr [] else deref B old) (\<lambda>bytes.
       if r = NULL then Inr B
       else Inr ((B(old := None))(r \<mapsto> take n (bytes @ replicate n junk))))"

definition myStringSetString ::
    "char \<Rightarrow> addr \<Rightarrow> addr \<Rightarrow> string option \<Rightarrow> ms_store \<Rightarrow> (int \<times> ms_store) cres" where
  "myStringSetString junk r p the_string st =
     (case the_string of
        None \<Rightarrow> Inr (- 1, st)
      | Some s \<Rightarrow>
          let len = of_nat (length s) :: 64 word in
          cbind (deref (ms_objs st) p) (\<lambda>ob.
          cbind (ms_realloc junk r (ms_bufs st) (ms_string ob) (unat (len + 1))) (\<lambda>B.
            if r = NULL
            then Inr (- 1, st\<lparr>ms_objs := (ms_objs st)(p := None), ms_bufs := B\<rparr>)
            else cbind (deref B r) (\<lambda>buf. cbind (c_strcpy buf 0 s) (\<lambda>buf'.
              Inr (0, st\<lparr>ms_objs := (ms_objs st)(p \<mapsto> \<lparr>ms_str_len = len, ms_string = r\<rparr>),
                         ms_bufs := B(r \<mapsto> buf')\<rparr>))))))"

text \<open>\<open>strdup\<close> of the stored string; \<open>d\<close> is where the copy is allocated, NULL on failure.\<close>

definition myStringGetString :: "addr \<Rightarrow> addr \<Rightarrow> ms_store \<Rightarrow> (addr \<times> ms_store) cres" where
  "myStringGetString d p st =
     cbind (deref (ms_objs st) p) (\<lambda>ob.
     cbind (deref (ms_bufs st) (ms_string ob)) (\<lambda>buf.
     cbind (c_strlen buf) (\<lambda>n.
       if d = NULL then Inr (NULL, st)
       else Inr (d, st\<lparr>ms_bufs := (ms_bufs st)(d \<mapsto> take n buf @ [nul])\<rparr>))))"

definition myStringGetStringLength :: "addr \<Rightarrow> ms_store \<Rightarrow> 64 word cres" where
  "myStringGetStringLength p st = cbind (deref (ms_objs st) p) (\<lambda>ob. Inr (ms_str_len ob))"

text \<open>Printing \<open>%s\<close>: the characters before the first NUL of the buffer.\<close>

definition printed :: "addr \<Rightarrow> ms_store \<Rightarrow> string cres" where
  "printed q st =
     cbind (deref (ms_bufs st) q) (\<lambda>buf. cbind (c_strlen buf) (\<lambda>n. Inr (take n buf)))"

text \<open>
  The demo program of version three; \<open>o\<close>, \<open>b\<close>, \<open>c1\<close>, \<open>r\<close> and \<open>c2\<close> are the addresses its five
  allocations return, in order. The result is what the two \<open>printf\<close> calls print.
\<close>

definition test_string :: string where
  "test_string = ''This is the test string''"

definition second_string :: string where
  "second_string = ''This is a second string and it is longer''"

definition oo_three_main ::
    "char \<Rightarrow> addr \<Rightarrow> addr \<Rightarrow> addr \<Rightarrow> addr \<Rightarrow> addr \<Rightarrow> (64 word \<times> string) list cres" where
  "oo_three_main junk ob b c1 r c2 =
     cbind (myStringInit ob b (Some test_string)
              \<lparr>ms_objs = Map.empty, ms_bufs = Map.empty\<rparr>) (\<lambda>(our_string, st1).
     cbind (myStringGetString c1 our_string st1) (\<lambda>(copy, st2).
     cbind (myStringGetStringLength our_string st2) (\<lambda>n1.
     cbind (printed copy st2) (\<lambda>out1.
     cbind (myStringSetString junk r our_string (Some second_string) st2) (\<lambda>(_, st3).
     cbind (myStringGetString c2 our_string
              (st3\<lparr>ms_bufs := (ms_bufs st3)(copy := None)\<rparr>)) (\<lambda>(copy', st4).
     cbind (myStringGetStringLength our_string st4) (\<lambda>n2.
     cbind (printed copy' st4) (\<lambda>out2. Inr [(n1, out1), (n2, out2)]))))))))"

text \<open>
  Version two has the same three functions on a struct that its header declares; its demo program reads
  the fields itself. The result is what the three \<open>printf\<close> calls print, with the length where
  there is one; \<open>d\<close> is where \<open>strdup\<close> allocates.
\<close>

definition two_Init :: "addr \<Rightarrow> addr \<Rightarrow> string option \<Rightarrow> ms_store \<Rightarrow> (addr \<times> ms_store) cres" where
  "two_Init = myStringInit"

definition two_SetString :: "char \<Rightarrow> addr \<Rightarrow> addr \<Rightarrow> string option \<Rightarrow> ms_store \<Rightarrow> (int \<times> ms_store) cres" where
  "two_SetString = myStringSetString"

definition two_GetString :: "addr \<Rightarrow> addr \<Rightarrow> ms_store \<Rightarrow> (addr \<times> ms_store) cres" where
  "two_GetString = myStringGetString"

definition two_second_string :: string where
  "two_second_string = ''This is the second string and it is longer''"

definition print_object :: "addr \<Rightarrow> ms_store \<Rightarrow> (string \<times> 64 word option) cres" where
  "print_object p st = cbind (deref (ms_objs st) p) (\<lambda>ob. cbind (printed (ms_string ob) st) (\<lambda>txt.
     Inr (txt, Some (ms_str_len ob))))"

definition oo_two_main :: "char \<Rightarrow> addr \<Rightarrow> addr \<Rightarrow> addr \<Rightarrow> addr \<Rightarrow> (string \<times> 64 word option) list cres" where
  "oo_two_main junk ob b r d =
     cbind (two_Init ob b (Some test_string) \<lparr>ms_objs = Map.empty, ms_bufs = Map.empty\<rparr>) (\<lambda>(our_string, st1).
     cbind (print_object our_string st1) (\<lambda>out1.
     cbind (two_SetString junk r our_string (Some two_second_string) st1) (\<lambda>(_, st2).
     cbind (print_object our_string st2) (\<lambda>out2.
     cbind (two_GetString d our_string st2) (\<lambda>(string_copy, st3).
     cbind (printed string_copy st3) (\<lambda>out3. Inr [out1, out2, (out3, None)]))))))"

text \<open>
  Version one has no functions: it prints a literal and a copy of another one in a block of 100 bytes
  at \<open>a\<close>, whose allocation it does not check.
\<close>

definition oo_one_main :: "addr \<Rightarrow> string list cres" where
  "oo_one_main a =
     cbind (c_check Null_deref (a \<noteq> NULL)) (\<lambda>_.
     cbind (c_strcpy (replicate 100 nul) 0 ''this is my dynamic string'') (\<lambda>buf.
     cbind (c_strlen buf) (\<lambda>n. Inr [''This is my string'', take n buf])))"

section \<open>Version four: one static buffer\<close>

definition STRING_BUFFER_LEN :: nat where
  "STRING_BUFFER_LEN = 1000"

record static_string =
  sst_str_len :: "64 word"
  sst_string :: "char list"

definition our_string_zero :: static_string where
  "our_string_zero = \<lparr>sst_str_len = 0, sst_string = replicate (STRING_BUFFER_LEN + 1) nul\<rparr>"

definition sst_SetString :: "string option \<Rightarrow> static_string \<Rightarrow> (int \<times> static_string) cres" where
  "sst_SetString the_string_to_set st =
     (case the_string_to_set of
        None \<Rightarrow> Inr (- 1, st)
      | Some s \<Rightarrow>
          let string_to_set_len = of_nat (length s) :: 64 word in
          if unat string_to_set_len > STRING_BUFFER_LEN then Inr (- 1, st)
          else cbind (c_strcpy (sst_string st) 0 s) (\<lambda>buf.
                 Inr (0, \<lparr>sst_str_len = string_to_set_len, sst_string = buf\<rparr>)))"

text \<open>\<open>strdup\<close> of the buffer: the copied string, \<open>None\<close> when the allocation fails.\<close>

definition sst_GetString :: "bool \<Rightarrow> static_string \<Rightarrow> string option cres" where
  "sst_GetString ok st =
     cbind (c_strlen (sst_string st)) (\<lambda>n.
       Inr (if ok then Some (take n (sst_string st)) else None))"

definition sst_GetStringLen :: "static_string \<Rightarrow> 64 word" where
  "sst_GetStringLen st = sst_str_len st"

definition long_string :: string where
  "long_string = ''This is a much longer string than the first string''"

definition oo_four_main :: "(64 word \<times> string option) list cres" where
  "oo_four_main =
     cbind (sst_SetString (Some test_string) our_string_zero) (\<lambda>(_, st1).
     cbind (sst_GetString True st1) (\<lambda>string_copy.
     cbind (sst_SetString (Some long_string) st1) (\<lambda>(_, st2).
     cbind (sst_GetString True st2) (\<lambda>copy2.
       Inr [(sst_GetStringLen st1, string_copy), (sst_GetStringLen st2, copy2)]))))"

section \<open>The contract\<close>

text \<open>Setting the strings of a list one after the other.\<close>

fun set_all :: "('s \<Rightarrow> string \<Rightarrow> (int \<times> 's) cres) \<Rightarrow> 's \<Rightarrow> string list \<Rightarrow> 's cres" where
  "set_all set_s s [] = Inr s"
| "set_all set_s s (x # xs) = cbind (set_s s x) (\<lambda>(_, s'). set_all set_s s' xs)"

locale string_object =
  fixes ok :: "'s \<Rightarrow> bool"
    and accepts :: "string \<Rightarrow> bool"
    and set_s :: "'s \<Rightarrow> string \<Rightarrow> (int \<times> 's) cres"
    and content :: "'s \<Rightarrow> string cres"
    and len :: "'s \<Rightarrow> 64 word cres"
  assumes set_accepted: "ok s \<Longrightarrow> is_cstring x \<Longrightarrow> accepts x \<Longrightarrow>
      \<exists>s'. set_s s x = Inr (0, s') \<and> ok s' \<and> content s' = Inr x \<and> len s' = Inr (of_nat (length x))"
begin

text \<open>The last of a sequence of sets wins.\<close>

lemma set_all_last:
  assumes "ok s" and "xs \<noteq> []" and "\<forall>x\<in>set xs. is_cstring x \<and> accepts x"
  shows "\<exists>s'. set_all set_s s xs = Inr s' \<and> ok s' \<and> content s' = Inr (last xs) \<and>
    len s' = Inr (of_nat (length (last xs)))"
  using assms
proof (induction xs arbitrary: s)
  case (Cons x xs)
  from set_accepted [of s x] Cons.prems obtain s1
    where s1: "set_s s x = Inr (0, s1)" "ok s1" "content s1 = Inr x"
      "len s1 = Inr (of_nat (length x))" by auto
  show ?case
  proof (cases "xs = []")
    case True
    with s1 show ?thesis by simp
  next
    case False
    with Cons.IH [of s1] Cons.prems s1 show ?thesis by auto
  qed
qed simp

end

text \<open>
  An object that refuses a string and stays as it was holds the last string it accepted.
\<close>

locale guarded_string_object = string_object +
  assumes set_rejected: "ok s \<Longrightarrow> \<not> accepts x \<Longrightarrow> length x < 2 ^ 64 \<Longrightarrow> set_s s x = Inr (- 1, s)"
begin

lemma set_all_last_accepted:
  assumes "ok s" and "content s = Inr c" and "len s = Inr (of_nat (length c))"
    and "\<forall>x\<in>set xs. is_cstring x \<and> length x < 2 ^ 64"
  shows "\<exists>s'. set_all set_s s xs = Inr s' \<and> ok s' \<and>
    content s' = Inr (last (c # filter accepts xs)) \<and>
    len s' = Inr (of_nat (length (last (c # filter accepts xs))))"
  using assms
proof (induction xs arbitrary: s c)
  case (Cons x xs)
  show ?case
  proof (cases "accepts x")
    case True
    with set_accepted [of s x] Cons.prems obtain s1
      where s1: "set_s s x = Inr (0, s1)" "ok s1" "content s1 = Inr x"
        "len s1 = Inr (of_nat (length x))" by auto
    with Cons.IH [of s1 x] Cons.prems True show ?thesis by simp
  next
    case False
    with set_rejected [of s x] Cons.IH [of s c] Cons.prems show ?thesis by simp
  qed
qed simp

end

section \<open>Heap-allocated strings keep the contract\<close>

definition ms_ok :: "addr \<Rightarrow> ms_store \<Rightarrow> bool" where
  "ms_ok p st \<longleftrightarrow> p \<noteq> NULL \<and> (\<exists>ob buf. ms_objs st p = Some ob \<and> ms_string ob \<noteq> NULL \<and>
     ms_bufs st (ms_string ob) = Some buf \<and> nul \<in> set buf)"

text \<open>The string an object holds.\<close>

definition ms_content :: "addr \<Rightarrow> ms_store \<Rightarrow> string cres" where
  "ms_content p st = cbind (deref (ms_objs st) p) (\<lambda>ob. printed (ms_string ob) st)"

lemma unat_len_succ:
  assumes "n + 1 < 2 ^ 64"
  shows "unat ((of_nat n :: 64 word) + 1) = n + 1"
proof -
  have "(of_nat n :: 64 word) + 1 = of_nat (n + 1)" by simp
  then show ?thesis using assms by (simp only: unat_of_nat) simp
qed

lemma printed_cstring:
  assumes "q \<noteq> NULL" and "ms_bufs st q = Some (s @ nul # rest)" and "is_cstring s"
  shows "printed q st = Inr s"
  using assms by (simp add: printed_def str_simps)

lemma c_strcpy_exact:
  "length dst = length s + 1 \<Longrightarrow> c_strcpy dst 0 s = Inr (s @ [nul])"
  by (simp add: c_strcpy_def mem_simps)

lemma SetString_eq:
  assumes "ms_ok p st" and "r \<noteq> NULL" and "length s + 1 < 2 ^ 64" and "ms_objs st p = Some ob"
  shows "myStringSetString junk r p (Some s) st =
    Inr (0, st\<lparr>ms_objs := (ms_objs st)(p \<mapsto> \<lparr>ms_str_len = of_nat (length s), ms_string = r\<rparr>),
               ms_bufs := (ms_bufs st)(ms_string ob := None, r \<mapsto> s @ [nul])\<rparr>)"
  using assms unat_len_succ [OF assms(3)]
  by (auto simp: myStringSetString_def ms_ok_def ms_realloc_def c_strcpy_exact Let_def)

lemma SetString_ok:
  assumes "ms_ok p st" and "r \<noteq> NULL" and "is_cstring s" and "length s + 1 < 2 ^ 64"
  shows "\<exists>st'. myStringSetString junk r p (Some s) st = Inr (0, st') \<and> ms_ok p st' \<and>
    ms_content p st' = Inr s \<and> myStringGetStringLength p st' = Inr (of_nat (length s))"
proof -
  from assms(1) obtain ob where "ms_objs st p = Some ob" "p \<noteq> NULL" by (auto simp: ms_ok_def)
  with SetString_eq [OF assms(1,2,4)] assms(2,3) show ?thesis
    by (auto simp: ms_ok_def ms_content_def myStringGetStringLength_def printed_cstring)
qed

lemma Init_ok:
  assumes "a1 \<noteq> NULL" and "a2 \<noteq> NULL" and "is_cstring s" and "length s + 1 < 2 ^ 64"
  shows "\<exists>st'. myStringInit a1 a2 (Some s) st = Inr (a1, st') \<and> ms_ok a1 st' \<and>
    ms_content a1 st' = Inr s \<and> myStringGetStringLength a1 st' = Inr (of_nat (length s))"
  using assms unat_len_succ [OF assms(4)]
  by (auto simp: myStringInit_def Let_def c_strcpy_exact ms_ok_def ms_content_def
      myStringGetStringLength_def printed_cstring)

text \<open>\<open>myStringGetString\<close> returns a copy with the same content and leaves the object alone.\<close>

lemma GetString_copy:
  assumes "ms_ok p st" and "d \<noteq> NULL" and "ms_bufs st d = None"
  shows "\<exists>st'. myStringGetString d p st = Inr (d, st') \<and> ms_content p st' = ms_content p st \<and>
    printed d st' = ms_content p st \<and> ms_ok p st'"
proof -
  from assms(1) obtain ob buf where ob: "ms_objs st p = Some ob" "ms_string ob \<noteq> NULL"
      "ms_bufs st (ms_string ob) = Some buf" "nul \<in> set buf" "p \<noteq> NULL" by (auto simp: ms_ok_def)
  have "d \<noteq> ms_string ob" using ob assms(3) by auto
  then show ?thesis using ob assms(2) take_c_str [of buf]
    by (auto simp: myStringGetString_def ms_content_def printed_def c_strlen_c_str ms_ok_def str_simps)
qed

text \<open>\<open>alloc\<close> is where \<open>realloc\<close> moves the buffer when a given string is set.\<close>

interpretation heap_string: string_object "ms_ok p"
    "\<lambda>s. length s + 1 < 2 ^ 64 \<and> alloc s \<noteq> NULL"
    "\<lambda>st s. myStringSetString junk (alloc s) p (Some s) st"
    "ms_content p" "myStringGetStringLength p"
  for p junk alloc
  by unfold_locales (blast intro: SetString_ok)

section \<open>The static string keeps the contract\<close>

definition sst_ok :: "static_string \<Rightarrow> bool" where
  "sst_ok st \<longleftrightarrow> length (sst_string st) = STRING_BUFFER_LEN + 1 \<and> nul \<in> set (sst_string st) \<and>
     sst_str_len st = of_nat (length (c_str (sst_string st)))"

definition sst_content :: "static_string \<Rightarrow> string cres" where
  "sst_content st = cbind (sst_GetString True st) (\<lambda>r. Inr (the r))"

lemma sst_content_eq:
  assumes "sst_ok st"
  shows "sst_content st = Inr (c_str (sst_string st))"
  using assms by (simp add: sst_content_def sst_GetString_def sst_ok_def c_strlen_c_str take_c_str)

lemma sst_zero_ok: "sst_ok our_string_zero"
  by (simp add: sst_ok_def our_string_zero_def STRING_BUFFER_LEN_def c_str_def)

lemma sst_Set_ok:
  assumes "sst_ok st" and "is_cstring s" and "length s \<le> STRING_BUFFER_LEN"
  shows "\<exists>st'. sst_SetString (Some s) st = Inr (0, st') \<and> sst_ok st' \<and>
    sst_content st' = Inr s \<and> sst_GetStringLen st' = of_nat (length s)"
proof -
  have l: "unat (of_nat (length s) :: 64 word) = length s"
    using assms(3) by (simp add: unat_of_nat STRING_BUFFER_LEN_def)
  let ?buf = "s @ nul # drop (Suc (length s)) (sst_string st)"
  let ?st = "\<lparr>sst_str_len = of_nat (length s), sst_string = ?buf\<rparr>"
  have set: "sst_SetString (Some s) st = Inr (0, ?st)"
    using assms l by (simp add: sst_SetString_def Let_def sst_ok_def c_strcpy_start)
  have "sst_ok ?st" using assms by (simp add: sst_ok_def str_simps)
  with set assms(2) sst_content_eq [of ?st] show ?thesis
    by (simp add: sst_GetStringLen_def str_simps)
qed

text \<open>A rejected string changes nothing: NULL, or one too long for the buffer.\<close>

lemma sst_Set_rejects:
  "sst_SetString None st = Inr (- 1, st)"
  "STRING_BUFFER_LEN < length s \<Longrightarrow> length s < 2 ^ 64 \<Longrightarrow> sst_SetString (Some s) st = Inr (- 1, st)"
  by (simp_all add: sst_SetString_def Let_def unat_of_nat)

interpretation static_string: guarded_string_object sst_ok "\<lambda>s. length s \<le> STRING_BUFFER_LEN"
    "\<lambda>st s. sst_SetString (Some s) st" sst_content "\<lambda>st. Inr (sst_GetStringLen st)"
  by unfold_locales (use sst_Set_ok sst_Set_rejects in fastforce)+

lemma sst_zero_content:
  "sst_content our_string_zero = Inr []" "sst_GetStringLen our_string_zero = 0"
proof -
  have "c_str (sst_string our_string_zero) = []"
    by (simp add: our_string_zero_def STRING_BUFFER_LEN_def c_str_def)
  then show "sst_content our_string_zero = Inr []"
    by (simp add: sst_content_eq [OF sst_zero_ok])
  show "sst_GetStringLen our_string_zero = 0"
    by (simp add: sst_GetStringLen_def our_string_zero_def)
qed

section \<open>Properties\<close>

text \<open>
  A string created by \<open>myStringInit\<close> and then set any number of times holds the last string
  it was given, wherever \<open>realloc\<close> moves its buffer: every call succeeds, the length getter
  returns that string's length, and \<open>myStringGetString\<close> returns a new buffer with that string
  and leaves the object's content as it was.
\<close>

theorem heap_string_last_wins:
  assumes "ob \<noteq> NULL" and "b \<noteq> NULL"
    and "\<forall>x\<in>set (s0 # xs). is_cstring x \<and> length x + 1 < 2 ^ 64 \<and> alloc x \<noteq> NULL"
  shows "\<exists>st1 st2. myStringInit ob b (Some s0) st = Inr (ob, st1) \<and>
    set_all (\<lambda>s x. myStringSetString junk (alloc x) ob (Some x) s) st1 xs = Inr st2 \<and>
    myStringGetStringLength ob st2 = Inr (of_nat (length (last (s0 # xs)))) \<and>
    (\<forall>d. d \<noteq> NULL \<longrightarrow> ms_bufs st2 d = None \<longrightarrow>
       (\<exists>st3. myStringGetString d ob st2 = Inr (d, st3) \<and> printed d st3 = Inr (last (s0 # xs)) \<and>
          ms_content ob st3 = Inr (last (s0 # xs))))"
proof -
  from Init_ok [of ob b s0 st] assms obtain st1
    where st1: "myStringInit ob b (Some s0) st = Inr (ob, st1)" "ms_ok ob st1"
      "ms_content ob st1 = Inr s0" "myStringGetStringLength ob st1 = Inr (of_nat (length s0))"
    by auto
  have "\<exists>st2. set_all (\<lambda>s x. myStringSetString junk (alloc x) ob (Some x) s) st1 xs = Inr st2 \<and>
      ms_ok ob st2 \<and> ms_content ob st2 = Inr (last (s0 # xs)) \<and>
      myStringGetStringLength ob st2 = Inr (of_nat (length (last (s0 # xs))))"
    using st1 assms heap_string.set_all_last [of ob st1 xs alloc junk] by (cases "xs = []") auto
  then obtain st2 where st2:
    "set_all (\<lambda>s x. myStringSetString junk (alloc x) ob (Some x) s) st1 xs = Inr st2"
    "ms_ok ob st2" "ms_content ob st2 = Inr (last (s0 # xs))"
    "myStringGetStringLength ob st2 = Inr (of_nat (length (last (s0 # xs))))" by blast
  show ?thesis
    using st1(1) st2 GetString_copy [OF st2(2)] by (auto simp del: last.simps)
qed

theorem heap_string_last_wins_witness:
  "\<exists>st1 st2. myStringInit 16 64 (Some ''ab'') \<lparr>ms_objs = Map.empty, ms_bufs = Map.empty\<rparr> =
      Inr (16, st1) \<and>
    set_all (\<lambda>s x. myStringSetString CHR ''?'' 128 16 (Some x) s) st1 [''wxyz'', ''q''] = Inr st2 \<and>
    myStringGetStringLength 16 st2 = Inr 1"
  using heap_string_last_wins [of 16 64 "''ab''" "[''wxyz'', ''q'']" "\<lambda>_. 128"
      "\<lparr>ms_objs = Map.empty, ms_bufs = Map.empty\<rparr>" "CHR ''?''"]
  by (auto simp: is_cstring_def nul_def)

text \<open>
  When \<open>realloc\<close> fails, \<open>myStringSetString\<close> returns -1 and frees the struct behind the
  caller's handle: any further use of the handle is a use of freed memory. The old character
  buffer, whose address the failed assignment overwrote, stays allocated.
\<close>

theorem set_string_failure:
  assumes "ms_ok p st" and "ms_objs st p = Some ob"
  shows "\<exists>st'. myStringSetString junk NULL p (Some s) st = Inr (- 1, st') \<and>
    myStringGetString d p st' = Inl Bad_pointer \<and>
    myStringGetStringLength p st' = Inl Bad_pointer \<and>
    myStringSetString junk r p (Some s') st' = Inl Bad_pointer \<and>
    ms_bufs st' (ms_string ob) = ms_bufs st (ms_string ob) \<and> ms_bufs st (ms_string ob) \<noteq> None"
  using assms
  by (auto simp: ms_ok_def myStringSetString_def ms_realloc_def myStringGetString_def
      myStringGetStringLength_def Let_def)

theorem set_string_failure_witness:
  "\<exists>st'. myStringSetString CHR ''?'' NULL 16 (Some ''xyz'')
      \<lparr>ms_objs = [16 \<mapsto> \<lparr>ms_str_len = 1, ms_string = 64\<rparr>], ms_bufs = [64 \<mapsto> ''a'' @ [nul]]\<rparr> =
      Inr (- 1, st') \<and> myStringGetStringLength 16 st' = Inl Bad_pointer \<and> ms_bufs st' 64 \<noteq> None"
  using set_string_failure [of 16 "\<lparr>ms_objs = [16 \<mapsto> \<lparr>ms_str_len = 1, ms_string = 64\<rparr>],
      ms_bufs = [64 \<mapsto> ''a'' @ [nul]]\<rparr>" "\<lparr>ms_str_len = 1, ms_string = 64\<rparr>" "CHR ''?''" "''xyz''"
      0 0 "[]"]
  by (auto simp: ms_ok_def)

text \<open>
  C29. The static string of version four, set any number of times from its initial state,
  holds the last of the strings that fit in its buffer (the empty string when there was none)
  with its length; the others are refused and no call reads or writes outside the buffer.
\<close>

theorem static_string_last_accepted:
  assumes "\<forall>x\<in>set xs. is_cstring x \<and> length x < 2 ^ 64"
  shows "\<exists>st. set_all (\<lambda>s x. sst_SetString (Some x) s) our_string_zero xs = Inr st \<and>
    sst_GetString True st = Inr (Some (last ([] # filter (\<lambda>x. length x \<le> STRING_BUFFER_LEN) xs))) \<and>
    sst_GetStringLen st =
      of_nat (length (last ([] # filter (\<lambda>x. length x \<le> STRING_BUFFER_LEN) xs)))"
proof -
  have get: "sst_GetString True st = Inr (Some x)" if "sst_content st = Inr x" for st x
    using that by (auto simp: sst_content_def sst_GetString_def cres_simps)
  from static_string.set_all_last_accepted [of our_string_zero "[]" xs] assms
    sst_zero_ok sst_zero_content
  obtain st where "set_all (\<lambda>s x. sst_SetString (Some x) s) our_string_zero xs = Inr st"
    "sst_content st = Inr (last ([] # filter (\<lambda>x. length x \<le> STRING_BUFFER_LEN) xs))"
    "sst_GetStringLen st =
      of_nat (length (last ([] # filter (\<lambda>x. length x \<le> STRING_BUFFER_LEN) xs)))"
    by (auto simp del: last.simps)
  with get show ?thesis by (auto simp del: last.simps)
qed

theorem static_string_last_accepted_witness:
  "\<exists>st. set_all (\<lambda>s x. sst_SetString (Some x) s) our_string_zero
      [''abc'', replicate 1001 CHR ''x''] = Inr st \<and>
    sst_GetString True st = Inr (Some ''abc'') \<and> sst_GetStringLen st = 3"
  using static_string_last_accepted [of "[''abc'', replicate 1001 CHR ''x'']"]
  by (auto simp: is_cstring_def nul_def STRING_BUFFER_LEN_def)

text \<open>
  C30. The two implementations are interchangeable on strings that fit the static buffer: created with
  a string and set any number of times, the heap-allocated object of versions two and three and
  the static one of version four hold the same string and report the same length.
\<close>

theorem string_versions_agree:
  assumes "ob \<noteq> NULL" and "b \<noteq> NULL"
    and "\<forall>x\<in>set (s0 # xs). is_cstring x \<and> length x \<le> STRING_BUFFER_LEN \<and> alloc x \<noteq> NULL"
  shows "\<exists>st1 st2 st. myStringInit ob b (Some s0) st0 = Inr (ob, st1) \<and>
    set_all (\<lambda>s x. myStringSetString junk (alloc x) ob (Some x) s) st1 xs = Inr st2 \<and>
    set_all (\<lambda>s x. sst_SetString (Some x) s) our_string_zero (s0 # xs) = Inr st \<and>
    ms_content ob st2 = sst_content st \<and> myStringGetStringLength ob st2 = Inr (sst_GetStringLen st)"
proof -
  have big: "length x + 1 < 2 ^ 64" if "x \<in> set (s0 # xs)" for x
  proof -
    have "length x \<le> 1000" using assms(3) that by (auto simp: STRING_BUFFER_LEN_def)
    then show ?thesis by simp
  qed
  from Init_ok [of ob b s0 st0] assms big [of s0] obtain st1
    where st1: "myStringInit ob b (Some s0) st0 = Inr (ob, st1)" "ms_ok ob st1"
      "ms_content ob st1 = Inr s0" "myStringGetStringLength ob st1 = Inr (of_nat (length s0))" by auto
  have "\<exists>st2. set_all (\<lambda>s x. myStringSetString junk (alloc x) ob (Some x) s) st1 xs = Inr st2 \<and>
      ms_ok ob st2 \<and> ms_content ob st2 = Inr (last (s0 # xs)) \<and>
      myStringGetStringLength ob st2 = Inr (of_nat (length (last (s0 # xs))))"
    using st1 assms big heap_string.set_all_last [of ob st1 xs alloc junk] by (cases "xs = []") auto
  moreover have "\<exists>st. set_all (\<lambda>s x. sst_SetString (Some x) s) our_string_zero (s0 # xs) = Inr st \<and> sst_ok st \<and>
      sst_content st = Inr (last (s0 # xs)) \<and>
      Inr (sst_GetStringLen st) = (Inr (of_nat (length (last (s0 # xs)))) :: 64 word cres)"
    by (rule static_string.set_all_last [OF sst_zero_ok]) (use assms(3) in auto)
  ultimately show ?thesis using st1(1) by auto
qed

theorem string_versions_agree_witness:
  "\<exists>st1 st2 st. myStringInit 16 64 (Some ''ab'') \<lparr>ms_objs = Map.empty, ms_bufs = Map.empty\<rparr> = Inr (16, st1) \<and>
    set_all (\<lambda>s x. myStringSetString CHR ''?'' 128 16 (Some x) s) st1 [''wxyz'', ''q''] = Inr st2 \<and>
    set_all (\<lambda>s x. sst_SetString (Some x) s) our_string_zero [''ab'', ''wxyz'', ''q''] = Inr st \<and>
    ms_content 16 st2 = sst_content st"
  using string_versions_agree [of 16 64 "''ab''" "[''wxyz'', ''q'']" "\<lambda>_. 128"
      "\<lparr>ms_objs = Map.empty, ms_bufs = Map.empty\<rparr>" "CHR ''?''"]
  by (auto simp: is_cstring_def nul_def STRING_BUFFER_LEN_def)

text \<open>
  The demo programs: version one prints its two literals, versions two, three and four print the
  text and the length of the first string, then those of the second (version two also a copy of it).
\<close>

theorem oo_mains_print:
  assumes "0 \<notin> set [ob, b, c1, r, c2]" and "distinct [b, c1, r, c2]"
  shows "oo_one_main ob = Inr [''This is my string'', ''this is my dynamic string''] \<and>
    oo_two_main junk ob b r c1 = Inr [(test_string, Some 23), (two_second_string, Some 42), (two_second_string, None)] \<and>
    oo_three_main junk ob b c1 r c2 = Inr [(23, test_string), (40, second_string)] \<and>
    oo_four_main = Inr [(23, Some test_string), (50, Some long_string)]"
proof -
  have cs: "is_cstring test_string" "is_cstring second_string" "is_cstring long_string"
    "is_cstring two_second_string" "is_cstring ''this is my dynamic string''"
    by (simp_all add: is_cstring_def nul_def test_string_def second_string_def long_string_def two_second_string_def)
  have len: "length test_string = 23" "length second_string = 40" "length long_string = 50"
    "length two_second_string = 42"
    by (simp_all add: test_string_def second_string_def long_string_def two_second_string_def)
  have "oo_one_main ob = Inr [''This is my string'', ''this is my dynamic string'']"
    using assms(1) c_strcpy_start [of "''this is my dynamic string''" "replicate 100 nul"]
      c_strlen_append [OF cs(5)]
    by (simp add: oo_one_main_def)
  moreover have "oo_two_main junk ob b r c1 =
      Inr [(test_string, Some 23), (two_second_string, Some 42), (two_second_string, None)]"
    using assms cs len
    by (simp add: oo_two_main_def two_Init_def two_SetString_def two_GetString_def print_object_def
      myStringInit_def myStringGetString_def printed_def myStringSetString_def ms_realloc_def c_strcpy_exact
      Let_def str_simps)
  moreover have "oo_three_main junk ob b c1 r c2 = Inr [(23, test_string), (40, second_string)]"
    using assms cs len
    by (simp add: oo_three_main_def myStringInit_def myStringGetString_def printed_def
      myStringGetStringLength_def myStringSetString_def ms_realloc_def c_strcpy_exact Let_def
      str_simps)
  moreover have "oo_four_main = Inr [(23, Some test_string), (50, Some long_string)]"
    using cs len
    by (simp add: oo_four_main_def sst_SetString_def our_string_zero_def STRING_BUFFER_LEN_def
      sst_GetString_def sst_GetStringLen_def Let_def str_simps)
  ultimately show ?thesis by simp
qed

theorem oo_mains_print_witness:
  "oo_three_main CHR ''?'' 16 64 128 256 512 = Inr [(23, test_string), (40, second_string)]"
  using oo_mains_print [of 16 64 128 256 512 "CHR ''?''"] by simp

end
