(* ===== verification/Anybase.thy ===== *)
theory Anybase
  imports C_Prelude
begin

text \<open>
  The recursive number printer of \<open>recursive_function\<close>: \<open>anybase\<close> appends the digits of \<open>n\<close> in
  base \<open>b\<close> to a buffer. The recursion follows the C code, truncating division included, and is
  undefined (\<open>None\<close>) where the C recursion does not end. The reference is the list of digits
  of a number, most significant first.
\<close>

section \<open>The program\<close>

definition BUFFER_SIZE :: nat where
  "BUFFER_SIZE = 200"

definition selection :: string where
  "selection = ''0123456789ABCEDFGHIGKLMNOPQRSTUVWXYZ''"

text \<open>
  \<open>strncat(&s[strlen(s)], &selection[d], 1)\<close>: one character of the digit table, its terminating
  NUL included, is read and, unless it is that NUL, appended; then a NUL is written.
\<close>

definition append_digit :: "int \<Rightarrow> char list \<Rightarrow> char list cres" where
  "append_digit d s =
     cbind (c_strlen s) (\<lambda>k.
     cbind (c_check Out_of_bounds (0 \<le> d \<and> nat d \<le> length selection)) (\<lambda>_.
       let c = (selection @ [nul]) ! nat d in
       if c = nul then mem_write s k [nul] else mem_write s k [c, nul]))"

type_synonym digit_line = "string \<times> int \<times> int"

text \<open>One level of the recursion after the recursive call: the digit and the \<open>printf\<close>.\<close>

definition after_call ::
    "int \<Rightarrow> int \<Rightarrow> char list \<times> digit_line list \<Rightarrow> (char list \<times> digit_line list) cres" where
  "after_call n b = (\<lambda>(s, out).
     cbind (c_mod n b) (\<lambda>d. cbind (append_digit d s) (\<lambda>s'.
       Inr (s', out @ [(c_str s', n, b)]))))"

partial_function (option) anybase ::
    "int \<Rightarrow> int \<Rightarrow> char list \<Rightarrow> (char list \<times> digit_line list) crun" where
  [code]: "anybase n b s =
     (if n = 0 then Some (Inr (s, []))
      else case c_div n b of
        Inl e \<Rightarrow> Some (Inl e)
      | Inr q \<Rightarrow> Option.bind (anybase q b s) (\<lambda>r. Some (cbind r (after_call n b))))"

text \<open>The lines \<open>main\<close> prints: those of the recursion, then the result with the number 90000.\<close>

definition anybase_main :: "(digit_line list \<times> digit_line) crun" where
  "anybase_main =
     (case c_memset0 (replicate BUFFER_SIZE nul) BUFFER_SIZE of
        Inl e \<Rightarrow> Some (Inl e)
      | Inr buf \<Rightarrow> lbind (anybase 900000 18 buf) (\<lambda>(s, out). Some (Inr (out, (c_str s, 90000, 18)))))"

section \<open>The reference: digits of a number\<close>

function digits :: "nat \<Rightarrow> nat \<Rightarrow> nat list" where
  "digits n b = (if n = 0 \<or> b < 2 then [] else digits (n div b) b @ [n mod b])"
  by auto
termination by (relation "measure fst") auto

declare digits.simps [simp del]

definition digit_value :: "nat \<Rightarrow> nat list \<Rightarrow> nat" where
  "digit_value b = foldl (\<lambda>a d. a * b + d) 0"

text \<open>Reading a printed number back: each character's first position in the digit table.\<close>

definition char_value :: "char \<Rightarrow> nat" where
  "char_value c = length (takeWhile (\<lambda>x. x \<noteq> c) selection)"

definition read_base :: "nat \<Rightarrow> string \<Rightarrow> nat" where
  "read_base b s = digit_value b (map char_value s)"

lemma digit_value_digits: "2 \<le> b \<Longrightarrow> digit_value b (digits n b) = n"
proof (induction n b rule: digits.induct)
  case (1 n b)
  then show ?case by (subst digits.simps) (auto simp: digit_value_def)
qed

lemma digits_less: "2 \<le> b \<Longrightarrow> d \<in> set (digits n b) \<Longrightarrow> d < b"
proof (induction n b rule: digits.induct)
  case (1 n b)
  then show ?case by (subst (asm) (2) digits.simps) (auto split: if_splits)
qed

lemma digits_length: "n < 2 ^ k \<Longrightarrow> 2 \<le> b \<Longrightarrow> length (digits n b) \<le> k"
proof (induction k arbitrary: n)
  case (Suc k)
  have "n div b \<le> n div 2" using Suc.prems by (simp add: div_le_mono2)
  then have "n div b < 2 ^ k" using Suc.prems by simp
  then have "length (digits (n div b) b) \<le> k" using Suc by blast
  then show ?case by (subst digits.simps) simp
qed (simp add: digits.simps)

section \<open>The digit table\<close>

lemma selection_length [simp]: "length selection = 36"
  by (simp add: selection_def)

lemma selection_no_nul: "d < 36 \<Longrightarrow> selection ! d \<noteq> nul"
proof -
  assume "d < 36"
  then have "selection ! d \<in> set selection" by (simp add: nth_mem)
  moreover have "nul \<notin> set selection" by (simp add: selection_def nul_def)
  ultimately show ?thesis by metis
qed

lemma selection_inj: "distinct (take 19 selection)"
  by (simp add: selection_def)

lemma char_value_selection:
  assumes "d < 19"
  shows "char_value (selection ! d) = d"
proof -
  have "\<forall>d\<in>set [0..<19]. char_value (selection ! d) = d"
    by (simp add: upt_rec char_value_def selection_def)
  with assms show ?thesis by simp
qed

section \<open>The recursion\<close>

lemma anybase_zero [simp]: "anybase 0 b s = Some (Inr (s, []))"
  by (subst anybase.simps) simp

lemma anybase_step:
  assumes "n \<noteq> 0" and "c_div n b = Inr q" and "anybase q b s = Some r"
  shows "anybase n b s = Some (cbind r (after_call n b))"
  using assms by (subst anybase.simps) simp

lemma append_digit_ok:
  assumes "is_cstring x" and "d < 36" and "length x + 2 \<le> length x + length rest"
  shows "append_digit (int d) (x @ nul # rest) =
    Inr ((x @ [selection ! d]) @ nul # drop 1 rest)"
proof -
  have "selection ! d \<noteq> nul" using assms(2) by (rule selection_no_nul)
  moreover have "(selection @ [nul]) ! d = selection ! d" using assms(2) by (simp add: nth_append)
  ultimately show ?thesis
    using assms by (simp add: append_digit_def str_simps mem_simps Let_def)
qed

text \<open>
  What the recursion leaves in a buffer that starts out as the string \<open>x\<close> followed by a NUL and
  enough room: \<open>x\<close> followed by the digits.
\<close>

lemma anybase_digits:
  assumes "is_cstring x" and "2 \<le> b" and "b \<le> 36" and "int n \<le> int_max"
    and "length (digits n b) < length rest"
  shows "\<exists>out. anybase (int n) (int b) (x @ nul # rest) =
    Some (Inr (x @ map ((!) selection) (digits n b) @ nul # drop (length (digits n b)) rest, out))"
  using assms
proof (induction n b rule: digits.induct)
  case (1 n b)
  show ?case
  proof (cases "n = 0")
    case True
    then show ?thesis by (simp add: digits.simps)
  next
    case False
    let ?q = "n div b" and ?ds = "digits (n div b) b"
    let ?y = "x @ map ((!) selection) ?ds"
    have eq: "digits n b = ?ds @ [n mod b]"
      using False 1(3) by (subst digits.simps) simp
    have "int (n div b) \<le> int_max"
      using "1.prems"(4) by (meson div_le_dividend of_nat_le_iff order_trans)
    with 1 False eq obtain out
      where ih: "anybase (int ?q) (int b) (x @ nul # rest) =
        Some (Inr (?y @ nul # drop (length ?ds) rest, out))" by auto
    have cd: "c_div (int n) (int b) = Inr (int ?q)" "c_mod (int n) (int b) = Inr (int (n mod b))"
      using c_div_mod_nonneg [of "int n" "int b"] "1.prems" by (simp_all add: zdiv_int zmod_int)
    have "d < 36" if "d \<in> set ?ds" for d using digits_less [OF "1.prems"(2) that] "1.prems"(3) by simp
    then have "is_cstring ?y"
      using "1.prems"(1) selection_no_nul by (force simp: is_cstring_def)
    moreover have "n mod b < b" using "1.prems"(2) by simp
    then have "n mod b < 36" using "1.prems"(3) by linarith
    ultimately have "append_digit (int (n mod b)) (?y @ nul # drop (length ?ds) rest) =
        Inr ((?y @ [selection ! (n mod b)]) @ nul # drop 1 (drop (length ?ds) rest))"
      using "1.prems"(5) eq by (intro append_digit_ok) auto
    then show ?thesis
      using anybase_step [OF _ cd(1) ih] False cd(2) eq by (simp add: after_call_def)
  qed
qed

lemma anybase_zeroed_buffer:
  assumes "2 \<le> b" and "b \<le> 36" and "int n \<le> int_max" and "length (digits n b) + 1 < k"
  shows "\<exists>s out. anybase (int n) (int b) (replicate k nul) = Some (Inr (s, out)) \<and>
    length s = k \<and> c_str s = map ((!) selection) (digits n b)"
proof -
  obtain m where k: "k = Suc m" using assms(4) by (cases k) auto
  let ?s = "map ((!) selection) (digits n b) @ nul # drop (length (digits n b)) (replicate m nul)"
  obtain out where "anybase (int n) (int b) (replicate k nul) = Some (Inr (?s, out))"
    using anybase_digits [of "[]" b n "replicate m nul"] assms k by (auto simp: is_cstring_def)
  moreover have "d < 36" if "d \<in> set (digits n b)" for d
    using digits_less [OF assms(1) that] assms(2) by simp
  then have "is_cstring (map ((!) selection) (digits n b))"
    using selection_no_nul by (force simp: is_cstring_def)
  then have "c_str ?s = map ((!) selection) (digits n b)" by (simp add: str_simps)
  moreover have "length ?s = k" using assms(4) k by simp
  ultimately show ?thesis by blast
qed

lemma digits_int_length:
  assumes "int n \<le> int_max" and "2 \<le> b"
  shows "length (digits n b) \<le> 31"
proof -
  have "n < 2 ^ 31" using assms(1) by (simp add: int_max_def)
  then show ?thesis using assms(2) by (rule digits_length)
qed

lemma read_base_digits:
  assumes "2 \<le> b" and "b \<le> 19"
  shows "read_base b (map ((!) selection) (digits n b)) = n"
proof -
  have "map (char_value \<circ> (!) selection) (digits n b) = digits n b"
  proof (rule map_idI)
    fix d assume "d \<in> set (digits n b)"
    then have "d < 19" using digits_less [OF assms(1)] assms(2) by force
    then show "(char_value \<circ> (!) selection) d = d" by (simp add: char_value_selection)
  qed
  then show ?thesis by (simp add: read_base_def digit_value_digits [OF assms(1)])
qed

text \<open>The recursion does not end: dividing by 1 or by -1 never reaches zero.\<close>

lemma anybase_diverges:
  assumes "b = 1 \<or> b = - 1" and "n \<noteq> 0" and "- int_max \<le> n" and "n \<le> int_max"
  shows "anybase n b s = None"
proof -
  let ?P = "\<lambda>n b s r. \<not> ((b = 1 \<or> b = - 1) \<and> n \<noteq> 0 \<and> - int_max \<le> n \<and> n \<le> int_max)"
  have "?P n b s r" if "anybase n b s = Some r" for r
    using that
  proof (rule anybase.raw_induct [of ?P, rotated])
    fix rec :: "int \<Rightarrow> int \<Rightarrow> char list \<Rightarrow> (char list \<times> digit_line list) crun" and n b s r
    assume ih: "\<And>n b s r. rec n b s = Some r \<Longrightarrow> ?P n b s r"
      and body: "(if n = 0 then Some (Inr (s, []))
        else case c_div n b of Inl e \<Rightarrow> Some (Inl e)
          | Inr q \<Rightarrow> Option.bind (rec q b s) (\<lambda>r. Some (cbind r (after_call n b)))) = Some r"
    show "?P n b s r"
    proof
      assume *: "(b = 1 \<or> b = - 1) \<and> n \<noteq> 0 \<and> - int_max \<le> n \<and> n \<le> int_max"
      then have "n sdiv b = n \<or> n sdiv b = - n" by (auto simp: signed_divide_int_def sgn_if)
      then obtain q where q: "c_div n b = Inr q" "q = n \<or> q = - n"
        using * by (auto simp: c_div_def c_int_def int_max_def int_min_def)
      with body * obtain r' where "rec q b s = Some r'" by (auto simp: bind_eq_Some_conv)
      from ih [OF this] q(2) * show False by auto
    qed
  qed
  then show ?thesis using assms by (cases "anybase n b s") auto
qed

text \<open>A negative number: its most significant digit indexes before the digit table.\<close>

lemma anybase_negative:
  assumes "2 \<le> b" and "n < 0" and "int_min \<le> n" and "nul \<in> set s"
  shows "anybase n b s = Some (Inl Out_of_bounds)"
  using assms
proof (induction "nat (- n)" arbitrary: n rule: less_induct)
  case less
  let ?q = "- ((- n) div b)"
  have sd: "n sdiv b = ?q" using less.prems by (simp add: signed_divide_int_def sgn_if)
  have bounds: "0 \<le> (- n) div b" "(- n) div b < - n"
    using less.prems by (simp_all add: pos_imp_zdiv_nonneg_iff int_div_less_self)
  then have cd: "c_div n b = Inr ?q"
    using sd less.prems by (simp add: c_div_def c_int_def int_max_def int_min_def)
  show ?case
  proof (cases "?q = 0")
    case True
    then have "n smod b = n" using less.prems sd
      by (simp add: signed_modulo_int_def sgn_if zdiv_eq_0_iff)
    then have "c_mod n b = Inr n"
      using True sd less.prems by (simp add: c_mod_def c_int_def int_max_def int_min_def)
    then have "after_call n b (s, []) = Inl Out_of_bounds"
      using less.prems by (simp add: after_call_def append_digit_def c_strlen_c_str)
    then show ?thesis using True cd less.prems anybase_step [of n b ?q s] by simp
  next
    case False
    with bounds less have "anybase ?q b s = Some (Inl Out_of_bounds)" by auto
    then show ?thesis using cd less.prems anybase_step [of n b ?q s] by simp
  qed
qed

text \<open>
  The demo converts 900000 to base 18 and reports it as the representation of 90000; digit 14
  is printed as \<open>D\<close>, because the table has \<open>E\<close> before \<open>D\<close>.
\<close>

lemma anybase_main_prints:
  "\<exists>out. anybase_main = Some (Inr (out, (''8A5D0'', 90000, 18)))"
proof -
  have ds: "digits 900000 18 = [8, 10, 5, 14, 0]"
    by (subst digits.simps, simp)+
  obtain s out where "anybase (int 900000) (int 18) (replicate BUFFER_SIZE nul) = Some (Inr (s, out))"
      "c_str s = map ((!) selection) [8, 10, 5, 14, 0]"
    using anybase_zeroed_buffer [of 18 900000 BUFFER_SIZE] ds
    by (auto simp: BUFFER_SIZE_def int_max_def)
  moreover have "map ((!) selection) [8, 10, 5, 14, 0] = ''8A5D0''" by (simp add: selection_def)
  ultimately show ?thesis
    by (simp add: anybase_main_def c_memset0_def mem_simps)
qed

section \<open>Properties\<close>

text \<open>
  C7. For every base from 2 to 19 and every non-negative \<open>int\<close>, \<open>anybase\<close> ends and leaves in a
  zeroed buffer of \<open>BUFFER_SIZE\<close> bytes a string that reads back as the number, with no access
  outside the buffer or the digit table. The string has at most 31 digits.
\<close>

theorem anybase_roundtrip:
  assumes "2 \<le> b" and "b \<le> 19" and "int n \<le> int_max"
  shows "\<exists>s out. anybase (int n) (int b) (replicate BUFFER_SIZE nul) = Some (Inr (s, out)) \<and>
    read_base b (c_str s) = n \<and> length (c_str s) \<le> 31 \<and> length s = BUFFER_SIZE"
proof -
  have l: "length (digits n b) \<le> 31" using assms by (intro digits_int_length)
  then have "length (digits n b) + 1 < BUFFER_SIZE" by (simp add: BUFFER_SIZE_def)
  with anybase_zeroed_buffer [of b n BUFFER_SIZE] assms obtain s out
    where "anybase (int n) (int b) (replicate BUFFER_SIZE nul) = Some (Inr (s, out))"
      "length s = BUFFER_SIZE" "c_str s = map ((!) selection) (digits n b)" by auto
  then show ?thesis using l assms read_base_digits by auto
qed

theorem anybase_roundtrip_witness:
  "\<exists>s out. anybase 900000 18 (replicate BUFFER_SIZE nul) = Some (Inr (s, out)) \<and>
    read_base 18 (c_str s) = 900000"
  using anybase_roundtrip [of 18 900000] by (auto simp: int_max_def)

text \<open>
  From base 20 on the digit table no longer tells digits apart: 16 and 19 are both printed
  as \<open>G\<close>.
\<close>

theorem anybase_digit_clash:
  assumes "20 \<le> b" and "b \<le> 36"
  shows "\<exists>s s' out out'. anybase 16 (int b) (replicate BUFFER_SIZE nul) = Some (Inr (s, out)) \<and>
    anybase 19 (int b) (replicate BUFFER_SIZE nul) = Some (Inr (s', out')) \<and>
    c_str s = ''G'' \<and> c_str s' = ''G''"
proof -
  have ds: "digits 16 b = [16]" "digits 19 b = [19]"
    using assms by (subst digits.simps, simp add: digits.simps [of 0])+
  obtain s out where "anybase (int 16) (int b) (replicate BUFFER_SIZE nul) = Some (Inr (s, out))"
      "c_str s = map ((!) selection) [16]"
    using anybase_zeroed_buffer [of b 16 BUFFER_SIZE] assms ds
    by (auto simp: BUFFER_SIZE_def int_max_def)
  moreover obtain s' out'
    where "anybase (int 19) (int b) (replicate BUFFER_SIZE nul) = Some (Inr (s', out'))"
      "c_str s' = map ((!) selection) [19]"
    using anybase_zeroed_buffer [of b 19 BUFFER_SIZE] assms ds
    by (auto simp: BUFFER_SIZE_def int_max_def)
  moreover have "selection ! 16 = CHR ''G''" "selection ! 19 = CHR ''G''"
    by (simp_all add: selection_def)
  ultimately show ?thesis by auto
qed

theorem anybase_digit_clash_witness:
  "\<exists>s s' out out'. anybase 16 36 (replicate BUFFER_SIZE nul) = Some (Inr (s, out)) \<and>
    anybase 19 36 (replicate BUFFER_SIZE nul) = Some (Inr (s', out')) \<and>
    c_str s = ''G'' \<and> c_str s' = ''G''"
  using anybase_digit_clash [of 36] by simp

text \<open>
  What happens outside that domain, for every non-zero number: base 0 divides by zero, base 1
  and base -1 recurse forever (in range of a negatable \<open>int\<close>), and a negative number in a base
  of at least 2 reads before the digit table.
\<close>

theorem anybase_bad_arguments:
  assumes "n \<noteq> 0" and "- int_max \<le> n" and "n \<le> int_max" and "nul \<in> set s"
  shows "anybase n 0 s = Some (Inl Div_by_zero) \<and> anybase n 1 s = None \<and>
    anybase n (- 1) s = None \<and> (n < 0 \<longrightarrow> 2 \<le> b \<longrightarrow> anybase n b s = Some (Inl Out_of_bounds))"
proof -
  have "anybase n 0 s = Some (Inl Div_by_zero)"
    using assms(1) by (subst anybase.simps) (simp add: c_div_def)
  moreover have "anybase n b s = Some (Inl Out_of_bounds)" if "n < 0" "2 \<le> b"
    using that assms by (intro anybase_negative) (simp_all add: int_min_def int_max_def)
  ultimately show ?thesis using assms anybase_diverges by simp
qed

theorem anybase_bad_arguments_witness:
  "anybase (- 5) 0 [nul] = Some (Inl Div_by_zero) \<and> anybase (- 5) 1 [nul] = None \<and>
    anybase (- 5) 10 [nul] = Some (Inl Out_of_bounds)"
  using anybase_bad_arguments [of "- 5" "[nul]" 10] by (simp add: int_max_def)

end
