(* ===== verification/C_Stdio.thy ===== *)
theory C_Stdio
  imports C_Prelude
begin

text \<open>
  The calls on standard input that several programs make: \<open>scanf\<close> with \<open>%d\<close>, \<open>getchar\<close> and
  \<open>fgets\<close>. Standard input is the list of the characters still to be read.
\<close>

text \<open>
  \<open>scanf("%d")\<close>: white space, an optional sign, digits. \<open>None\<close> when nothing matches, which
  leaves the rest of the input, from the first character that does not fit, in place. A number
  outside the range of \<open>int\<close> is undefined.
\<close>

definition is_space :: "char \<Rightarrow> bool" where
  "is_space c \<longleftrightarrow> c \<in> set [CHR '' '', CHR 0x09, CHR 0x0A, CHR 0x0B, CHR 0x0C, CHR 0x0D]"

definition is_digit :: "char \<Rightarrow> bool" where
  "is_digit c \<longleftrightarrow> c \<in> set ''0123456789''"

definition digit_of :: "char \<Rightarrow> int" where
  "digit_of c = of_char c - 48"

definition scan_d :: "string \<Rightarrow> (int option \<times> string) cres" where
  "scan_d inp =
     (let s = dropWhile is_space inp;
          (neg, s') = (case s of c # cs \<Rightarrow>
                         if c = CHR ''-'' then (True, cs)
                         else if c = CHR ''+'' then (False, cs) else (False, s)
                       | [] \<Rightarrow> (False, s));
          ds = takeWhile is_digit s' in
      if ds = [] then Inr (None, s')
      else cbind (c_int ((if neg then - 1 else 1) * foldl (\<lambda>a d. a * 10 + digit_of d) 0 ds)) (\<lambda>v.
             Inr (Some v, dropWhile is_digit s')))"

text \<open>
  \<open>getchar\<close> into a \<open>char\<close>: end of input is -1, which is also the character 255.
\<close>

definition c_EOF :: char where
  "c_EOF = CHR 0xFF"

fun c_getchar :: "string \<Rightarrow> char \<times> string" where
  "c_getchar [] = (c_EOF, [])"
| "c_getchar (c # cs) = (c, cs)"

text \<open>
  \<open>fgets(buf, n, stdin)\<close> reads at most \<open>n - 1\<close> characters, up to and including the first newline.
  At end of input it reads nothing, returns NULL and leaves the buffer alone.
\<close>

fun read_line :: "nat \<Rightarrow> string \<Rightarrow> string \<times> string" where
  "read_line 0 inp = ([], inp)"
| "read_line (Suc n) [] = ([], [])"
| "read_line (Suc n) (c # cs) =
     (if c = CHR 0x0A then ([c], cs) else (let (l, rest) = read_line n cs in (c # l, rest)))"

definition c_fgets :: "char list \<Rightarrow> nat \<Rightarrow> string \<Rightarrow> (bool \<times> char list \<times> string) cres" where
  "c_fgets buf n inp =
     (if inp = [] then Inr (False, buf, [])
      else (let (l, rest) = read_line (n - 1) inp in
            cbind (c_strcpy buf 0 l) (\<lambda>buf'. Inr (True, buf', rest))))"

lemma read_line_append: "fst (read_line n inp) @ snd (read_line n inp) = inp"
  by (induction n inp rule: read_line.induct) (auto split: prod.splits)

lemma read_line_length: "length (fst (read_line n inp)) \<le> n"
  by (induction n inp rule: read_line.induct) (auto split: prod.splits)

text \<open>A line that is short enough is read whole.\<close>

lemma read_line_short:
  assumes "CHR 0x0A \<notin> set l" and "length l < n"
  shows "read_line n (l @ CHR 0x0A # rest) = (l @ [CHR 0x0A], rest)"
  using assms
proof (induction l arbitrary: n)
  case Nil
  then show ?case by (cases n) auto
next
  case (Cons c l)
  then show ?case by (cases n) auto
qed

text \<open>Lines that fit, with their newline, in a buffer of 1024 bytes.\<close>

definition plain_line :: "string \<Rightarrow> bool" where
  "plain_line l \<longleftrightarrow> is_cstring l \<and> CHR 0x0A \<notin> set l \<and> length l < 1023"

text \<open>The input that holds the given lines.\<close>

definition unlines :: "string list \<Rightarrow> string" where
  "unlines ls = concat (map (\<lambda>l. l @ [CHR 0x0A]) ls)"

lemma unlines_Cons: "unlines (l # ls) @ rest = l @ CHR 0x0A # unlines ls @ rest"
  by (simp add: unlines_def)

text \<open>Reading such a line with \<open>fgets\<close>.\<close>

lemma fgets_line:
  assumes "CHR 0x0A \<notin> set l" and "length l + 2 \<le> n" and "n \<le> length buf"
  shows "c_fgets buf n (l @ CHR 0x0A # inp) =
    Inr (True, l @ CHR 0x0A # nul # drop (length l + 2) buf, inp)"
proof -
  have "read_line (n - 1) (l @ CHR 0x0A # inp) = (l @ [CHR 0x0A], inp)"
    using assms(1,2) by (intro read_line_short) auto
  then show ?thesis using assms by (simp add: c_fgets_def c_strcpy_start)
qed

lemma fgets_plain_line:
  assumes "plain_line l" and "length buf = 1024"
  shows "c_fgets buf 1024 (l @ CHR 0x0A # inp) =
    Inr (True, l @ CHR 0x0A # nul # drop (length l + 2) buf, inp)"
  using assms by (intro fgets_line) (auto simp: plain_line_def)

end
