(* ===== verification/Yahtzee.thy ===== *)
theory Yahtzee
  imports C_Stdio
begin

text \<open>
  The dice game of \<open>yahtzee\<close>: a cup of heap-allocated dice (\<open>yahtzee.c\<close>) and the interactive
  program that rolls it until all dice agree (\<open>main.c\<close>). The results of the allocation calls,
  the sequence of values \<open>rand\<close> returns and the characters of standard input are parameters.
  The reference is the list of values a roll produces.
\<close>

section \<open>The cup\<close>

record die =
  max_value :: int
  current_value :: int

record cup =
  cup_dice :: addr
  dice_count :: int

text \<open>The heap, and how many values \<open>rand\<close> has returned.\<close>

record yz_state =
  yz_dice :: "addr \<rightharpoonup> die"
  yz_arrays :: "addr \<rightharpoonup> addr list"
  yz_cups :: "addr \<rightharpoonup> cup"
  yz_rand :: nat

definition create_cup :: "addr \<Rightarrow> addr \<Rightarrow> int \<Rightarrow> yz_state \<Rightarrow> addr \<times> yz_state" where
  "create_cup a1 a2 n st =
     (if a1 = NULL then (NULL, st)
      else (a1, st\<lparr>yz_cups := (yz_cups st)(a1 \<mapsto> \<lparr>cup_dice = a2, dice_count = n\<rparr>),
                   yz_arrays := (if a2 = NULL then yz_arrays st
                                 else (yz_arrays st)(a2 \<mapsto> replicate (nat n) NULL))\<rparr>))"

text \<open>\<open>c->dice[i]\<close>, and the assignment to it.\<close>

definition die_at :: "cup \<Rightarrow> nat \<Rightarrow> yz_state \<Rightarrow> addr cres" where
  "die_at c i st = cbind (deref (yz_arrays st) (cup_dice c)) (\<lambda>as.
     if i < length as then Inr (as ! i) else Inl Out_of_bounds)"

definition set_die_at :: "cup \<Rightarrow> nat \<Rightarrow> addr \<Rightarrow> yz_state \<Rightarrow> yz_state cres" where
  "set_die_at c i a st = cbind (deref (yz_arrays st) (cup_dice c)) (\<lambda>as.
     if i < length as then Inr (st\<lparr>yz_arrays := (yz_arrays st)(cup_dice c \<mapsto> as[i := a])\<rparr>)
     else Inl Out_of_bounds)"

text \<open>The loops run over the indices \<open>0 \<le> i < dice_count\<close>, none when the count is negative.\<close>

definition indices :: "cup \<Rightarrow> nat list" where
  "indices c = [0..<nat (dice_count c)]"

text \<open>\<open>alloc i\<close> is the result of the \<open>malloc\<close> for die \<open>i\<close>.\<close>

fun fill_loop :: "(nat \<Rightarrow> addr) \<Rightarrow> int \<Rightarrow> cup \<Rightarrow> nat list \<Rightarrow> yz_state \<Rightarrow> (int \<times> yz_state) cres" where
  "fill_loop alloc m c [] st = Inr (0, st)"
| "fill_loop alloc m c (i # is) st =
     cbind (set_die_at c i (alloc i) st) (\<lambda>st1.
       if alloc i = NULL then Inr (- 1, st1)
       else fill_loop alloc m c is
         (st1\<lparr>yz_dice := (yz_dice st1)(alloc i \<mapsto> \<lparr>max_value = m, current_value = 0\<rparr>)\<rparr>))"

definition fill_cup :: "(nat \<Rightarrow> addr) \<Rightarrow> addr \<Rightarrow> int \<Rightarrow> yz_state \<Rightarrow> (int \<times> yz_state) cres" where
  "fill_cup alloc p m st =
     (if p = NULL then Inr (- 1, st)
      else cbind (deref (yz_cups st) p) (\<lambda>c. fill_loop alloc m c (indices c) st))"

text \<open>\<open>rnd k\<close> is the value the k-th call of \<open>rand\<close> returns.\<close>

definition roll_die :: "(nat \<Rightarrow> int) \<Rightarrow> addr \<Rightarrow> yz_state \<Rightarrow> yz_state cres" where
  "roll_die rnd a st =
     cbind (deref (yz_dice st) a) (\<lambda>d.
     cbind (c_mod (rnd (yz_rand st)) (max_value d)) (\<lambda>r.
     cbind (c_int (r + 1)) (\<lambda>v.
       Inr (st\<lparr>yz_dice := (yz_dice st)(a \<mapsto> d\<lparr>current_value := v\<rparr>), yz_rand := yz_rand st + 1\<rparr>))))"

fun roll_loop :: "(nat \<Rightarrow> int) \<Rightarrow> cup \<Rightarrow> nat list \<Rightarrow> yz_state \<Rightarrow> yz_state cres" where
  "roll_loop rnd c [] st = Inr st"
| "roll_loop rnd c (i # is) st =
     cbind (die_at c i st) (\<lambda>a. cbind (roll_die rnd a st) (\<lambda>st'. roll_loop rnd c is st'))"

definition roll_cup :: "(nat \<Rightarrow> int) \<Rightarrow> addr \<Rightarrow> yz_state \<Rightarrow> yz_state cres" where
  "roll_cup rnd p st =
     cbind (deref (yz_cups st) p) (\<lambda>c. roll_loop rnd c (indices c) st)"

text \<open>The value of die \<open>i\<close>.\<close>

definition value_at :: "cup \<Rightarrow> nat \<Rightarrow> yz_state \<Rightarrow> int cres" where
  "value_at c i st = cbind (die_at c i st) (\<lambda>a.
     cbind (deref (yz_dice st) a) (\<lambda>d. Inr (current_value d)))"

text \<open>What \<open>print_cup\<close> prints: the count, when there is one, and each die's index and value.\<close>

datatype yz_line = Roll_count "32 word" | Die_line nat int

fun print_loop :: "cup \<Rightarrow> nat list \<Rightarrow> yz_state \<Rightarrow> yz_line list cres" where
  "print_loop c [] st = Inr []"
| "print_loop c (i # is) st =
     cbind (value_at c i st) (\<lambda>v. cbind (print_loop c is st) (\<lambda>ls. Inr (Die_line i v # ls)))"

definition print_cup :: "addr \<Rightarrow> 32 word option \<Rightarrow> yz_state \<Rightarrow> yz_line list cres" where
  "print_cup p count st =
     cbind (deref (yz_cups st) p) (\<lambda>c. cbind (print_loop c (indices c) st) (\<lambda>ls.
       Inr ((case count of None \<Rightarrow> [] | Some n \<Rightarrow> [Roll_count n]) @ ls)))"

fun check_loop :: "cup \<Rightarrow> nat list \<Rightarrow> yz_state \<Rightarrow> bool cres" where
  "check_loop c [] st = Inr True"
| "check_loop c (i # is) st =
     cbind (value_at c i st) (\<lambda>v. cbind (value_at c (i - 1) st) (\<lambda>w.
       if v \<noteq> w then Inr False else check_loop c is st))"

definition check_cup :: "addr \<Rightarrow> yz_state \<Rightarrow> bool cres" where
  "check_cup p st =
     cbind (deref (yz_cups st) p) (\<lambda>c. check_loop c [1..<nat (dice_count c)] st)"

section \<open>The program\<close>

text \<open>
  \<open>while (!check_cup(my_cup)) { roll_cup(my_cup); roll_count++; }\<close>; the loop need not end.
\<close>

partial_function (option) roll_until :: "(nat \<Rightarrow> int) \<Rightarrow> addr \<Rightarrow> 32 word \<Rightarrow> yz_state \<Rightarrow>
    (32 word \<times> yz_state) crun" where
  "roll_until rnd p n st =
     (case check_cup p st of
        Inl e \<Rightarrow> Some (Inl e)
      | Inr b \<Rightarrow>
          if b then Some (Inr (n, st))
          else (case roll_cup rnd p st of
                  Inl e \<Rightarrow> Some (Inl e)
                | Inr st' \<Rightarrow> roll_until rnd p (n + 1) st'))"

text \<open>\<open>prompt_int\<close> with the value the variable holds; it asks again as long as that is zero.\<close>

partial_function (option) prompt_int :: "string \<Rightarrow> int \<Rightarrow> (int \<times> string) crun" where
  [code]: "prompt_int inp val =
     (case scan_d inp of
        Inl e \<Rightarrow> Some (Inl e)
      | Inr (r, inp') \<Rightarrow>
          (let v = (case r of None \<Rightarrow> val | Some x \<Rightarrow> x) in
           if v = 0 then prompt_int inp' v else Some (Inr (v, inp'))))"

definition ROLL :: nat where "ROLL = 1"
definition PRINT :: nat where "PRINT = 2"
definition EXIT :: nat where "EXIT = 3"

text \<open>\<open>while ((input = getchar()) != newline && input != EOF) ;\<close>\<close>

fun skip_line :: "string \<Rightarrow> string" where
  "skip_line [] = []"
| "skip_line (c # cs) = (if c = CHR 0x0A \<or> c = c_EOF then cs else skip_line cs)"

function prompt_retry :: "nat \<Rightarrow> string \<Rightarrow> nat \<times> string" where
  "prompt_retry error_count inp =
     (let (c, rest) = c_getchar inp in
      if c = CHR ''r'' \<or> c = CHR ''R'' then (ROLL, snd (c_getchar rest))
      else if c = CHR ''p'' \<or> c = CHR ''P'' then (PRINT, snd (c_getchar rest))
      else if c = CHR ''e'' \<or> c = CHR ''E'' then (EXIT, snd (c_getchar rest))
      else (let rest' = (if c \<noteq> CHR 0x0A then skip_line rest else rest) in
            if error_count + 1 < 3 then prompt_retry (error_count + 1) rest' else (0, rest')))"
  by auto
termination by (relation "measure (\<lambda>(e, _). 3 - e)") auto

declare prompt_retry.simps [simp del]

definition prompt_cont_print :: "string \<Rightarrow> nat \<times> string" where
  "prompt_cont_print inp = prompt_retry 0 inp"

text \<open>The loop of \<open>main\<close> after the cup is filled; the result is the exit status and the output.\<close>

partial_function (option) yz_loop ::
    "(nat \<Rightarrow> int) \<Rightarrow> addr \<Rightarrow> string \<Rightarrow> yz_line list \<Rightarrow> yz_state \<Rightarrow> (int \<times> yz_line list) crun" where
  "yz_loop rnd p inp out st =
     (let (ret, inp') = prompt_cont_print inp in
      if ret = ROLL then
        (case roll_cup rnd p st of
           Inl e \<Rightarrow> Some (Inl e)
         | Inr st1 \<Rightarrow> Option.bind (roll_until rnd p 0 st1) (\<lambda>r. case r of
             Inl e \<Rightarrow> Some (Inl e)
           | Inr (n, st2) \<Rightarrow> (case print_cup p (Some n) st2 of
               Inl e \<Rightarrow> Some (Inl e)
             | Inr ls \<Rightarrow> yz_loop rnd p inp' (out @ ls) st2)))
      else if ret = PRINT then
        (case print_cup p None st of
           Inl e \<Rightarrow> Some (Inl e)
         | Inr ls \<Rightarrow> yz_loop rnd p inp' (out @ ls) st)
      else if ret = EXIT then Some (Inr (0, out))
      else Some (Inr (1, out)))"

definition yz_empty :: yz_state where
  "yz_empty = \<lparr>yz_dice = Map.empty, yz_arrays = Map.empty, yz_cups = Map.empty, yz_rand = 0\<rparr>"

definition yz_main ::
    "addr \<Rightarrow> addr \<Rightarrow> (nat \<Rightarrow> addr) \<Rightarrow> (nat \<Rightarrow> int) \<Rightarrow> string \<Rightarrow> (int \<times> yz_line list) crun" where
  "yz_main a1 a2 alloc rnd inp =
     lbind (prompt_int inp 0) (\<lambda>(m, inp1). lbind (prompt_int inp1 0) (\<lambda>(n, inp2).
       let (p, st) = create_cup a1 a2 n yz_empty in
       lbind (Some (fill_cup alloc p m st)) (\<lambda>(ret, st').
         if ret \<noteq> 0 then Some (Inr (1, []))
         else yz_loop rnd p (snd (c_getchar inp2)) [] st')))"

section \<open>Filled cups\<close>

text \<open>
  \<open>cup_ok p n m as st\<close>: at \<open>p\<close> there is a cup of the \<open>n\<close> dice at the addresses \<open>as\<close>, each with
  maximum value \<open>m\<close>.
\<close>

definition cup_ok :: "addr \<Rightarrow> nat \<Rightarrow> int \<Rightarrow> addr list \<Rightarrow> yz_state \<Rightarrow> bool" where
  "cup_ok p n m as st \<longleftrightarrow> p \<noteq> NULL \<and> length as = n \<and> distinct as \<and>
     (\<exists>c. yz_cups st p = Some c \<and> dice_count c = int n \<and> cup_dice c \<noteq> NULL \<and>
        yz_arrays st (cup_dice c) = Some as) \<and>
     (\<forall>a\<in>set as. a \<noteq> NULL \<and> (\<exists>d. yz_dice st a = Some d \<and> max_value d = m))"

definition dice_values :: "addr list \<Rightarrow> yz_state \<Rightarrow> int list" where
  "dice_values as st = map (\<lambda>a. current_value (the (yz_dice st a))) as"

text \<open>The reference: the values of one roll of \<open>n\<close> dice, from the \<open>r\<close>-th call of \<open>rand\<close> on.\<close>

definition roll_values :: "(nat \<Rightarrow> int) \<Rightarrow> int \<Rightarrow> nat \<Rightarrow> nat \<Rightarrow> int list" where
  "roll_values rnd m n r = map (\<lambda>i. rnd (r + i) mod m + 1) [0..<n]"

definition all_equal :: "int list \<Rightarrow> bool" where
  "all_equal vs \<longleftrightarrow> (\<forall>v\<in>set vs. v = hd vs)"

lemma roll_values_Suc:
  "roll_values rnd m (Suc n) r = (rnd r mod m + 1) # roll_values rnd m n (Suc r)"
proof -
  have "[0..<Suc n] = 0 # map Suc [0..<n]" by (simp add: upt_conv_Cons map_Suc_upt del: upt_Suc)
  then show ?thesis by (simp add: roll_values_def del: upt_Suc)
qed

lemma roll_values_range:
  assumes "0 < m" and "v \<in> set (roll_values rnd m n r)"
  shows "1 \<le> v" and "v \<le> m"
  using assms by (auto simp: roll_values_def pos_mod_sign pos_mod_bound add1_zle_eq)

lemma all_equal_neighbours:
  "all_equal vs \<longleftrightarrow> (\<forall>i\<in>set [1..<length vs]. vs ! i = vs ! (i - 1))"
proof
  assume eq: "all_equal vs"
  have hd: "vs ! i = hd vs" if "i < length vs" for i
    using eq nth_mem [OF that] by (simp add: all_equal_def)
  show "\<forall>i\<in>set [1..<length vs]. vs ! i = vs ! (i - 1)"
  proof
    fix i assume "i \<in> set [1..<length vs]"
    then have i: "i < length vs" "i - 1 < length vs" by auto
    show "vs ! i = vs ! (i - 1)" by (rule trans [OF hd [OF i(1)] sym [OF hd [OF i(2)]]])
  qed
next
  assume nb: "\<forall>i\<in>set [1..<length vs]. vs ! i = vs ! (i - 1)"
  have first: "vs ! i = vs ! 0" if "i < length vs" for i
    using that
  proof (induction i)
    case (Suc i)
    then have "vs ! Suc i = vs ! i" using bspec [OF nb, of "Suc i"] by simp
    also have "\<dots> = vs ! 0" using Suc by simp
    finally show ?case .
  qed simp
  show "all_equal vs"
    unfolding all_equal_def
  proof
    fix v assume "v \<in> set vs"
    then obtain i where "i < length vs" "v = vs ! i" by (auto simp: in_set_conv_nth)
    moreover from this(1) have "hd vs = vs ! 0" by (intro hd_conv_nth) auto
    ultimately show "v = hd vs" using first [of i] by simp
  qed
qed

text \<open>The accesses of the loops on a filled cup.\<close>

lemma cup_okE:
  assumes "cup_ok p n m as st"
  obtains c where "deref (yz_cups st) p = Inr c" "nat (dice_count c) = n" "indices c = [0..<n]"
    "\<And>i. i < n \<Longrightarrow> die_at c i st = Inr (as ! i)"
    "\<And>i. i < n \<Longrightarrow> value_at c i st = Inr (dice_values as st ! i)"
    "yz_cups st p = Some c" "cup_dice c \<noteq> NULL" "yz_arrays st (cup_dice c) = Some as"
proof -
  from assms obtain c where c: "yz_cups st p = Some c" "dice_count c = int n" "cup_dice c \<noteq> NULL"
      "yz_arrays st (cup_dice c) = Some as" and p: "p \<noteq> NULL" and l: "length as = n"
    by (auto simp: cup_ok_def)
  have die: "die_at c i st = Inr (as ! i)" if "i < n" for i
    using c l that by (simp add: die_at_def)
  moreover have "value_at c i st = Inr (dice_values as st ! i)" if "i < n" for i
  proof -
    have "as ! i \<in> set as" using that l by simp
    then obtain d where "yz_dice st (as ! i) = Some d" "as ! i \<noteq> NULL"
      using assms by (auto simp: cup_ok_def)
    then show ?thesis using die [OF that] l that by (simp add: value_at_def dice_values_def)
  qed
  ultimately show thesis using c p by (intro that [of c]) (auto simp: indices_def)
qed

lemma roll_die_ok:
  assumes "cup_ok p n m as st" and "i < n" and "0 < m" and "m \<le> int_max"
    and "0 \<le> rnd (yz_rand st)" and "rnd (yz_rand st) \<le> int_max"
  shows "\<exists>st'. roll_die rnd (as ! i) st = Inr st' \<and> cup_ok p n m as st' \<and>
    yz_rand st' = Suc (yz_rand st) \<and> yz_cups st' = yz_cups st \<and> yz_arrays st' = yz_arrays st \<and>
    dice_values as st' = (dice_values as st)[i := rnd (yz_rand st) mod m + 1]"
proof -
  have i: "as ! i \<in> set as" "distinct as" "i < length as" using assms(1,2) by (auto simp: cup_ok_def)
  then obtain d where d: "yz_dice st (as ! i) = Some d" "max_value d = m" "as ! i \<noteq> NULL"
    using assms(1) unfolding cup_ok_def by blast
  let ?v = "rnd (yz_rand st) mod m + 1"
  let ?st = "st\<lparr>yz_dice := (yz_dice st)(as ! i \<mapsto> d\<lparr>current_value := ?v\<rparr>), yz_rand := Suc (yz_rand st)\<rparr>"
  have "0 \<le> rnd (yz_rand st) mod m" "rnd (yz_rand st) mod m < m"
    using assms(3) by (simp_all add: pos_mod_sign pos_mod_bound)
  then have "c_int ?v = Inr ?v" using assms(4) by (simp add: int_min_def)
  then have "roll_die rnd (as ! i) st = Inr ?st"
    using d c_div_mod_nonneg(2) [OF assms(5,6,3)] by (simp add: roll_die_def)
  moreover have "cup_ok p n m as ?st" using assms(1) d by (auto simp: cup_ok_def)
  moreover have "dice_values as ?st = (dice_values as st)[i := ?v]"
    using i by (intro nth_equalityI) (auto simp: dice_values_def nth_list_update nth_eq_iff_index_eq)
  ultimately show ?thesis by (intro exI [of _ ?st]) simp
qed

lemma roll_loop_values:
  assumes "cup_ok p n m as st" and "yz_cups st p = Some c" and "k \<le> n" and "0 < m" and "m \<le> int_max"
    and rnd: "\<And>j. 0 \<le> rnd j \<and> rnd j \<le> int_max"
  shows "\<exists>st'. roll_loop rnd c [k..<n] st = Inr st' \<and> cup_ok p n m as st' \<and>
    yz_rand st' = yz_rand st + (n - k) \<and>
    dice_values as st' = take k (dice_values as st) @ roll_values rnd m (n - k) (yz_rand st)"
  using assms(1-3)
proof (induction "n - k" arbitrary: k st)
  case 0
  then have "k = n" "length (dice_values as st) = n" by (auto simp: cup_ok_def dice_values_def)
  with 0 show ?case by (simp add: roll_values_def)
next
  case (Suc x)
  then have k: "k < n" "[k..<n] = k # [Suc k..<n]" "n - k = Suc (n - Suc k)"
    by (auto simp: upt_conv_Cons)
  from roll_die_ok [OF Suc.prems(1) k(1) assms(4,5)] rnd obtain st1 where st1:
    "roll_die rnd (as ! k) st = Inr st1" "cup_ok p n m as st1" "yz_rand st1 = Suc (yz_rand st)"
    "yz_cups st1 = yz_cups st"
    "dice_values as st1 = (dice_values as st)[k := rnd (yz_rand st) mod m + 1]" by blast
  from Suc.hyps(1) [of "Suc k" st1] st1 Suc k obtain st2 where st2:
    "roll_loop rnd c [Suc k..<n] st1 = Inr st2" "cup_ok p n m as st2"
    "yz_rand st2 = yz_rand st + (n - k)"
    "dice_values as st2 = take (Suc k) (dice_values as st1) @ roll_values rnd m (n - Suc k) (yz_rand st1)"
    by auto
  have "k < length (dice_values as st)" using Suc.prems(1) k by (simp add: dice_values_def cup_ok_def)
  then have "take (Suc k) (dice_values as st1) = take k (dice_values as st) @ [rnd (yz_rand st) mod m + 1]"
    using st1(5) by (simp add: take_Suc_conv_app_nth)
  moreover have "die_at c k st = Inr (as ! k)"
    using cup_okE [OF Suc.prems(1)] Suc.prems(2) k(1) by (metis option.inject)
  ultimately show ?case using k st1 st2 by (auto simp: roll_values_Suc)
qed

lemma roll_cup_values:
  assumes "cup_ok p n m as st" and "0 < m" and "m \<le> int_max"
    and "\<And>j. 0 \<le> rnd j \<and> rnd j \<le> int_max"
  shows "\<exists>st'. roll_cup rnd p st = Inr st' \<and> cup_ok p n m as st' \<and>
    yz_rand st' = yz_rand st + n \<and> dice_values as st' = roll_values rnd m n (yz_rand st)"
proof -
  obtain c where "deref (yz_cups st) p = Inr c" "indices c = [0..<n]" "yz_cups st p = Some c"
    using cup_okE [OF assms(1)] by metis
  then show ?thesis
    using roll_loop_values [OF assms(1) _ le0 assms(2,3), of c rnd] assms(4)
    by (simp add: roll_cup_def)
qed

lemma check_loop_eq:
  assumes "\<And>i. i < n \<Longrightarrow> value_at c i st = Inr (vs ! i)" and "\<forall>i\<in>set ix. i < n"
  shows "check_loop c ix st = Inr (\<forall>i\<in>set ix. vs ! i = vs ! (i - 1))"
  using assms(2)
proof (induction ix)
  case (Cons i ix)
  then have "value_at c i st = Inr (vs ! i)" "value_at c (i - 1) st = Inr (vs ! (i - 1))"
    using assms(1) by auto
  with Cons show ?case by simp
qed simp

lemma check_cup_eq:
  assumes "cup_ok p n m as st"
  shows "check_cup p st = Inr (all_equal (dice_values as st))"
proof -
  from cup_okE [OF assms] obtain c where c: "deref (yz_cups st) p = Inr c" "nat (dice_count c) = n"
    "\<And>i. i < n \<Longrightarrow> value_at c i st = Inr (dice_values as st ! i)" by metis
  have "length (dice_values as st) = n" using assms by (simp add: cup_ok_def dice_values_def)
  then show ?thesis
    using c(1,2) check_loop_eq [OF c(3), where ix = "[1..<n]"]
    by (simp add: check_cup_def all_equal_neighbours)
qed

text \<open>Filling a new cup.\<close>

lemma fill_loop_ok:
  assumes "k \<le> n" and "\<And>i. i < n \<Longrightarrow> alloc i \<noteq> NULL" and "inj_on alloc {..<n}"
    and "cup_dice c \<noteq> NULL" and "yz_arrays st (cup_dice c) = Some as" and "length as = n"
    and "\<forall>i<k. as ! i = alloc i \<and> yz_dice st (alloc i) = Some \<lparr>max_value = m, current_value = 0\<rparr>"
  shows "\<exists>st'. fill_loop alloc m c [k..<n] st = Inr (0, st') \<and> yz_cups st' = yz_cups st \<and>
    yz_rand st' = yz_rand st \<and> yz_arrays st' (cup_dice c) = Some (map alloc [0..<n]) \<and>
    (\<forall>i<n. yz_dice st' (alloc i) = Some \<lparr>max_value = m, current_value = 0\<rparr>)"
  using assms(1,5-7)
proof (induction "n - k" arbitrary: k st as)
  case 0
  then have "as = map alloc [0..<n]" by (intro nth_equalityI) auto
  with 0 show ?case by simp
next
  case (Suc x)
  then have k: "k < n" "[k..<n] = k # [Suc k..<n]" by (auto simp: upt_conv_Cons)
  let ?d = "\<lparr>max_value = m, current_value = 0\<rparr>"
  let ?st = "st\<lparr>yz_arrays := (yz_arrays st)(cup_dice c \<mapsto> as[k := alloc k]),
    yz_dice := (yz_dice st)(alloc k \<mapsto> ?d)\<rparr>"
  have "as[k := alloc k] ! i = alloc i \<and> yz_dice ?st (alloc i) = Some ?d" if "i < Suc k" for i
    using Suc.prems(3,4) that k(1) by (cases "i = k") auto
  then have "\<exists>st'. fill_loop alloc m c [Suc k..<n] ?st = Inr (0, st') \<and> yz_cups st' = yz_cups ?st \<and>
      yz_rand st' = yz_rand ?st \<and> yz_arrays st' (cup_dice c) = Some (map alloc [0..<n]) \<and>
      (\<forall>i<n. yz_dice st' (alloc i) = Some ?d)"
    using Suc.hyps(2) Suc.prems k(1) by (intro Suc.hyps(1) [of "Suc k" ?st "as[k := alloc k]"]) auto
  then show ?case
    using Suc.prems k assms(2,4) by (simp add: set_die_at_def)
qed

lemma fill_new_cup:
  assumes "a1 \<noteq> NULL" and "a2 \<noteq> NULL" and "\<And>i. i < n \<Longrightarrow> alloc i \<noteq> NULL" and "inj_on alloc {..<n}"
  shows "\<exists>st'. fill_cup alloc a1 m (snd (create_cup a1 a2 (int n) st)) = Inr (0, st') \<and>
    fst (create_cup a1 a2 (int n) st) = a1 \<and> cup_ok a1 n m (map alloc [0..<n]) st' \<and>
    yz_rand st' = yz_rand st \<and> dice_values (map alloc [0..<n]) st' = replicate n 0"
proof -
  let ?c = "\<lparr>cup_dice = a2, dice_count = int n\<rparr>"
  let ?st = "snd (create_cup a1 a2 (int n) st)"
  have st: "yz_cups ?st a1 = Some ?c" "yz_arrays ?st a2 = Some (replicate n NULL)"
    "yz_rand ?st = yz_rand st" "fst (create_cup a1 a2 (int n) st) = a1"
    using assms(1,2) by (simp_all add: create_cup_def)
  from fill_loop_ok [OF le0 assms(3,4), where c = ?c and st = ?st and m = m] st assms(2)
  obtain st' where st': "fill_loop alloc m ?c [0..<n] ?st = Inr (0, st')" "yz_cups st' = yz_cups ?st"
    "yz_rand st' = yz_rand ?st" "yz_arrays st' a2 = Some (map alloc [0..<n])"
    "\<forall>i<n. yz_dice st' (alloc i) = Some \<lparr>max_value = m, current_value = 0\<rparr>" by auto
  have "fill_cup alloc a1 m ?st = Inr (0, st')"
    using st(1) st'(1) assms(1) by (simp add: fill_cup_def indices_def)
  moreover have "cup_ok a1 n m (map alloc [0..<n]) st'"
    using assms st st' by (auto simp: cup_ok_def distinct_map atLeast0LessThan)
  moreover have "dice_values (map alloc [0..<n]) st' = replicate n 0"
    using st'(5) by (intro nth_equalityI) (simp_all add: dice_values_def)
  ultimately show ?thesis using st st'(3) by auto
qed

section \<open>Rolling until all dice agree\<close>

lemma roll_until_step:
  "check_cup p st = Inr False \<Longrightarrow> roll_cup rnd p st = Inr st' \<Longrightarrow>
   roll_until rnd p n st = roll_until rnd p (n + 1) st'"
  by (subst roll_until.simps) simp

lemma roll_until_stop: "check_cup p st = Inr True \<Longrightarrow> roll_until rnd p n st = Some (Inr (n, st))"
  by (subst roll_until.simps) simp

lemma roll_until_ends:
  assumes "cup_ok p n m as st" and "0 < m" and "m \<le> int_max"
    and rnd: "\<And>j. 0 \<le> rnd j \<and> rnd j \<le> int_max"
    and "dice_values as st = roll_values rnd m n r" and "yz_rand st = r + n"
    and "all_equal (roll_values rnd m n (r + k * n))"
    and "\<forall>i<k. \<not> all_equal (roll_values rnd m n (r + i * n))"
  shows "\<exists>st'. roll_until rnd p w st = Some (Inr (w + of_nat k, st')) \<and> cup_ok p n m as st' \<and>
    dice_values as st' = roll_values rnd m n (r + k * n) \<and> yz_rand st' = r + Suc k * n"
  using assms(1,5-8)
proof (induction k arbitrary: st r w)
  case 0
  then have "check_cup p st = Inr True" by (simp add: check_cup_eq [OF "0.prems"(1)])
  with 0 show ?case by (auto simp: roll_until_stop)
next
  case (Suc k)
  have "\<not> all_equal (dice_values as st)" using Suc.prems(2) Suc.prems(5) by force
  then have chk: "check_cup p st = Inr False" by (simp add: check_cup_eq [OF Suc.prems(1)])
  from roll_cup_values [OF Suc.prems(1) assms(2,3), of rnd] rnd Suc.prems(3) obtain st1 where st1:
    "roll_cup rnd p st = Inr st1" "cup_ok p n m as st1" "yz_rand st1 = (r + n) + n"
    "dice_values as st1 = roll_values rnd m n (r + n)" by auto
  have "\<not> all_equal (roll_values rnd m n ((r + n) + i * n))" if "i < k" for i
    using Suc.prems(5) that by (auto dest: spec [of _ "Suc i"] simp: ac_simps)
  with Suc.IH [OF st1(2,4,3), of "w + 1"] Suc.prems(4) show ?case
    by (simp add: roll_until_step [OF chk st1(1)] ac_simps)
qed

lemma roll_until_diverges:
  assumes "cup_ok p n m as st" and "0 < m" and "m \<le> int_max"
    and rnd: "\<And>j. 0 \<le> rnd j \<and> rnd j \<le> int_max"
    and "dice_values as st = roll_values rnd m n r" and "yz_rand st = r + n"
    and "\<forall>i. \<not> all_equal (roll_values rnd m n (r + i * n))"
  shows "roll_until rnd p w st = None"
proof -
  let ?bad = "\<lambda>st. \<exists>r. cup_ok p n m as st \<and> dice_values as st = roll_values rnd m n r \<and>
    yz_rand st = r + n \<and> (\<forall>i. \<not> all_equal (roll_values rnd m n (r + i * n)))"
  let ?P = "\<lambda>g q w st x. \<not> (g = rnd \<and> q = p \<and> ?bad st)"
  have "?P rnd p w st x" if "roll_until rnd p w st = Some x" for x
    using that
  proof (rule roll_until.raw_induct [of ?P, rotated])
    fix rec :: "(nat \<Rightarrow> int) \<Rightarrow> addr \<Rightarrow> 32 word \<Rightarrow> yz_state \<Rightarrow> (32 word \<times> yz_state) crun"
      and g q w st x
    assume ih: "\<And>g q w st x. rec g q w st = Some x \<Longrightarrow> ?P g q w st x"
      and body: "(case check_cup q st of Inl e \<Rightarrow> Some (Inl e)
        | Inr b \<Rightarrow> if b then Some (Inr (w, st)) else (case roll_cup g q st of Inl e \<Rightarrow> Some (Inl e)
            | Inr st' \<Rightarrow> rec g q (w + 1) st')) = Some x"
    show "?P g q w st x"
    proof
      assume "g = rnd \<and> q = p \<and> ?bad st"
      then obtain r where *: "g = rnd" "q = p" "cup_ok p n m as st"
        "dice_values as st = roll_values rnd m n r" "yz_rand st = r + n"
        and none: "\<And>i. \<not> all_equal (roll_values rnd m n (r + i * n))" by blast
      have "check_cup p st = Inr False" using check_cup_eq [OF *(3)] *(4) none [of 0] by simp
      moreover from roll_cup_values [OF *(3) assms(2,3), of rnd] rnd *(5) obtain st1 where st1:
        "roll_cup rnd p st = Inr st1" "cup_ok p n m as st1" "yz_rand st1 = (r + n) + n"
        "dice_values as st1 = roll_values rnd m n (r + n)" by auto
      ultimately have "rec rnd p (w + 1) st1 = Some x" using body *(1,2) by simp
      moreover have "\<not> all_equal (roll_values rnd m n ((r + n) + i * n))" for i
        using none [of "Suc i"] by (simp add: ac_simps)
      ultimately show False using ih st1 by blast
    qed
  qed
  then show ?thesis using assms by (cases "roll_until rnd p w st") blast+
qed

section \<open>Standard input\<close>

lemma skip_line_length: "length (skip_line s) \<le> length s"
  by (induction s) auto

lemma prompt_retry_result: "fst (prompt_retry e inp) \<in> {0, ROLL, PRINT, EXIT}"
proof (induction e inp rule: prompt_retry.induct)
  case (1 e inp)
  then show ?case by (subst prompt_retry.simps) (auto simp: Let_def split: prod.splits)
qed

text \<open>Three lines that start with none of the letters end the game.\<close>

lemma prompt_three_bad_lines:
  assumes "\<forall>l\<in>set [l1, l2, l3]. l \<noteq> [] \<and> hd l \<notin> set ''rRpPeE'' \<and> CHR 0x0A \<notin> set l \<and> c_EOF \<notin> set l"
  shows "prompt_cont_print (l1 @ CHR 0x0A # l2 @ CHR 0x0A # l3 @ CHR 0x0A # rest) = (0, rest)"
proof -
  have skip: "skip_line (l @ CHR 0x0A # s) = s" if "CHR 0x0A \<notin> set l" "c_EOF \<notin> set l" for l s
    using that by (induction l) auto
  have one: "prompt_retry e (l @ CHR 0x0A # s) = (if e + 1 < 3 then prompt_retry (e + 1) s else (0, s))"
    if "l \<in> set [l1, l2, l3]" for l s e
  proof -
    have l: "l \<noteq> []" "hd l \<notin> set ''rRpPeE''" "CHR 0x0A \<notin> set l" "c_EOF \<notin> set l"
      using assms that by blast+
    then obtain c cs where "l = c # cs" by (cases l) auto
    then show ?thesis using l skip [of cs s] by (subst prompt_retry.simps) auto
  qed
  show ?thesis
    using one [of l1 0] one [of l2 1] one [of l3 2]
    by (simp add: prompt_cont_print_def numeral_2_eq_2)
qed

section \<open>Properties\<close>

text \<open>
  A cup created and filled with successful allocations holds \<open>n\<close> dice of the given maximum,
  and rolling it gives every die a value between 1 and that maximum, the next \<open>n\<close> values of
  \<open>rand\<close> modulo the maximum plus one, in order; the cup stays well formed and no access faults.
  \<open>check_cup\<close> then tells whether all values are equal.
\<close>

theorem cup_roll_values:
  assumes "a1 \<noteq> NULL" and "a2 \<noteq> NULL" and "\<forall>i<n. alloc i \<noteq> NULL" and "inj_on alloc {..<n}"
    and "0 < m" and "m \<le> int_max" and "\<forall>j. 0 \<le> rnd j \<and> rnd j \<le> int_max"
  shows "\<exists>p st1 st2 st3. create_cup a1 a2 (int n) st = (p, st1) \<and>
    fill_cup alloc p m st1 = Inr (0, st2) \<and> roll_cup rnd p st2 = Inr st3 \<and>
    cup_ok p n m (map alloc [0..<n]) st3 \<and>
    dice_values (map alloc [0..<n]) st3 = roll_values rnd m n (yz_rand st) \<and>
    (\<forall>v\<in>set (dice_values (map alloc [0..<n]) st3). 1 \<le> v \<and> v \<le> m) \<and>
    check_cup p st3 = Inr (all_equal (roll_values rnd m n (yz_rand st)))"
proof -
  let ?as = "map alloc [0..<n]"
  from fill_new_cup [OF assms(1,2) _ assms(4), of m st] assms(3) obtain st2 where st2:
    "fill_cup alloc a1 m (snd (create_cup a1 a2 (int n) st)) = Inr (0, st2)"
    "fst (create_cup a1 a2 (int n) st) = a1" "cup_ok a1 n m ?as st2" "yz_rand st2 = yz_rand st" by auto
  from roll_cup_values [OF st2(3) assms(5,6), of rnd] assms(7) st2(4) obtain st3 where st3:
    "roll_cup rnd a1 st2 = Inr st3" "cup_ok a1 n m ?as st3"
    "dice_values ?as st3 = roll_values rnd m n (yz_rand st)" by auto
  have "create_cup a1 a2 (int n) st = (a1, snd (create_cup a1 a2 (int n) st))"
    using st2(2) by (metis prod.collapse)
  then show ?thesis
    using st2(1) st3 check_cup_eq [OF st3(2)] roll_values_range [OF assms(5)]
    by (intro exI [of _ a1] exI conjI) auto
qed

theorem cup_roll_values_witness:
  "\<exists>p st1 st2 st3. create_cup 8 16 2 yz_empty = (p, st1) \<and>
    fill_cup (\<lambda>i. 32 + of_nat i) p 6 st1 = Inr (0, st2) \<and> roll_cup (\<lambda>j. 7 * int (j mod 2)) p st2 = Inr st3 \<and>
    check_cup p st3 = Inr False"
proof -
  have "inj_on (\<lambda>i. 32 + of_nat i :: addr) {..<2}"
    by (auto simp: inj_on_def less_2_cases_iff)
  moreover have "32 + of_nat i \<noteq> (0 :: addr)" if "i < 2" for i :: nat
    using that by (auto simp: less_2_cases_iff)
  moreover have "roll_values (\<lambda>j. 7 * int (j mod 2)) 6 2 0 = [1, 2]"
    by (simp add: roll_values_def upt_rec)
  moreover have "\<not> all_equal [1, 2]" by (simp add: all_equal_def)
  moreover have "0 \<le> 7 * int (j mod 2) \<and> 7 * int (j mod 2) \<le> int_max" for j
    using mod_less_divisor [of 2 j] unfolding int_max_def by linarith
  ultimately show ?thesis
    using cup_roll_values [of 8 16 2 "\<lambda>i. 32 + of_nat i" 6 "\<lambda>j. 7 * int (j mod 2)" yz_empty]
    by (simp add: yz_empty_def int_max_def) metis
qed

text \<open>
  The roll command, an initial roll followed by rolls until all dice agree: it ends exactly
  when some roll of the sequence has all dice equal, and then the dice hold the first such roll
  and the count is the number of rolls after the initial one (modulo the width of \<open>unsigned int\<close>).
\<close>

theorem roll_until_first_match:
  assumes "cup_ok p n m as st" and "0 < m" and "m \<le> int_max"
    and "\<forall>j. 0 \<le> rnd j \<and> rnd j \<le> int_max"
  shows "\<exists>st1. roll_cup rnd p st = Inr st1 \<and>
    (case roll_until rnd p 0 st1 of
       None \<Rightarrow> \<forall>k. \<not> all_equal (roll_values rnd m n (yz_rand st + k * n))
     | Some (Inl _) \<Rightarrow> False
     | Some (Inr (w, st2)) \<Rightarrow> \<exists>k. w = of_nat k \<and> all_equal (roll_values rnd m n (yz_rand st + k * n)) \<and>
         (\<forall>i<k. \<not> all_equal (roll_values rnd m n (yz_rand st + i * n))) \<and>
         dice_values as st2 = roll_values rnd m n (yz_rand st + k * n) \<and> cup_ok p n m as st2)"
proof -
  let ?R = "\<lambda>k. roll_values rnd m n (yz_rand st + k * n)"
  have rnd: "\<And>j. 0 \<le> rnd j \<and> rnd j \<le> int_max" using assms(4) by blast
  from roll_cup_values [OF assms(1-3), of rnd] rnd obtain st1 where st1: "roll_cup rnd p st = Inr st1"
    "cup_ok p n m as st1" "yz_rand st1 = yz_rand st + n" "dice_values as st1 = roll_values rnd m n (yz_rand st)"
    by blast
  show ?thesis
  proof (cases "\<exists>k. all_equal (?R k)")
    case True
    define k where "k = (LEAST k. all_equal (?R k))"
    have k: "all_equal (?R k)" "\<forall>i<k. \<not> all_equal (?R i)"
      using True by (auto simp: k_def intro: LeastI_ex dest: not_less_Least)
    from roll_until_ends [OF st1(2) assms(2,3) rnd st1(4,3) k, of 0] st1(1) k show ?thesis by auto
  next
    case False
    then have "\<forall>k. \<not> all_equal (?R k)" by blast
    with roll_until_diverges [OF st1(2) assms(2,3) rnd st1(4,3), of 0] st1(1) show ?thesis by simp
  qed
qed

theorem roll_until_first_match_witness:
  "\<exists>st1. roll_cup (\<lambda>_. 3) 8 \<lparr>yz_dice = [32 \<mapsto> \<lparr>max_value = 6, current_value = 0\<rparr>],
      yz_arrays = [16 \<mapsto> [32]], yz_cups = [8 \<mapsto> \<lparr>cup_dice = 16, dice_count = 1\<rparr>], yz_rand = 0\<rparr> = Inr st1 \<and>
    roll_until (\<lambda>_. 3) 8 0 st1 \<noteq> None"
proof -
  let ?st = "\<lparr>yz_dice = [32 \<mapsto> \<lparr>max_value = 6, current_value = 0\<rparr>],
      yz_arrays = [16 \<mapsto> [32]], yz_cups = [8 \<mapsto> \<lparr>cup_dice = 16, dice_count = 1\<rparr>], yz_rand = 0\<rparr>"
  have "cup_ok 8 1 6 [32] ?st" by (simp add: cup_ok_def)
  moreover have "all_equal (roll_values (\<lambda>_. 3) 6 1 0)" by (simp add: roll_values_def all_equal_def)
  ultimately show ?thesis
    using roll_until_first_match [of 8 1 6 "[32]" ?st "\<lambda>_. 3"]
    by (auto simp: int_max_def dest: spec [of _ 0] split: option.splits)
qed

end
