(* ===== verification/Yahtzee_Game.thy ===== *)
theory Yahtzee_Game
  imports Yahtzee
begin

text \<open>
  The whole program of \<open>yahtzee\<close> on what is typed: two numbers, then commands, one per line. The
  reference is a game on lists of values, without heap, input or loops.
\<close>

section \<open>The reference game\<close>








text \<open>What is typed: each command with its newline.\<close>

definition typed :: "(char \<times> nat) list \<Rightarrow> string" where
  "typed cs = concat (map (\<lambda>(c, _). [c, CHR 0x0A]) cs)"

lemma typed_simps [simp]: "typed [] = []" "typed ((c, k) # cs) = c # CHR 0x0A # typed cs"
  by (simp_all add: typed_def)

section \<open>Commands\<close>








section \<open>Numbers\<close>










section \<open>The whole program\<close>



end
