(* ===== verification/Thread_Runs.thy ===== *)
theory Thread_Runs
  imports C_Prelude
begin

text \<open>
  Runs of a multi-threaded program. A program is a relation between states for the steps its
  threads take under some schedule, and a second one for what the environment may do between
  them (a spurious wakeup, say). The locale \<open>thread_program\<close> states what has to be shown of the
  single steps, and gives what holds of whole runs: a safety property of every reachable state,
  a bound on the number of steps and the result of every run that has come to an end.
\<close>

text \<open>A run of \<open>n\<close> program steps.\<close>

inductive steps :: "('s \<Rightarrow> 's \<Rightarrow> bool) \<Rightarrow> nat \<Rightarrow> 's \<Rightarrow> 's \<Rightarrow> bool" for prog where
  steps_none: "steps prog 0 s s"
| steps_more: "prog s t \<Longrightarrow> steps prog n t u \<Longrightarrow> steps prog (Suc n) s u"

inductive_cases steps_SucE: "steps prog (Suc n) s u"

lemma steps_append: "steps prog n s t \<Longrightarrow> steps prog m t u \<Longrightarrow> steps prog (n + m) s u"
  by (induction rule: steps.induct) (auto intro: steps.intros)

lemma steps_snoc: "steps prog n s t \<Longrightarrow> prog t u \<Longrightarrow> steps prog (Suc n) s u"
  by (induction rule: steps.induct) (auto intro: steps.intros)

text \<open>A state reached by program and environment steps in any order.\<close>

inductive reaches :: "('s \<Rightarrow> 's \<Rightarrow> bool) \<Rightarrow> ('s \<Rightarrow> 's \<Rightarrow> bool) \<Rightarrow> 's \<Rightarrow> 's \<Rightarrow> bool" for prog env s where
  reaches_start: "reaches prog env s s"
| reaches_prog: "reaches prog env s t \<Longrightarrow> prog t u \<Longrightarrow> reaches prog env s u"
| reaches_env: "reaches prog env s t \<Longrightarrow> env t u \<Longrightarrow> reaches prog env s u"

lemma steps_reaches: "steps prog n s t \<Longrightarrow> reaches prog env r s \<Longrightarrow> reaches prog env r t"
  by (induction rule: steps.induct) (auto intro: reaches_prog)

text \<open>A state where no thread can take a step.\<close>

definition stuck :: "('s \<Rightarrow> 's \<Rightarrow> bool) \<Rightarrow> 's \<Rightarrow> bool" where
  "stuck prog s \<longleftrightarrow> \<not> (\<exists>t. prog s t)"

locale thread_program =
  fixes init :: 's
    and prog env :: "'s \<Rightarrow> 's \<Rightarrow> bool"
    and inv :: "'s \<Rightarrow> bool"
    and rank :: "'s \<Rightarrow> nat"
    and ended :: "'s \<Rightarrow> bool"
  assumes inv_init: "inv init"
    and inv_prog: "inv s \<Longrightarrow> prog s t \<Longrightarrow> inv t"
    and inv_env: "inv s \<Longrightarrow> env s t \<Longrightarrow> inv t"
    and rank_prog: "inv s \<Longrightarrow> prog s t \<Longrightarrow> rank t < rank s"
    and progress: "inv s \<Longrightarrow> \<not> ended s \<Longrightarrow> \<exists>t. prog s t"
begin

lemma reaches_inv: "reaches prog env init s \<Longrightarrow> inv s"
  by (induction rule: reaches.induct) (auto intro: inv_init inv_prog inv_env)

lemma steps_inv_rank: "steps prog n s t \<Longrightarrow> inv s \<Longrightarrow> inv t \<and> n + rank t \<le> rank s"
proof (induction rule: steps.induct)
  case (steps_more s t n u)
  then show ?case using inv_prog rank_prog [of s t] by fastforce
qed simp

lemma steps_bounded: "reaches prog env init s \<Longrightarrow> steps prog n s t \<Longrightarrow> n \<le> rank s"
  using reaches_inv steps_inv_rank by fastforce

lemma stuck_ended:
  "reaches prog env init s \<Longrightarrow> steps prog n s t \<Longrightarrow> stuck prog t \<Longrightarrow> inv t \<and> ended t"
  using reaches_inv steps_inv_rank progress unfolding stuck_def by blast

lemma not_stuck_before_end:
  "reaches prog env init s \<Longrightarrow> \<not> ended s \<Longrightarrow> \<not> stuck prog s"
  using reaches_inv progress by (auto simp: stuck_def)

text \<open>Every run can be continued to its end, and ends.\<close>

lemma runs_to_end:
  assumes "inv s"
  shows "\<exists>n t. steps prog n s t \<and> stuck prog t \<and> inv t"
  using assms
proof (induction "rank s" arbitrary: s rule: less_induct)
  case less
  show ?case
  proof (cases "stuck prog s")
    case True
    with less.prems show ?thesis by (blast intro: steps_none)
  next
    case False
    then obtain t where "prog s t" by (auto simp: stuck_def)
    with less rank_prog inv_prog obtain n u where "steps prog n t u" "stuck prog u" "inv u" by blast
    with \<open>prog s t\<close> show ?thesis by (blast intro: steps_more)
  qed
qed

end

end
