(* ===== verification/Conditional_Wait.thy ===== *)
theory Conditional_Wait
  imports Thread_Runs
begin

text \<open>
  The four threads of \<open>conditional_wait\<close>, which print in turn: each takes the mutex, prints and
  advances \<open>count\<close> when it is its turn, and otherwise waits on the condition variable. The state
  holds the shared variables and one program counter per thread; \<open>thread_body k\<close> is
  \<open>function\<close>k, one call or assignment per step. POSIX allows \<open>pthread_cond_wait\<close> to return with
  no broadcast: those spurious wakeups are the environment's steps. All calls are taken to
  succeed (the program ignores their results).
\<close>

section \<open>The program\<close>

datatype cw_pc =
    Unborn
  | Lock
  | Test
  | Print
  | Incr
  | Unlock
  | Bcast
  | Wait
  | Blocked
  | Wake
  | Unlock_again
  | Done

text \<open>
  \<open>cw_main\<close> counts the statements of \<open>main\<close> that are done: four creations, then four joins.
\<close>

record cw_state =
  cw_count :: int
  cw_mutex :: "nat option"
  cw_pc :: "nat \<Rightarrow> cw_pc"
  cw_main :: nat
  cw_out :: "nat list"

definition cw_init :: cw_state where
  "cw_init = \<lparr>cw_count = 1, cw_mutex = None, cw_pc = (\<lambda>_. Unborn), cw_main = 0, cw_out = []\<rparr>"

abbreviation cw_goto :: "nat \<Rightarrow> cw_pc \<Rightarrow> cw_state \<Rightarrow> cw_state" where
  "cw_goto k l s \<equiv> s\<lparr>cw_pc := (cw_pc s)(k := l)\<rparr>"

text \<open>\<open>pthread_cond_broadcast\<close>: every waiting thread goes on to take the mutex again.\<close>

definition cw_wake_all :: "(nat \<Rightarrow> cw_pc) \<Rightarrow> nat \<Rightarrow> cw_pc" where
  "cw_wake_all pcs = (\<lambda>j. if pcs j = Blocked then Wake else pcs j)"

text \<open>
  The next step of thread \<open>k\<close>; \<open>None\<close> when it cannot go on. Thread 4 does not increment.
\<close>

definition thread_body :: "nat \<Rightarrow> cw_state \<Rightarrow> cw_state option" where
  "thread_body k s = (case cw_pc s k of
       Unborn \<Rightarrow> None
     | Lock \<Rightarrow> if cw_mutex s = None then Some (cw_goto k Test (s\<lparr>cw_mutex := Some k\<rparr>)) else None
     | Test \<Rightarrow> Some (cw_goto k (if cw_count s = int k then Print else Wait) s)
     | Print \<Rightarrow> Some (cw_goto k (if k = 4 then Unlock else Incr) (s\<lparr>cw_out := cw_out s @ [k]\<rparr>))
     | Incr \<Rightarrow> Some (cw_goto k Unlock (s\<lparr>cw_count := cw_count s + 1\<rparr>))
     | Unlock \<Rightarrow> Some (cw_goto k Bcast (s\<lparr>cw_mutex := None\<rparr>))
     | Bcast \<Rightarrow> Some (s\<lparr>cw_pc := (cw_wake_all (cw_pc s))(k := Done)\<rparr>)
     | Wait \<Rightarrow> Some (cw_goto k Blocked (s\<lparr>cw_mutex := None\<rparr>))
     | Blocked \<Rightarrow> None
     | Wake \<Rightarrow>
         if cw_mutex s = None then Some (cw_goto k Unlock_again (s\<lparr>cw_mutex := Some k\<rparr>)) else None
     | Unlock_again \<Rightarrow> Some (cw_goto k Lock (s\<lparr>cw_mutex := None\<rparr>))
     | Done \<Rightarrow> None)"

text \<open>The next step of \<open>main\<close>: it creates threads 4, 3, 2, 1 and joins threads 1, 2, 3, 4.\<close>

definition cw_main_step :: "cw_state \<Rightarrow> cw_state option" where
  "cw_main_step s =
     (let i = cw_main s in
      if i < 4 then Some (cw_goto (4 - i) Lock (s\<lparr>cw_main := i + 1\<rparr>))
      else if i < 8 then (if cw_pc s (i - 3) = Done then Some (s\<lparr>cw_main := i + 1\<rparr>) else None)
      else None)"

inductive cw_step :: "cw_state \<Rightarrow> cw_state \<Rightarrow> bool" where
  cw_thread: "k \<in> {1..4} \<Longrightarrow> thread_body k s = Some t \<Longrightarrow> cw_step s t"
| cw_main: "cw_main_step s = Some t \<Longrightarrow> cw_step s t"

inductive cw_spurious :: "cw_state \<Rightarrow> cw_state \<Rightarrow> bool" where
  cw_wakeup: "cw_pc s k = Blocked \<Longrightarrow> cw_spurious s (cw_goto k Wake s)"

text \<open>\<open>main\<close> has returned.\<close>

definition cw_ended :: "cw_state \<Rightarrow> bool" where
  "cw_ended s \<longleftrightarrow> cw_main s = 8"

section \<open>The invariant\<close>

fun critical :: "cw_pc \<Rightarrow> bool" where
  "critical Test = True"
| "critical Print = True"
| "critical Incr = True"
| "critical Unlock = True"
| "critical Wait = True"
| "critical Unlock_again = True"
| "critical _ = False"

text \<open>A thread that has printed and has nothing left to do but unlock and broadcast.\<close>

fun finishing :: "cw_pc \<Rightarrow> bool" where
  "finishing Unlock = True"
| "finishing Bcast = True"
| "finishing Done = True"
| "finishing _ = False"

text \<open>The mutex is held by exactly the thread that is between locking and unlocking it.\<close>

definition cw_mutual :: "cw_state \<Rightarrow> bool" where
  "cw_mutual s \<longleftrightarrow> (\<forall>k. critical (cw_pc s k) \<longleftrightarrow> cw_mutex s = Some k)"

text \<open>Threads exist once \<open>main\<close> has created them; joined threads are done.\<close>

definition cw_created :: "cw_state \<Rightarrow> bool" where
  "cw_created s \<longleftrightarrow> cw_main s \<le> 8 \<and>
     (\<forall>k. cw_pc s k = Unborn \<longleftrightarrow> cw_main s + k \<le> 4 \<or> k = 0 \<or> 4 < k) \<and>
     (\<forall>k. 1 \<le> k \<longrightarrow> k + 4 \<le> cw_main s \<longrightarrow> cw_pc s k = Done)"

text \<open>
  The turns: what a thread \<open>k\<close> at program counter \<open>l\<close> says about \<open>count\<close>. Threads below \<open>count\<close>
  have printed, those above have not.
\<close>

definition turn_ok :: "int \<Rightarrow> nat \<Rightarrow> cw_pc \<Rightarrow> bool" where
  "turn_ok c k l \<longleftrightarrow>
     (1 \<le> k \<and> int k < c \<longrightarrow> finishing l) \<and>
     (finishing l \<longrightarrow> int k < c \<or> k = 4 \<and> c = 4) \<and>
     (l = Print \<longrightarrow> int k = c) \<and> (l = Incr \<longrightarrow> int k = c \<and> k \<noteq> 4) \<and> (l = Wait \<longrightarrow> int k \<noteq> c)"

definition cw_turns :: "cw_state \<Rightarrow> bool" where
  "cw_turns s \<longleftrightarrow> 1 \<le> cw_count s \<and> cw_count s \<le> 4 \<and> (\<forall>k. turn_ok (cw_count s) k (cw_pc s k))"

text \<open>The output is what has been printed so far.\<close>

definition cw_turn :: "cw_state \<Rightarrow> nat" where
  "cw_turn s = nat (cw_count s)"

definition cw_printed :: "cw_state \<Rightarrow> bool" where
  "cw_printed s \<longleftrightarrow> cw_out s = [1..<cw_turn s] @
     (if cw_pc s (cw_turn s) = Incr \<or> finishing (cw_pc s (cw_turn s)) then [cw_turn s] else [])"

text \<open>
  No wakeup is lost: when the thread whose turn it is sleeps, the one before it has still to
  broadcast.
\<close>

definition cw_no_lost_wakeup :: "cw_state \<Rightarrow> bool" where
  "cw_no_lost_wakeup s \<longleftrightarrow> (cw_pc s (cw_turn s) = Blocked \<longrightarrow>
     1 < cw_turn s \<and> (cw_pc s (cw_turn s - 1) = Unlock \<or> cw_pc s (cw_turn s - 1) = Bcast))"

definition cw_inv :: "cw_state \<Rightarrow> bool" where
  "cw_inv s \<longleftrightarrow> cw_mutual s \<and> cw_created s \<and> cw_turns s \<and> cw_printed s \<and> cw_no_lost_wakeup s"

lemmas cw_inv_defs = cw_inv_def cw_mutual_def cw_created_def cw_turns_def cw_printed_def
  cw_no_lost_wakeup_def cw_turn_def turn_ok_def

lemma cw_inv_init: "cw_inv cw_init"
  by (auto simp: cw_inv_defs cw_init_def)

lemma wake_all_simps [simp]:
  "critical (cw_wake_all pcs j) = critical (pcs j)"
  "finishing (cw_wake_all pcs j) = finishing (pcs j)"
  "cw_wake_all pcs j \<noteq> Blocked"
  "l \<noteq> Blocked \<Longrightarrow> l \<noteq> Wake \<Longrightarrow> cw_wake_all pcs j = l \<longleftrightarrow> pcs j = l"
  by (auto simp: cw_wake_all_def)

text \<open>The states a thread's step leads to, one case per program counter.\<close>

lemma thread_body_cases [consumes 1, case_names lock test print incr unlock bcast wait wake again]:
  assumes "thread_body k s = Some t"
  obtains "cw_pc s k = Lock" "cw_mutex s = None" "t = cw_goto k Test (s\<lparr>cw_mutex := Some k\<rparr>)"
  | "cw_pc s k = Test" "t = cw_goto k (if cw_count s = int k then Print else Wait) s"
  | "cw_pc s k = Print"
    "t = cw_goto k (if k = 4 then Unlock else Incr) (s\<lparr>cw_out := cw_out s @ [k]\<rparr>)"
  | "cw_pc s k = Incr" "t = cw_goto k Unlock (s\<lparr>cw_count := cw_count s + 1\<rparr>)"
  | "cw_pc s k = Unlock" "t = cw_goto k Bcast (s\<lparr>cw_mutex := None\<rparr>)"
  | "cw_pc s k = Bcast" "t = s\<lparr>cw_pc := (cw_wake_all (cw_pc s))(k := Done)\<rparr>"
  | "cw_pc s k = Wait" "t = cw_goto k Blocked (s\<lparr>cw_mutex := None\<rparr>)"
  | "cw_pc s k = Wake" "cw_mutex s = None" "t = cw_goto k Unlock_again (s\<lparr>cw_mutex := Some k\<rparr>)"
  | "cw_pc s k = Unlock_again" "t = cw_goto k Lock (s\<lparr>cw_mutex := None\<rparr>)"
  using assms by (auto simp: thread_body_def split: cw_pc.splits if_splits)

lemma cw_mutual_thread:
  assumes "cw_mutual s" and "thread_body k s = Some t"
  shows "cw_mutual t"
proof -
  have m: "critical (cw_pc s j) = (cw_mutex s = Some j)" for j
    using assms(1) by (simp add: cw_mutual_def)
  from assms(2) m [of k] show ?thesis
    by (cases rule: thread_body_cases) (auto simp: cw_mutual_def m)
qed

lemma cw_created_thread:
  assumes "cw_created s" and "thread_body k s = Some t"
  shows "cw_created t"
proof -
  have b: "cw_pc s j = Unborn \<longleftrightarrow> cw_main s + j \<le> 4 \<or> j = 0 \<or> 4 < j" for j
    using assms(1) by (simp add: cw_created_def)
  have d: "1 \<le> j \<Longrightarrow> j + 4 \<le> cw_main s \<Longrightarrow> cw_pc s j = Done" for j
    using assms(1) by (simp add: cw_created_def)
  have m: "cw_main s \<le> 8" using assms(1) by (simp add: cw_created_def)
  from assms(2) b [of k] d [of k] m show ?thesis
    by (cases rule: thread_body_cases) (auto simp: cw_created_def b d)
qed

text \<open>Only one thread is inside the critical section.\<close>

lemma critical_unique:
  "cw_mutual s \<Longrightarrow> critical (cw_pc s j) \<Longrightarrow> critical (cw_pc s k) \<Longrightarrow> j = k"
  by (simp add: cw_mutual_def)

lemma thread_born:
  assumes "cw_created s" and "thread_body k s = Some t"
  shows "1 \<le> k" and "k \<le> 4"
proof -
  have "cw_pc s k \<noteq> Unborn" using assms(2) by (auto simp: thread_body_def)
  then show "1 \<le> k" and "k \<le> 4" using assms(1) by (auto simp: cw_created_def not_le)
qed

lemma cw_turns_goto:
  assumes "cw_turns s" and "cw_count t = cw_count s" and "cw_pc t = (cw_pc s)(k := l)"
    and "turn_ok (cw_count s) k (cw_pc s k) \<Longrightarrow> turn_ok (cw_count s) k l"
  shows "cw_turns t"
  using assms by (simp add: cw_turns_def)

lemma turn_ok_wake_all: "turn_ok c j (pcs j) \<Longrightarrow> turn_ok c j (cw_wake_all pcs j)"
  by (simp add: turn_ok_def)

text \<open>A thread outside the critical section has nothing to say about \<open>count\<close> when it advances.\<close>

lemma turn_ok_incr:
  assumes "turn_ok c j l" and "\<not> critical l \<or> finishing l" and "int j \<noteq> c" and "c < 4"
  shows "turn_ok (c + 1) j l"
  using assms by (cases l) (auto simp: turn_ok_def)

lemma cw_turns_thread:
  assumes "cw_mutual s" and "cw_created s" and "cw_turns s" and "thread_body k s = Some t"
  shows "cw_turns t"
proof -
  note k = thread_born [OF assms(2,4)]
  have ok: "turn_ok (cw_count s) j (cw_pc s j)" for j using assms(3) by (simp add: cw_turns_def)
  from assms(4) show ?thesis
  proof (cases rule: thread_body_cases)
    case incr
    then have crit: "\<not> critical (cw_pc s j)" if "j \<noteq> k" for j
      using critical_unique [OF assms(1), of k j] that by auto
    have c: "cw_count s = int k" "k < 4" using ok [of k] incr k by (auto simp: turn_ok_def)
    have "turn_ok (int k + 1) j (cw_pc s j)" if "j \<noteq> k" for j
      using turn_ok_incr [OF ok, of j] crit [OF that] c that by simp
    then show ?thesis using incr c k by (auto simp: cw_turns_def turn_ok_def [of _ k])
  next
    case bcast
    have "turn_ok (cw_count s) k Done" using ok [of k] bcast by (simp add: turn_ok_def)
    moreover have "turn_ok (cw_count s) j (cw_wake_all (cw_pc s) j)" for j
      using ok by (rule turn_ok_wake_all)
    ultimately show ?thesis using bcast assms(3) by (simp add: cw_turns_def)
  qed (use cw_turns_goto [OF assms(3), of t k "cw_pc t k"] k in \<open>auto simp: turn_ok_def\<close>)
qed

lemma cw_printed_thread:
  assumes "cw_mutual s" and "cw_created s" and "cw_turns s" and "cw_printed s"
    and "thread_body k s = Some t"
  shows "cw_printed t"
proof -
  note k = thread_born [OF assms(2,5)]
  have ok: "turn_ok (cw_count s) j (cw_pc s j)" for j using assms(3) by (simp add: cw_turns_def)
  from assms(5) show ?thesis
  proof (cases rule: thread_body_cases)
    case incr
    then have "\<not> critical (cw_pc s (Suc k))"
      using critical_unique [OF assms(1), of k "Suc k"] by auto
    then have "cw_pc s (Suc k) \<noteq> Incr" by auto
    moreover have "cw_count s = int k" "k < 4" using ok [of k] incr k by (auto simp: turn_ok_def)
    moreover from this have "\<not> finishing (cw_pc s (Suc k))"
      using ok [of "Suc k"] by (auto simp: turn_ok_def)
    ultimately show ?thesis using assms(4) incr k by (simp add: cw_printed_def cw_turn_def nat_add_distrib)
  next
    case print
    then have "cw_count s = int k" using ok [of k] by (auto simp: turn_ok_def)
    then show ?thesis using assms(4) print k by (simp add: cw_printed_def cw_turn_def)
  next
    case test
    then show ?thesis using assms(4) by (auto simp: cw_printed_def cw_turn_def)
  qed (use assms(4) in \<open>auto simp: cw_printed_def cw_turn_def\<close>)
qed

lemma cw_no_lost_wakeup_thread:
  assumes "cw_created s" and "cw_turns s" and "cw_no_lost_wakeup s" and "thread_body k s = Some t"
  shows "cw_no_lost_wakeup t"
proof -
  note k = thread_born [OF assms(1,4)]
  have ok: "turn_ok (cw_count s) k (cw_pc s k)" using assms(2) by (simp add: cw_turns_def)
  from assms(4) show ?thesis
  proof (cases rule: thread_body_cases)
    case incr
    then have "cw_count s = int k" using ok by (auto simp: turn_ok_def)
    then show ?thesis using incr k by (simp add: cw_no_lost_wakeup_def cw_turn_def nat_add_distrib)
  next
    case wait
    then have "int k \<noteq> cw_count s" using ok by (auto simp: turn_ok_def)
    moreover have "1 \<le> cw_count s" using assms(2) by (simp add: cw_turns_def)
    ultimately show ?thesis using assms(3) wait k by (auto simp: cw_no_lost_wakeup_def cw_turn_def)
  qed (use assms(3) in \<open>auto simp: cw_no_lost_wakeup_def cw_turn_def\<close>)
qed

lemma cw_inv_thread:
  assumes "cw_inv s" and "thread_body k s = Some t"
  shows "cw_inv t"
  using assms cw_mutual_thread cw_created_thread cw_turns_thread cw_printed_thread
    cw_no_lost_wakeup_thread unfolding cw_inv_def by blast

text \<open>Steps of \<open>main\<close> and spurious wakeups.\<close>

lemma cw_mutual_goto:
  assumes "cw_mutual s" and "cw_mutex t = cw_mutex s" and "cw_pc t = (cw_pc s)(k := l)"
    and "critical l = critical (cw_pc s k)"
  shows "cw_mutual t"
  using assms by (simp add: cw_mutual_def)

text \<open>The parts of \<open>cw_created\<close>, and how to establish it.\<close>

lemma cw_createdD:
  assumes "cw_created s"
  shows "cw_main s \<le> 8" and "cw_pc s k = Unborn \<longleftrightarrow> cw_main s + k \<le> 4 \<or> k = 0 \<or> 4 < k"
    and "1 \<le> k \<Longrightarrow> k + 4 \<le> cw_main s \<Longrightarrow> cw_pc s k = Done"
  using assms by (simp_all add: cw_created_def)

lemma cw_createdI:
  assumes "cw_main s \<le> 8" and "\<And>k. cw_pc s k = Unborn \<longleftrightarrow> cw_main s + k \<le> 4 \<or> k = 0 \<or> 4 < k"
    and "\<And>k. 1 \<le> k \<Longrightarrow> k + 4 \<le> cw_main s \<Longrightarrow> cw_pc s k = Done"
  shows "cw_created s"
  using assms by (simp add: cw_created_def)

lemma cw_inv_create:
  assumes "cw_inv s" and "cw_main s < 4"
  shows "cw_inv (cw_goto (4 - cw_main s) Lock (s\<lparr>cw_main := cw_main s + 1\<rparr>))" (is "cw_inv ?t")
proof -
  let ?k = "4 - cw_main s"
  have inv: "cw_mutual s" "cw_created s" "cw_turns s" "cw_printed s" "cw_no_lost_wakeup s"
    using assms(1) by (simp_all add: cw_inv_def)
  have un: "cw_pc s ?k = Unborn" using inv(2) assms(2) by (simp add: cw_created_def)
  have "cw_mutual ?t" by (rule cw_mutual_goto [OF inv(1), of _ ?k Lock]) (simp_all add: un)
  moreover have "cw_created ?t"
  proof (rule cw_createdI)
    fix k
    show "cw_pc ?t k = Unborn \<longleftrightarrow> cw_main ?t + k \<le> 4 \<or> k = 0 \<or> 4 < k"
      using cw_createdD(2) [OF inv(2), of k] assms(2) by (cases "k = ?k") auto
  qed (use assms(2) in auto)
  moreover have "cw_turns ?t"
    by (rule cw_turns_goto [OF inv(3), of _ ?k Lock]) (simp_all add: un turn_ok_def)
  moreover have "cw_printed ?t" "cw_no_lost_wakeup ?t"
    using inv(4,5) un by (auto simp: cw_printed_def cw_no_lost_wakeup_def cw_turn_def)
  ultimately show ?thesis by (simp add: cw_inv_def)
qed

lemma cw_inv_join:
  assumes "cw_inv s" and "4 \<le> cw_main s" and "cw_main s < 8" and "cw_pc s (cw_main s - 3) = Done"
  shows "cw_inv (s\<lparr>cw_main := cw_main s + 1\<rparr>)" (is "cw_inv ?t")
proof -
  have inv: "cw_created s" using assms(1) by (simp add: cw_inv_def)
  have "cw_pc s k = Done" if "1 \<le> k" "k + 4 \<le> cw_main s + 1" for k
  proof (cases "k = cw_main s - 3")
    case False
    then have "k + 4 \<le> cw_main s" using that assms(2) by linarith
    then show ?thesis using inv that(1) by (simp add: cw_created_def)
  qed (use assms(4) in simp)
  moreover have "cw_pc s k = Unborn \<longleftrightarrow> cw_main s + 1 + k \<le> 4 \<or> k = 0 \<or> 4 < k" for k
    using inv assms(2) by (auto simp: cw_created_def)
  ultimately have "cw_created ?t" using assms(3) by (simp add: cw_created_def)
  then show ?thesis
    using assms(1)
    by (simp add: cw_inv_def cw_mutual_def cw_turns_def cw_printed_def cw_no_lost_wakeup_def cw_turn_def)
qed

lemma cw_inv_main:
  assumes "cw_inv s" and "cw_main_step s = Some t"
  shows "cw_inv t"
  using assms cw_inv_create cw_inv_join
  by (auto simp: cw_main_step_def Let_def not_less split: if_splits)

lemma cw_inv_step: "cw_inv s \<Longrightarrow> cw_step s t \<Longrightarrow> cw_inv t"
  by (auto elim!: cw_step.cases intro: cw_inv_thread cw_inv_main)

lemma cw_inv_spurious:
  assumes "cw_inv s" and "cw_spurious s t"
  shows "cw_inv t"
proof -
  from assms(2) obtain k where k: "cw_pc s k = Blocked" and t: "t = cw_goto k Wake s"
    by (auto elim: cw_spurious.cases)
  have inv: "cw_mutual s" "cw_created s" "cw_turns s" "cw_printed s" "cw_no_lost_wakeup s"
    using assms(1) by (simp_all add: cw_inv_def)
  have "cw_mutual t" by (rule cw_mutual_goto [OF inv(1), of _ k Wake]) (simp_all add: k t)
  moreover have "cw_created t"
  proof (rule cw_createdI)
    fix j
    show "cw_pc t j = Unborn \<longleftrightarrow> cw_main t + j \<le> 4 \<or> j = 0 \<or> 4 < j"
      using cw_createdD(2) [OF inv(2), of j] k t by (cases "j = k") auto
  next
    fix j assume "1 \<le> j" "j + 4 \<le> cw_main t"
    then show "cw_pc t j = Done"
      using cw_createdD(3) [OF inv(2), of j] k t by (cases "j = k") auto
  qed (use cw_createdD(1) [OF inv(2)] t in simp)
  moreover have "cw_turns t"
    by (rule cw_turns_goto [OF inv(3), of _ k Wake]) (simp_all add: k t turn_ok_def)
  moreover have "cw_printed t" "cw_no_lost_wakeup t"
    using inv(4,5) k t by (auto simp: cw_printed_def cw_no_lost_wakeup_def cw_turn_def)
  ultimately show ?thesis by (simp add: cw_inv_def)
qed

section \<open>Progress and termination\<close>

text \<open>
  An upper bound on the steps a thread has left before it blocks or returns; a thread that has
  not broadcast yet counts for all the threads its broadcast may wake.
\<close>

fun pc_rank :: "cw_pc \<Rightarrow> nat" where
  "pc_rank Done = 0"
| "pc_rank Blocked = 41"
| "pc_rank Bcast = 42"
| "pc_rank Wait = 42"
| "pc_rank Unlock = 43"
| "pc_rank Incr = 44"
| "pc_rank Print = 45"
| "pc_rank Test = 46"
| "pc_rank Lock = 47"
| "pc_rank Unlock_again = 48"
| "pc_rank Wake = 49"
| "pc_rank Unborn = 50"

definition pcs_rank :: "(nat \<Rightarrow> cw_pc) \<Rightarrow> nat" where
  "pcs_rank pcs = pc_rank (pcs 1) + pc_rank (pcs 2) + pc_rank (pcs 3) + pc_rank (pcs 4)"

definition cw_rank :: "cw_state \<Rightarrow> nat" where
  "cw_rank s = pcs_rank (cw_pc s) + (8 - cw_main s)"

lemma thread_cases:
  assumes "1 \<le> k" and "k \<le> (4::nat)"
  obtains "k = 1" | "k = 2" | "k = 3" | "k = 4"
  using assms by linarith

lemma rank_goto:
  assumes "1 \<le> k" and "k \<le> 4" and "pc_rank l < pc_rank (pcs k)"
  shows "pcs_rank (pcs(k := l)) < pcs_rank pcs"
  using assms(3) by (cases rule: thread_cases [OF assms(1,2)]) (simp_all add: pcs_rank_def)

lemma rank_wake_all: "pc_rank (cw_wake_all pcs j) \<le> pc_rank (pcs j) + 8"
  by (simp add: cw_wake_all_def)

lemma rank_broadcast:
  assumes "1 \<le> k" and "k \<le> 4" and "pcs k = Bcast"
  shows "pcs_rank ((cw_wake_all pcs)(k := Done)) < pcs_rank pcs"
  using assms(3) rank_wake_all [of pcs 1] rank_wake_all [of pcs 2] rank_wake_all [of pcs 3]
    rank_wake_all [of pcs 4]
  by (cases rule: thread_cases [OF assms(1,2)]) (simp_all add: pcs_rank_def)

lemma cw_rank_step:
  assumes "cw_inv s" and "cw_step s t"
  shows "cw_rank t < cw_rank s"
  using assms(2)
proof cases
  case (cw_thread k)
  then have k: "1 \<le> k" "k \<le> 4" by auto
  from cw_thread(2) show ?thesis
  proof (cases rule: thread_body_cases)
    case bcast
    then show ?thesis using rank_broadcast [OF k] by (simp add: cw_rank_def)
  qed (use rank_goto [OF k, of _ "cw_pc s"] in \<open>simp_all add: cw_rank_def\<close>)
next
  case cw_main
  show ?thesis
  proof (cases "cw_main s < 4")
    case True
    let ?k = "4 - cw_main s"
    have t: "t = cw_goto ?k Lock (s\<lparr>cw_main := cw_main s + 1\<rparr>)"
      using cw_main True by (simp add: cw_main_step_def Let_def)
    have "cw_pc s ?k = Unborn" using assms(1) True by (simp add: cw_inv_def cw_created_def)
    then have "pcs_rank ((cw_pc s)(?k := Lock)) < pcs_rank (cw_pc s)"
      using True by (intro rank_goto) auto
    then show ?thesis using t by (simp add: cw_rank_def)
  next
    case False
    with cw_main show ?thesis
      by (auto simp: cw_rank_def cw_main_step_def Let_def split: if_splits)
  qed
qed

lemma cw_thread_stepI: "1 \<le> k \<Longrightarrow> k \<le> 4 \<Longrightarrow> thread_body k s \<noteq> None \<Longrightarrow> \<exists>t. cw_step s t"
  using cw_step.cw_thread [of k s] by auto

lemma thread_body_free:
  "cw_mutex s = None \<Longrightarrow> cw_pc s k \<in> {Lock, Wake, Bcast} \<Longrightarrow> thread_body k s \<noteq> None"
  by (auto simp: thread_body_def)

lemma thread_body_critical: "critical (cw_pc s k) \<Longrightarrow> thread_body k s \<noteq> None"
  by (cases "cw_pc s k") (simp_all add: thread_body_def)

text \<open>
  With the mutex free and all threads created: either a thread can go on, or all are done.
\<close>

lemma cw_free_progress:
  assumes "cw_inv s" and "cw_mutex s = None" and "4 \<le> cw_main s"
  shows "(\<exists>t. cw_step s t) \<or> (\<forall>k\<in>{1..4}. cw_pc s k = Done)"
proof (cases "\<exists>t. cw_step s t")
  case False
  then have stuck: "\<not> (\<exists>t. cw_step s t)" .
  have inv: "cw_mutual s" "cw_created s" "cw_turns s" "cw_no_lost_wakeup s"
    using assms(1) by (simp_all add: cw_inv_def)
  have free: "cw_pc s k \<in> {Blocked, Done}" if "1 \<le> k" "k \<le> 4" for k
  proof -
    have "\<not> critical (cw_pc s k)" using inv(1) assms(2) by (simp add: cw_mutual_def)
    moreover have "cw_pc s k \<notin> {Lock, Wake, Bcast}"
      using stuck cw_thread_stepI [OF that] thread_body_free [OF assms(2)] by blast
    moreover have "cw_pc s k \<noteq> Unborn" using inv(2) that assms(3) by (simp add: cw_created_def)
    ultimately show ?thesis by (cases "cw_pc s k") auto
  qed
  define c where "c = cw_turn s"
  have c: "1 \<le> c" "c \<le> 4" "cw_count s = int c" using inv(3) by (auto simp: cw_turns_def c_def cw_turn_def)
  have "cw_pc s c \<noteq> Blocked"
  proof
    assume "cw_pc s c = Blocked"
    then have "1 < c" "cw_pc s (c - 1) \<in> {Unlock, Bcast}"
      using inv(4) by (auto simp: cw_no_lost_wakeup_def c_def)
    moreover from this(1) have "1 \<le> c - 1" "c - 1 \<le> 4" using c by auto
    ultimately show False using free [of "c - 1"] by auto
  qed
  then have "cw_pc s c = Done" using free [OF c(1,2)] by simp
  then have "c = 4" using inv(3) c by (force simp: cw_turns_def turn_ok_def dest: spec [of _ c])
  have "\<forall>k\<in>{1..4}. cw_pc s k = Done"
  proof
    fix k assume k: "k \<in> {1..4::nat}"
    show "cw_pc s k = Done"
    proof (cases "k = 4")
      case False
      then have "finishing (cw_pc s k)"
        using inv(3) c k \<open>c = 4\<close> by (auto simp: cw_turns_def turn_ok_def)
      then show ?thesis using free [of k] k by auto
    qed (use \<open>cw_pc s c = Done\<close> \<open>c = 4\<close> in simp)
  qed
  then show ?thesis ..
qed simp

lemma cw_progress:
  assumes "cw_inv s" and "\<not> cw_ended s"
  shows "\<exists>t. cw_step s t"
proof (cases "cw_mutex s")
  case (Some k)
  then have crit: "critical (cw_pc s k)" using assms(1) by (simp add: cw_inv_def cw_mutual_def)
  then have "cw_pc s k \<noteq> Unborn" by auto
  then have "1 \<le> k" "k \<le> 4" using assms(1) by (auto simp: cw_inv_def cw_created_def not_le)
  then show ?thesis using cw_thread_stepI thread_body_critical [OF crit] by blast
next
  case None
  have main: "cw_main s < 8" using assms by (auto simp: cw_inv_def cw_created_def cw_ended_def)
  show ?thesis
  proof (cases "cw_main s < 4")
    case True
    then have "cw_main_step s \<noteq> None" by (simp add: cw_main_step_def Let_def)
    then show ?thesis using cw_step.cw_main by blast
  next
    case False
    have "cw_main_step s \<noteq> None" if "\<forall>k\<in>{1..4}. cw_pc s k = Done"
    proof -
      have "cw_main s - 3 \<in> {1..4}" using main False by auto
      then have "cw_pc s (cw_main s - 3) = Done" using that by blast
      then show ?thesis using main False by (simp add: cw_main_step_def Let_def)
    qed
    then show ?thesis using cw_free_progress [OF assms(1) None] False cw_step.cw_main by fastforce
  qed
qed

lemma cw_ended_output:
  assumes "cw_inv s" and "cw_ended s"
  shows "cw_out s = [1, 2, 3, 4]"
proof -
  have fin: "cw_pc s k = Done" if "1 \<le> k" "k \<le> 4" for k
    using assms that by (simp add: cw_inv_def cw_created_def cw_ended_def)
  have "turn_ok (cw_count s) 4 Done" "turn_ok (cw_count s) 3 Done"
    using assms(1) fin [of 4] fin [of 3] by (simp_all add: cw_inv_def cw_turns_def, metis+)
  then have "cw_count s = 4" using assms(1) by (auto simp: turn_ok_def cw_inv_def cw_turns_def)
  then show ?thesis
    using assms(1) fin [of 4] by (simp add: cw_inv_def cw_printed_def cw_turn_def upt_rec)
qed

interpretation cw: thread_program cw_init cw_step cw_spurious cw_inv cw_rank cw_ended
  by unfold_locales (blast intro: cw_inv_init cw_inv_step cw_inv_spurious cw_rank_step cw_progress)+

section \<open>Properties\<close>

text \<open>
  C11. Whatever the schedule, and with spurious wakeups at any time: the lines printed so far are
  a prefix of those of functions 1, 2, 3, 4 in this order, the mutex is held by exactly the thread
  between its lock and unlock, and \<open>count\<close> stays between 1 and 4.
\<close>

theorem cw_prints_in_order:
  assumes "reaches cw_step cw_spurious cw_init s"
  shows "cw_out s = take (length (cw_out s)) [1, 2, 3, 4] \<and>
    (critical (cw_pc s j) \<longrightarrow> critical (cw_pc s k) \<longrightarrow> j = k) \<and>
    1 \<le> cw_count s \<and> cw_count s \<le> 4"
proof -
  have inv: "cw_inv s" using assms by (rule cw.reaches_inv)
  define c where "c = cw_turn s"
  have c: "1 \<le> c" "c \<le> 4" "1 \<le> cw_count s" "cw_count s \<le> 4"
    using inv by (auto simp: cw_inv_def cw_turns_def cw_turn_def c_def)
  have "cw_out s = [1..<c] \<or> cw_out s = [1..<c] @ [c]"
    using inv by (auto simp: cw_inv_def cw_printed_def c_def)
  moreover have "[1..<c] = take (length [1..<c]) [1, 2, 3, 4] \<and>
      [1..<c] @ [c] = take (length ([1..<c] @ [c])) [1, 2, 3, 4]"
    by (cases rule: thread_cases [OF c(1,2)]) (simp_all add: upt_rec)
  ultimately have "cw_out s = take (length (cw_out s)) [1, 2, 3, 4]" by metis
  then show ?thesis using inv c critical_unique [of s j k] by (simp add: cw_inv_def)
qed

theorem cw_prints_in_order_witness:
  "\<exists>s. reaches cw_step cw_spurious cw_init s \<and> cw_main s = 1 \<and> 1 \<le> cw_count s"
proof -
  let ?s = "cw_goto 4 Lock (cw_init\<lparr>cw_main := 1\<rparr>)"
  have "cw_step cw_init ?s"
    by (rule cw_step.cw_main) (simp add: cw_main_step_def cw_init_def)
  then have r: "reaches cw_step cw_spurious cw_init ?s"
    by (rule reaches_prog [OF reaches_start])
  have "cw_main ?s = 1" by simp
  with r cw_prints_in_order [OF r] show ?thesis by blast
qed

text \<open>
  C5. From every reachable state the program ends, under every schedule, as long as no further
  spurious wakeup occurs: a run takes at most 208 more steps, it is never stuck before \<open>main\<close>
  returns (no deadlock and no lost wakeup), and when no thread can go on, \<open>main\<close> has returned and
  the four lines have been printed in order.
\<close>

theorem cw_terminates:
  assumes "reaches cw_step cw_spurious cw_init s" and "steps cw_step n s t"
  shows "n \<le> 208 \<and> (stuck cw_step t \<longrightarrow> cw_ended t \<and> cw_out t = [1, 2, 3, 4])"
proof -
  have r: "pc_rank l \<le> 50" for l by (cases l) simp_all
  have "cw_rank s \<le> 208"
    using r [of "cw_pc s 1"] r [of "cw_pc s 2"] r [of "cw_pc s 3"] r [of "cw_pc s 4"]
    unfolding cw_rank_def pcs_rank_def by linarith
  then show ?thesis
    using cw.steps_bounded [OF assms] cw.stuck_ended [OF assms] cw_ended_output by auto
qed

theorem cw_terminates_witness:
  "\<exists>n t. steps cw_step n cw_init t \<and> n \<le> 208 \<and> cw_ended t \<and> cw_out t = [1, 2, 3, 4]"
proof -
  obtain n t where "steps cw_step n cw_init t" "stuck cw_step t"
    using cw.runs_to_end [OF cw_inv_init] by blast
  with cw_terminates [OF reaches_start this(1)] show ?thesis by blast
qed

end
