(* ===== verification/Posix_Mutex.thy ===== *)
theory Posix_Mutex
  imports Thread_Runs
begin

text \<open>
  The two threads of \<open>posix_mutex\<close>, each of which increments a shared counter under a lock. The
  increment is a read followed by a write, so that the lock matters. Using the mutex before its
  initialisation or after its destruction, and destroying it while it is held, have no step: that
  the program is never stuck shows that this does not happen.
\<close>

section \<open>The program\<close>

datatype pm_pc = PM_unborn | PM_lock | PM_read | PM_write | PM_print | PM_unlock | PM_done

datatype pm_mutex = Absent | Free | Held nat

text \<open>
  \<open>pm_tmp\<close> holds the value a thread has read. \<open>pm_main\<close> counts the statements of \<open>main\<close> that are
  done; \<open>pm_exit\<close> is how the process ended.
\<close>

record pm_state =
  pm_counter :: int
  pm_mutex :: pm_mutex
  pm_pc :: "nat \<Rightarrow> pm_pc"
  pm_tmp :: "nat \<Rightarrow> int"
  pm_main :: nat
  pm_exit :: "int cres option"
  pm_out :: "int list"

definition pm_init :: pm_state where
  "pm_init = \<lparr>pm_counter = 0, pm_mutex = Absent, pm_pc = (\<lambda>_. PM_unborn), pm_tmp = (\<lambda>_. 0),
     pm_main = 0, pm_exit = None, pm_out = []\<rparr>"

abbreviation pm_goto :: "nat \<Rightarrow> pm_pc \<Rightarrow> pm_state \<Rightarrow> pm_state" where
  "pm_goto k l s \<equiv> s\<lparr>pm_pc := (pm_pc s)(k := l)\<rparr>"

definition increaseCounter :: "nat \<Rightarrow> pm_state \<Rightarrow> pm_state option" where
  "increaseCounter k s = (case pm_pc s k of
       PM_unborn \<Rightarrow> None
     | PM_lock \<Rightarrow>
         if pm_mutex s = Free then Some (pm_goto k PM_read (s\<lparr>pm_mutex := Held k\<rparr>)) else None
     | PM_read \<Rightarrow> Some (pm_goto k PM_write (s\<lparr>pm_tmp := (pm_tmp s)(k := pm_counter s)\<rparr>))
     | PM_write \<Rightarrow> (case c_int (pm_tmp s k + 1) of
           Inl e \<Rightarrow> Some (s\<lparr>pm_exit := Some (Inl e)\<rparr>)
         | Inr v \<Rightarrow> Some (pm_goto k PM_print (s\<lparr>pm_counter := v\<rparr>)))
     | PM_print \<Rightarrow> Some (pm_goto k PM_unlock (s\<lparr>pm_out := pm_out s @ [pm_counter s]\<rparr>))
     | PM_unlock \<Rightarrow> Some (pm_goto k PM_done (s\<lparr>pm_mutex := Free\<rparr>))
     | PM_done \<Rightarrow> None)"

text \<open>
  The statements of \<open>main\<close>: initialise the mutex, create threads 0 and 1, join them, destroy the
  mutex, return. \<open>e_init\<close> and \<open>e_create\<close> are what \<open>pthread_mutex_init\<close> and \<open>pthread_create\<close> return.
\<close>

definition pm_main_step :: "int \<Rightarrow> (nat \<Rightarrow> int) \<Rightarrow> pm_state \<Rightarrow> pm_state option" where
  "pm_main_step e_init e_create s =
     (let i = pm_main s; s' = s\<lparr>pm_main := i + 1\<rparr> in
      if i = 0
      then Some (if e_init \<noteq> 0 then s\<lparr>pm_exit := Some (Inr (- 1))\<rparr> else s'\<lparr>pm_mutex := Free\<rparr>)
      else if i = 1 \<or> i = 2
      then Some (if e_create (i - 1) \<noteq> 0 then s\<lparr>pm_exit := Some (Inl Assert_failed)\<rparr>
                 else pm_goto (i - 1) PM_lock s')
      else if i = 3 \<or> i = 4 then (if pm_pc s (i - 3) = PM_done then Some s' else None)
      else if i = 5 then (if pm_mutex s = Free then Some (s'\<lparr>pm_mutex := Absent\<rparr>) else None)
      else Some (s\<lparr>pm_exit := Some (Inr 0)\<rparr>))"

inductive pm_step :: "int \<Rightarrow> (nat \<Rightarrow> int) \<Rightarrow> pm_state \<Rightarrow> pm_state \<Rightarrow> bool" for e_init e_create where
  pm_thread: "pm_exit s = None \<Longrightarrow> increaseCounter k s = Some t \<Longrightarrow> pm_step e_init e_create s t"
| pm_main: "pm_exit s = None \<Longrightarrow> pm_main_step e_init e_create s = Some t \<Longrightarrow>
    pm_step e_init e_create s t"

definition pm_ended :: "pm_state \<Rightarrow> bool" where
  "pm_ended s \<longleftrightarrow> pm_exit s \<noteq> None"

section \<open>The invariant\<close>

fun locked :: "pm_pc \<Rightarrow> bool" where
  "locked PM_unborn = False"
| "locked PM_lock = False"
| "locked PM_done = False"
| "locked _ = True"

text \<open>How many increments, and how many lines, a thread has contributed.\<close>

fun added :: "pm_pc \<Rightarrow> nat" where
  "added PM_print = 1"
| "added PM_unlock = 1"
| "added PM_done = 1"
| "added _ = 0"

fun lines_out :: "pm_pc \<Rightarrow> nat" where
  "lines_out PM_unlock = 1"
| "lines_out PM_done = 1"
| "lines_out _ = 0"

text \<open>The mutex is held by exactly the thread between its lock and its unlock.\<close>

definition pm_mutual :: "pm_state \<Rightarrow> bool" where
  "pm_mutual s \<longleftrightarrow> (\<forall>k. locked (pm_pc s k) \<longleftrightarrow> pm_mutex s = Held k)"

text \<open>\<open>main\<close>: which threads exist, which are joined, when the mutex exists.\<close>

definition pm_started :: "pm_state \<Rightarrow> bool" where
  "pm_started s \<longleftrightarrow> pm_main s \<le> 6 \<and> (pm_mutex s = Absent \<longleftrightarrow> pm_main s = 0 \<or> pm_main s = 6) \<and>
     (\<forall>k. pm_pc s k = PM_unborn \<longleftrightarrow> pm_main s < k + 2 \<or> 2 \<le> k) \<and>
     (\<forall>k. k < 2 \<longrightarrow> k + 4 \<le> pm_main s \<longrightarrow> pm_pc s k = PM_done) \<and>
     (pm_exit s = None \<or> pm_exit s = Some (Inr 0) \<and> pm_main s = 6)"

text \<open>The counter and the output, from where the threads are.\<close>

definition pm_counted :: "pm_state \<Rightarrow> bool" where
  "pm_counted s \<longleftrightarrow> (\<forall>k. pm_pc s k = PM_write \<longrightarrow> pm_tmp s k = pm_counter s) \<and>
     pm_counter s = int (added (pm_pc s 0) + added (pm_pc s 1)) \<and>
     pm_out s = take (lines_out (pm_pc s 0) + lines_out (pm_pc s 1)) [1, 2]"

definition pm_inv :: "pm_state \<Rightarrow> bool" where
  "pm_inv s \<longleftrightarrow> pm_mutual s \<and> pm_started s \<and> pm_counted s"

lemma pm_inv_init: "pm_inv pm_init"
  by (auto simp: pm_inv_def pm_mutual_def pm_started_def pm_counted_def pm_init_def)

lemma pm_startedD:
  assumes "pm_started s"
  shows "pm_main s \<le> 6" and "pm_mutex s = Absent \<longleftrightarrow> pm_main s = 0 \<or> pm_main s = 6"
    and "pm_pc s k = PM_unborn \<longleftrightarrow> pm_main s < k + 2 \<or> 2 \<le> k"
    and "k < 2 \<Longrightarrow> k + 4 \<le> pm_main s \<Longrightarrow> pm_pc s k = PM_done"
    and "pm_exit s = None \<or> pm_exit s = Some (Inr 0) \<and> pm_main s = 6"
  using assms unfolding pm_started_def by blast+

lemma increaseCounter_cases [consumes 1, case_names lock read store overflow print unlock]:
  assumes "increaseCounter k s = Some t"
  obtains "pm_pc s k = PM_lock" "pm_mutex s = Free" "t = pm_goto k PM_read (s\<lparr>pm_mutex := Held k\<rparr>)"
  | "pm_pc s k = PM_read" "t = pm_goto k PM_write (s\<lparr>pm_tmp := (pm_tmp s)(k := pm_counter s)\<rparr>)"
  | v where "pm_pc s k = PM_write" "c_int (pm_tmp s k + 1) = Inr v"
    "t = pm_goto k PM_print (s\<lparr>pm_counter := v\<rparr>)"
  | e where "pm_pc s k = PM_write" "c_int (pm_tmp s k + 1) = Inl e"
    "t = s\<lparr>pm_exit := Some (Inl e)\<rparr>"
  | "pm_pc s k = PM_print" "t = pm_goto k PM_unlock (s\<lparr>pm_out := pm_out s @ [pm_counter s]\<rparr>)"
  | "pm_pc s k = PM_unlock" "t = pm_goto k PM_done (s\<lparr>pm_mutex := Free\<rparr>)"
  using assms by (auto simp: increaseCounter_def split: pm_pc.splits if_splits sum.splits)

lemma pm_mutual_thread:
  assumes "pm_mutual s" and "increaseCounter k s = Some t"
  shows "pm_mutual t"
proof -
  have m: "locked (pm_pc s j) = (pm_mutex s = Held j)" for j
    using assms(1) by (simp add: pm_mutual_def)
  from assms(2) m [of k] show ?thesis
    by (cases rule: increaseCounter_cases) (auto simp: pm_mutual_def m)
qed

lemma added_le: "added l \<le> 1" by (cases l) simp_all

lemma pm_no_overflow:
  assumes "pm_counted s" and "pm_pc s k = PM_write"
  shows "c_int (pm_tmp s k + 1) = Inr (pm_counter s + 1)"
proof -
  have "pm_tmp s k = pm_counter s" "0 \<le> pm_counter s" "pm_counter s \<le> 2"
    using assms added_le [of "pm_pc s 0"] added_le [of "pm_pc s 1"] by (auto simp: pm_counted_def)
  then show ?thesis by (simp add: int_min_def int_max_def)
qed

lemma pm_started_goto:
  assumes "pm_started s" and "pm_main t = pm_main s" and "pm_exit t = pm_exit s"
    and "pm_pc t = (pm_pc s)(k := l)" and "pm_pc s k \<noteq> PM_unborn" and "pm_pc s k \<noteq> PM_done"
    and "l \<noteq> PM_unborn" and "pm_mutex t = Absent \<longleftrightarrow> pm_mutex s = Absent"
  shows "pm_started t"
  unfolding pm_started_def
proof (intro conjI allI impI)
  fix j
  show "pm_pc t j = PM_unborn \<longleftrightarrow> pm_main t < j + 2 \<or> 2 \<le> j"
    using assms pm_startedD(3) [OF assms(1), of j] by (cases "j = k") auto
  assume "j < 2" "j + 4 \<le> pm_main t"
  then show "pm_pc t j = PM_done"
    using assms pm_startedD(4) [OF assms(1), of j] by (cases "j = k") auto
qed (use assms pm_startedD [OF assms(1)] in auto)

lemma pm_started_thread:
  assumes "pm_mutual s" and "pm_started s" and "pm_counted s" and "increaseCounter k s = Some t"
  shows "pm_started t"
  using assms(4)
proof (cases rule: increaseCounter_cases)
  case (overflow e)
  then show ?thesis using pm_no_overflow [OF assms(3)] by simp
next
  case unlock
  then have "pm_mutex s = Held k" using assms(1) unfolding pm_mutual_def by (metis locked.simps(7))
  with unlock show ?thesis using pm_started_goto [OF assms(2), of t k PM_done] by simp
qed (use pm_started_goto [OF assms(2), of t k] in simp_all)

text \<open>The thread other than \<open>k\<close> is outside of the locked region while \<open>k\<close> is inside.\<close>

lemma pm_other:
  assumes "pm_mutual s" and "locked (pm_pc s k)" and "j \<noteq> k"
  shows "added (pm_pc s j) = lines_out (pm_pc s j) \<and> pm_pc s j \<noteq> PM_write"
proof -
  have "\<not> locked (pm_pc s j)" using assms by (simp add: pm_mutual_def)
  then show ?thesis by (cases "pm_pc s j") simp_all
qed

lemma pm_counted_thread:
  assumes "pm_mutual s" and "pm_started s" and "pm_counted s" and "increaseCounter k s = Some t"
  shows "pm_counted t"
proof -
  have "pm_pc s k \<noteq> PM_unborn" using assms(4) by (auto simp: increaseCounter_def)
  then have k: "k = 0 \<or> k = 1" using pm_startedD(3) [OF assms(2), of k] by linarith
  from assms(4) show ?thesis
  proof (cases rule: increaseCounter_cases)
    case (store v)
    then have "v = pm_counter s + 1" using pm_no_overflow [OF assms(3)] by simp
    moreover have "pm_pc s j \<noteq> PM_write" if "j \<noteq> k" for j
      using pm_other [OF assms(1), of k j] store that by simp
    ultimately show ?thesis using store assms(3) k by (auto simp: pm_counted_def)
  next
    case (overflow e)
    then show ?thesis using pm_no_overflow [OF assms(3)] by simp
  next
    case print
    then have "added (pm_pc s j) = lines_out (pm_pc s j)" if "j \<noteq> k" for j
      using pm_other [OF assms(1), of k j] that by simp
    moreover have "lines_out (pm_pc s (1 - k)) = 0 \<or> lines_out (pm_pc s (1 - k)) = 1"
      by (cases "pm_pc s (1 - k)") simp_all
    ultimately show ?thesis using print assms(3) k by (auto simp: pm_counted_def)
  qed (use assms(3) k in \<open>auto simp: pm_counted_def\<close>)
qed

lemma pm_inv_thread: "pm_inv s \<Longrightarrow> increaseCounter k s = Some t \<Longrightarrow> pm_inv t"
  using pm_mutual_thread pm_started_thread pm_counted_thread unfolding pm_inv_def by blast

lemma pm_inv_create:
  assumes "pm_inv s" and "pm_main s = k + 1" and "k < 2" and "pm_exit s = None"
  shows "pm_inv (pm_goto k PM_lock (s\<lparr>pm_main := k + 2\<rparr>))" (is "pm_inv ?t")
proof -
  have inv: "pm_mutual s" "pm_started s" "pm_counted s" using assms(1) by (simp_all add: pm_inv_def)
  have un: "pm_pc s k = PM_unborn" using pm_startedD(3) [OF inv(2), of k] assms(2) by simp
  have "pm_mutual ?t" using inv(1) un by (auto simp: pm_mutual_def dest: spec [of _ k])
  moreover have "pm_started ?t"
    unfolding pm_started_def
  proof (intro conjI allI impI)
    fix j
    show "pm_pc ?t j = PM_unborn \<longleftrightarrow> pm_main ?t < j + 2 \<or> 2 \<le> j"
      using pm_startedD(3) [OF inv(2), of j] assms(2,3) by (cases "j = k") auto
    assume "j < 2" "j + 4 \<le> pm_main ?t"
    then show "pm_pc ?t j = PM_done" using assms(3) by simp
  qed (use pm_startedD [OF inv(2)] assms in auto)
  moreover have "pm_counted ?t"
    using inv(3) un assms(3) by (auto simp: pm_counted_def less_2_cases_iff)
  ultimately show ?thesis by (simp add: pm_inv_def)
qed

lemma pm_inv_join:
  assumes "pm_inv s" and "pm_main s = k + 3" and "k < 2" and "pm_exit s = None" and "pm_pc s k = PM_done"
  shows "pm_inv (s\<lparr>pm_main := k + 4\<rparr>)" (is "pm_inv ?t")
proof -
  have inv: "pm_mutual s" "pm_started s" "pm_counted s" using assms(1) by (simp_all add: pm_inv_def)
  have "pm_started ?t"
    unfolding pm_started_def
  proof (intro conjI allI impI)
    fix j
    show "pm_pc ?t j = PM_unborn \<longleftrightarrow> pm_main ?t < j + 2 \<or> 2 \<le> j"
      using pm_startedD(3) [OF inv(2), of j] assms(2,3) by auto
    assume "j < 2" "j + 4 \<le> pm_main ?t"
    then show "pm_pc ?t j = PM_done"
      using pm_startedD(4) [OF inv(2), of j] assms by (cases "j = k") auto
  qed (use pm_startedD [OF inv(2)] assms in auto)
  then show ?thesis using inv by (simp add: pm_inv_def pm_mutual_def pm_counted_def)
qed

text \<open>The other statements of \<open>main\<close>: initialising, destroying, returning.\<close>

lemma pm_inv_others:
  assumes "pm_inv s" and "pm_exit s = None"
  shows "pm_main s = 0 \<Longrightarrow> pm_inv (s\<lparr>pm_main := 1, pm_mutex := Free\<rparr>)"
    and "pm_main s = 5 \<Longrightarrow> pm_mutex s = Free \<Longrightarrow> pm_inv (s\<lparr>pm_main := 6, pm_mutex := Absent\<rparr>)"
    and "pm_main s = 6 \<Longrightarrow> pm_inv (s\<lparr>pm_exit := Some (Inr 0)\<rparr>)"
proof -
  have inv: "pm_mutual s" "pm_started s" "pm_counted s" using assms(1) by (simp_all add: pm_inv_def)
  note st = pm_startedD [OF inv(2)]
  show "pm_inv (s\<lparr>pm_main := 1, pm_mutex := Free\<rparr>)" if "pm_main s = 0"
  proof -
    have "pm_mutex s = Absent" using st(2) that by simp
    moreover have "pm_pc s k = PM_unborn" for k using st(3) [of k] that by simp
    ultimately show ?thesis
      using inv assms(2) by (auto simp: pm_inv_def pm_mutual_def pm_started_def pm_counted_def)
  qed
  show "pm_inv (s\<lparr>pm_main := 6, pm_mutex := Absent\<rparr>)" if "pm_main s = 5" "pm_mutex s = Free"
  proof -
    have "pm_pc s k = PM_unborn \<longleftrightarrow> 2 \<le> k" for k using st(3) [of k] that by auto
    moreover have "k < 2 \<Longrightarrow> pm_pc s k = PM_done" for k using st(4) [of k] that by simp
    ultimately show ?thesis
      using inv assms(2) that by (auto simp: pm_inv_def pm_mutual_def pm_started_def pm_counted_def)
  qed
  show "pm_inv (s\<lparr>pm_exit := Some (Inr 0)\<rparr>)" if "pm_main s = 6"
    using inv that by (simp add: pm_inv_def pm_mutual_def pm_started_def pm_counted_def)
qed

text \<open>When the calls succeed, \<open>main\<close> keeps the invariant.\<close>

lemma pm_inv_main:
  assumes "pm_inv s" and "pm_exit s = None" and "pm_main_step 0 (\<lambda>_. 0) s = Some t"
  shows "pm_inv t"
proof -
  have "pm_main s \<le> 6" using assms(1) by (simp add: pm_inv_def pm_started_def)
  then consider "pm_main s = 0" | "pm_main s = 0 + 1" | "pm_main s = 1 + 1" | "pm_main s = 0 + 3"
    | "pm_main s = 1 + 3" | "pm_main s = 5" | "pm_main s = 6" by linarith
  then show ?thesis
    using assms(3) pm_inv_others [OF assms(1,2)] pm_inv_create [OF assms(1) _ _ assms(2)]
      pm_inv_join [OF assms(1) _ _ assms(2)]
    by cases (simp_all add: pm_main_step_def Let_def numeral_eq_Suc split: if_splits)
qed

section \<open>Progress and termination\<close>

fun pm_pc_rank :: "pm_pc \<Rightarrow> nat" where
  "pm_pc_rank PM_unborn = 6"
| "pm_pc_rank PM_lock = 5"
| "pm_pc_rank PM_read = 4"
| "pm_pc_rank PM_write = 3"
| "pm_pc_rank PM_print = 2"
| "pm_pc_rank PM_unlock = 1"
| "pm_pc_rank PM_done = 0"

definition pm_rank :: "pm_state \<Rightarrow> nat" where
  "pm_rank s = pm_pc_rank (pm_pc s 0) + pm_pc_rank (pm_pc s 1) + (6 - pm_main s) +
     (if pm_exit s = None then 1 else 0)"

abbreviation pm_run :: "pm_state \<Rightarrow> pm_state \<Rightarrow> bool" where
  "pm_run \<equiv> pm_step 0 (\<lambda>_. 0)"

lemma pm_thread_id:
  assumes "pm_inv s" and "increaseCounter k s = Some t"
  shows "k = 0 \<or> k = 1"
proof -
  have "pm_pc s k \<noteq> PM_unborn" using assms(2) by (auto simp: increaseCounter_def)
  moreover have "pm_started s" using assms(1) by (simp add: pm_inv_def)
  ultimately show ?thesis using pm_startedD(3) [of s k] by linarith
qed

lemma pm_rank_thread:
  assumes "pm_inv s" and "increaseCounter k s = Some t"
  shows "pm_rank t < pm_rank s"
proof -
  have c: "pm_counted s" using assms(1) by (simp add: pm_inv_def)
  from assms(2) have "pm_exit t = pm_exit s \<and> pm_main t = pm_main s \<and>
      (\<exists>l. pm_pc t = (pm_pc s)(k := l) \<and> pm_pc_rank l < pm_pc_rank (pm_pc s k))"
    by (cases rule: increaseCounter_cases) (auto simp: pm_no_overflow [OF c])
  then show ?thesis using pm_thread_id [OF assms] by (auto simp: pm_rank_def)
qed

lemma pm_rank_main:
  assumes "pm_inv s" and "pm_exit s = None" and "pm_main_step 0 (\<lambda>_. 0) s = Some t"
  shows "pm_rank t < pm_rank s"
proof -
  have st: "pm_started s" using assms(1) by (simp add: pm_inv_def)
  have "pm_main s \<le> 6" using st by (simp add: pm_started_def)
  then consider "pm_main s = 0" | "pm_main s = 1" | "pm_main s = 2" | "pm_main s = 3"
    | "pm_main s = 4" | "pm_main s = 5" | "pm_main s = 6" by linarith
  then show ?thesis
    using assms(2,3) pm_startedD(3) [OF st, of 0] pm_startedD(3) [OF st, of 1]
    by cases (auto simp: pm_rank_def pm_main_step_def Let_def split: if_splits)
qed

lemma pm_main_stepI:
  "pm_exit s = None \<Longrightarrow> pm_main_step 0 (\<lambda>_. 0) s \<noteq> None \<Longrightarrow> \<exists>t. pm_run s t"
  using pm_step.pm_main [of s 0 "\<lambda>_. 0"] by auto

lemma pm_thread_stepI: "pm_exit s = None \<Longrightarrow> increaseCounter k s \<noteq> None \<Longrightarrow> \<exists>t. pm_run s t"
  using pm_step.pm_thread [of s k] by auto

lemma pm_progress:
  assumes "pm_inv s" and "\<not> pm_ended s"
  shows "\<exists>t. pm_run s t"
proof -
  have ex: "pm_exit s = None" using assms(2) by (simp add: pm_ended_def)
  have inv: "pm_mutual s" "pm_started s" using assms(1) by (simp_all add: pm_inv_def)
  note st = pm_startedD [OF inv(2)]
  show ?thesis
  proof (cases "pm_mutex s")
    case (Held k)
    then have "locked (pm_pc s k)" using inv(1) by (simp add: pm_mutual_def)
    then have "increaseCounter k s \<noteq> None"
      by (cases "pm_pc s k") (simp_all add: increaseCounter_def split: sum.split)
    then show ?thesis using pm_thread_stepI [OF ex] by blast
  next
    case Absent
    then have "pm_main_step 0 (\<lambda>_. 0) s \<noteq> None" using st(2) by (auto simp: pm_main_step_def Let_def)
    then show ?thesis by (rule pm_main_stepI [OF ex])
  next
    case Free
    show ?thesis
    proof (cases "\<exists>k. pm_pc s k = PM_lock")
      case True
      then obtain k where "pm_pc s k = PM_lock" ..
      then have "increaseCounter k s \<noteq> None" using Free by (simp add: increaseCounter_def)
      then show ?thesis by (rule pm_thread_stepI [OF ex])
    next
      case False
      have "pm_pc s k = PM_unborn \<or> pm_pc s k = PM_done" for k
      proof -
        have "\<not> locked (pm_pc s k)" using inv(1) Free by (simp add: pm_mutual_def)
        then show ?thesis using False by (cases "pm_pc s k") auto
      qed
      then have "pm_pc s k = PM_done" if "k + 2 \<le> pm_main s" "k < 2" for k
        using st(3) [of k] that by (metis not_le)
      then have "pm_pc s (pm_main s - 3) = PM_done" if "pm_main s = 3 \<or> pm_main s = 4"
        using that by auto
      then have "pm_main_step 0 (\<lambda>_. 0) s \<noteq> None"
        using Free by (auto simp: pm_main_step_def Let_def)
      then show ?thesis by (rule pm_main_stepI [OF ex])
    qed
  qed
qed

lemma pm_inv_run: "pm_inv s \<Longrightarrow> pm_run s t \<Longrightarrow> pm_inv t"
  by (auto elim!: pm_step.cases intro: pm_inv_thread pm_inv_main)

lemma pm_rank_run: "pm_inv s \<Longrightarrow> pm_run s t \<Longrightarrow> pm_rank t < pm_rank s"
  by (auto elim!: pm_step.cases intro: pm_rank_thread pm_rank_main)

interpretation pm: thread_program pm_init pm_run "\<lambda>_ _. False" pm_inv pm_rank pm_ended
  by unfold_locales (use pm_inv_init pm_inv_run pm_rank_run pm_progress in blast)+

lemma pm_ended_result:
  assumes "pm_inv s" and "pm_ended s"
  shows "pm_exit s = Some (Inr 0) \<and> pm_counter s = 2 \<and> pm_out s = [1, 2]"
proof -
  have st: "pm_started s" "pm_counted s" using assms(1) by (simp_all add: pm_inv_def)
  then have "pm_exit s = Some (Inr 0)" "pm_main s = 6"
    using assms(2) pm_startedD(5) [OF st(1)] by (auto simp: pm_ended_def)
  moreover from this have "pm_pc s 0 = PM_done" "pm_pc s 1 = PM_done"
    using pm_startedD(4) [OF st(1)] by simp_all
  ultimately show ?thesis using st(2) by (simp add: pm_counted_def)
qed

section \<open>Properties\<close>

text \<open>
  C12. When the library calls succeed, the program ends under every schedule, after at most 19
  steps and never stuck before: both increments count, the lines \<open>Counter: 1\<close> and \<open>Counter: 2\<close> are
  printed in this order, the mutex is only used between its initialisation and its destruction,
  and \<open>main\<close> returns 0. Throughout, at most one thread is between lock and unlock.
\<close>

theorem pm_counts_to_two:
  assumes "steps pm_run n pm_init s"
  shows "n \<le> 19 \<and> (locked (pm_pc s j) \<longrightarrow> locked (pm_pc s k) \<longrightarrow> j = k) \<and>
    (stuck pm_run s \<longrightarrow> pm_exit s = Some (Inr 0) \<and> pm_counter s = 2 \<and> pm_out s = [1, 2])"
proof -
  have "pm_rank pm_init = 19" by (simp add: pm_rank_def pm_init_def)
  then have "n \<le> 19" using pm.steps_bounded [OF reaches_start assms] by simp
  moreover have "pm_inv s" using pm.steps_inv_rank [OF assms pm_inv_init] by blast
  then have "locked (pm_pc s j) \<longrightarrow> locked (pm_pc s k) \<longrightarrow> j = k"
    by (simp add: pm_inv_def pm_mutual_def)
  ultimately show ?thesis
    using pm.stuck_ended [OF reaches_start assms] pm_ended_result by blast
qed

theorem pm_counts_to_two_witness:
  "\<exists>n s. steps pm_run n pm_init s \<and> n \<le> 19 \<and> pm_counter s = 2 \<and> pm_out s = [1, 2]"
proof -
  obtain n s where "steps pm_run n pm_init s" "stuck pm_run s"
    using pm.runs_to_end [OF pm_inv_init] by blast
  with pm_counts_to_two [OF this(1)] show ?thesis by blast
qed

text \<open>A failed \<open>pthread_mutex_init\<close> ends \<open>main\<close> with -1 before any thread exists.\<close>

lemma pm_init_failure:
  assumes "e_init \<noteq> 0" and "pm_step e_init e_create pm_init s"
  shows "pm_exit s = Some (Inr (- 1)) \<and> pm_out s = []"
  using assms(2,1)
  by cases (auto simp: pm_init_def pm_main_step_def increaseCounter_def)

end
