(* ===== verification/Regex.thy ===== *)
theory Regex
  imports C_Stdio
begin

text \<open>
  The interactive loops of \<open>regex\<close>: \<open>main\<close> reads patterns, \<open>try_matches\<close> reads texts and reports
  whether they match, both until an empty line. \<open>regcomp\<close> and \<open>regexec\<close> are parameters. A loop that
  does not end is the value \<open>None\<close>.
\<close>

section \<open>The program\<close>

text \<open>\<open>chomp\<close> on the buffer \<open>s\<close>; a NULL argument is \<open>None\<close>.\<close>

definition chomp :: "char list option \<Rightarrow> char list option cres" where
  "chomp s = (case s of
       None \<Rightarrow> Inr None
     | Some buf \<Rightarrow> (case buf of
           [] \<Rightarrow> Inl Out_of_bounds
         | c # _ \<Rightarrow>
             if c = nul then Inr (Some buf)
             else cbind (c_strlen buf) (\<lambda>n.
                    Inr (Some (if buf ! (n - 1) = CHR 0x0A then buf[n - 1 := nul] else buf)))))"

text \<open>What \<open>regexec\<close> reports, and what \<open>try_matches\<close> prints for it.\<close>

datatype rx_result = Matched nat nat | No_match | Rx_failed

datatype rx_line = Found string nat int | Not_found | Failed_line

definition report :: "string \<Rightarrow> rx_result \<Rightarrow> rx_line" where
  "report txt r = (case r of
       Matched so eo \<Rightarrow> Found (take (eo - so) (drop so txt)) so (int eo - 1)
     | No_match \<Rightarrow> Not_found
     | Rx_failed \<Rightarrow> Failed_line)"

text \<open>The next line, in a buffer of 1024 bytes, without its newline.\<close>

definition next_line :: "char list \<Rightarrow> string \<Rightarrow> (char list \<times> string) cres" where
  "next_line buf inp =
     cbind (c_fgets buf 1024 inp) (\<lambda>(_, buf1, inp').
     cbind (chomp (Some buf1)) (\<lambda>buf2. Inr (the buf2, inp')))"

text \<open>\<open>buf\<close> is the array \<open>test_pattern\<close>; the result is the output and the rest of the input.\<close>

partial_function (option) try_matches ::
    "(string \<Rightarrow> rx_result) \<Rightarrow> char list \<Rightarrow> string \<Rightarrow> rx_line list \<Rightarrow> (rx_line list \<times> string) crun" where
  [code]: "try_matches regexec buf inp out =
     (case next_line buf inp of
        Inl e \<Rightarrow> Some (Inl e)
      | Inr (buf', inp') \<Rightarrow> (case c_strlen buf' of
            Inl e \<Rightarrow> Some (Inl e)
          | Inr n \<Rightarrow>
              if n = 0 then Some (Inr (out, inp'))
              else try_matches regexec buf' inp' (out @ [report (c_str buf') (regexec (c_str buf'))])))"

text \<open>
  \<open>regcomp\<close> returns a non-zero error code or a compiled pattern. Each call of \<open>try_matches\<close> has a
  new array, with unspecified contents \<open>junk\<close>.
\<close>

partial_function (option) rx_main ::
    "(string \<Rightarrow> int + 'p) \<Rightarrow> ('p \<Rightarrow> string \<Rightarrow> rx_result) \<Rightarrow> char list \<Rightarrow> char list \<Rightarrow> string \<Rightarrow>
     rx_line list \<Rightarrow> (int \<times> rx_line list) crun" where
  [code]: "rx_main regcomp regexec junk pattern inp out =
     (case next_line pattern inp of
        Inl e \<Rightarrow> Some (Inl e)
      | Inr (pattern', inp') \<Rightarrow> (case c_strlen pattern' of
            Inl e \<Rightarrow> Some (Inl e)
          | Inr n \<Rightarrow>
              if n = 0 then Some (Inr (0, out))
              else (case regcomp (c_str pattern') of
                      Inl err \<Rightarrow> Some (Inr (err, out))
                    | Inr compiled \<Rightarrow>
                        Option.bind (try_matches (regexec compiled) junk inp' out) (\<lambda>r. case r of
                            Inl e \<Rightarrow> Some (Inl e)
                          | Inr (out', inp'') \<Rightarrow>
                              rx_main regcomp regexec junk pattern' inp'' out'))))"

section \<open>Reading lines\<close>

lemma chomp_newline:
  assumes "is_cstring l" and "CHR 0x0A \<notin> set l"
  shows "chomp (Some (l @ CHR 0x0A # nul # rest)) = Inr (Some (l @ nul # nul # rest))"
proof -
  let ?b = "l @ CHR 0x0A # nul # rest"
  have nl: "CHR 0x0A \<noteq> nul" by (simp add: nul_def)
  have len: "c_strlen ?b = Inr (Suc (length l))"
    using c_strlen_append [of "l @ [CHR 0x0A]" rest] assms nl by (simp add: is_cstring_def)
  have hd: "hd ?b \<noteq> nul" using assms(1) nl by (cases l) (auto simp: is_cstring_def)
  have "?b ! length l = CHR 0x0A" "?b[length l := nul] = l @ nul # nul # rest" by simp_all
  moreover obtain c cs where "?b = c # cs" by (cases ?b) auto
  ultimately show ?thesis using len hd by (simp add: chomp_def)
qed

lemma chomp_plain:
  assumes "is_cstring l" and "CHR 0x0A \<notin> set l"
  shows "chomp (Some (l @ nul # rest)) = Inr (Some (l @ nul # rest))"
proof (cases l)
  case Nil
  then show ?thesis by (simp add: chomp_def)
next
  case (Cons c cs)
  have "(l @ nul # rest) ! (length l - 1) = last l"
    using Cons by (simp add: nth_append last_conv_nth)
  moreover have "last l \<noteq> CHR 0x0A" using Cons assms(2) by (metis last_in_set list.distinct(1))
  moreover have "c \<noteq> nul" using Cons assms(1) by (auto simp: is_cstring_def)
  ultimately show ?thesis
    using Cons assms(1) c_strlen_append [OF assms(1), of rest] by (simp add: chomp_def)
qed

lemma next_line_ok:
  assumes "plain_line l" and "length buf = 1024"
  shows "\<exists>tail. next_line buf (l @ CHR 0x0A # inp) = Inr (l @ nul # tail, inp) \<and> length (l @ nul # tail) = 1024"
proof -
  have "c_fgets buf 1024 (l @ CHR 0x0A # inp) =
      Inr (True, l @ CHR 0x0A # nul # drop (length l + 2) buf, inp)"
    using assms by (rule fgets_plain_line)
  then show ?thesis
    using chomp_newline [of l "drop (length l + 2) buf"] assms
    by (simp add: next_line_def plain_line_def)
qed

text \<open>At the end of the input the buffer keeps the previous line.\<close>

lemma next_line_eof:
  assumes "is_cstring l" and "CHR 0x0A \<notin> set l"
  shows "next_line (l @ nul # tail) [] = Inr (l @ nul # tail, [])"
  using chomp_plain [OF assms] by (simp add: next_line_def c_fgets_def)

lemma try_matches_line:
  assumes "plain_line l" and "l \<noteq> []" and "length buf = 1024"
  shows "\<exists>tail. length (l @ nul # tail) = 1024 \<and> try_matches rx buf (l @ CHR 0x0A # inp) out =
    try_matches rx (l @ nul # tail) inp (out @ [report l (rx l)])"
proof -
  obtain tail where "next_line buf (l @ CHR 0x0A # inp) = Inr (l @ nul # tail, inp)" "length (l @ nul # tail) = 1024"
    using next_line_ok [OF assms(1,3)] by blast
  moreover have "is_cstring l" using assms(1) by (simp add: plain_line_def)
  ultimately show ?thesis
    using assms(2) by (intro exI [of _ tail]) (subst try_matches.simps, simp add: str_simps)
qed

lemma try_matches_lines:
  assumes "\<forall>l\<in>set ls. plain_line l \<and> l \<noteq> []" and "length buf = 1024"
  shows "\<exists>buf'. length buf' = 1024 \<and> (ls \<noteq> [] \<longrightarrow> (\<exists>tail. buf' = last ls @ nul # tail)) \<and>
    try_matches rx buf (unlines ls @ inp) out = try_matches rx buf' inp (out @ map (\<lambda>l. report l (rx l)) ls)"
  using assms
proof (induction ls arbitrary: buf out)
  case Nil
  then show ?case by (intro exI [of _ buf]) (simp add: unlines_def)
next
  case (Cons l ls)
  then obtain tail where tail: "length (l @ nul # tail) = 1024" "try_matches rx buf (unlines (l # ls) @ inp) out =
      try_matches rx (l @ nul # tail) (unlines ls @ inp) (out @ [report l (rx l)])"
    using try_matches_line [of l buf rx "unlines ls @ inp" out] by (auto simp: unlines_Cons)
  from Cons.IH [OF _ tail(1), of "out @ [report l (rx l)]"] Cons.prems(1) obtain buf' where
    "length buf' = 1024" "ls \<noteq> [] \<longrightarrow> (\<exists>tail. buf' = last ls @ nul # tail)"
    "try_matches rx (l @ nul # tail) (unlines ls @ inp) (out @ [report l (rx l)]) =
      try_matches rx buf' inp (out @ [report l (rx l)] @ map (\<lambda>l. report l (rx l)) ls)" by auto
  then show ?case using tail
  proof (cases "ls = []")
    case True
    then show ?thesis using tail by (intro exI [of _ "l @ nul # tail"]) (simp add: unlines_def)
  next
    case False
    with \<open>length buf' = 1024\<close> \<open>ls \<noteq> [] \<longrightarrow> _\<close> tail(2) show ?thesis
      using \<open>try_matches rx (l @ nul # tail) _ _ = _\<close> by (intro exI [of _ buf']) simp
  qed
qed

lemma try_matches_stop:
  assumes "length buf = 1024"
  shows "try_matches rx buf (CHR 0x0A # inp) out = Some (Inr (out, inp))"
proof -
  have "plain_line []" by (simp add: plain_line_def is_cstring_def)
  from next_line_ok [OF this assms, of inp] obtain tail
    where "next_line buf (CHR 0x0A # inp) = Inr (nul # tail, inp)" by auto
  then show ?thesis by (subst try_matches.simps) simp
qed

lemma try_matches_eof_diverges:
  assumes "is_cstring l" and "CHR 0x0A \<notin> set l" and "l \<noteq> []"
  shows "try_matches rx (l @ nul # tail) [] out = None"
proof -
  let ?P = "\<lambda>(g::string \<Rightarrow> rx_result) b (i::string) (o'::rx_line list) (r::(rx_line list \<times> string) cres).
    \<not> (b = l @ nul # tail \<and> i = [])"
  have "?P rx (l @ nul # tail) [] out r" if "try_matches rx (l @ nul # tail) [] out = Some r" for r
    using that
  proof (rule try_matches.raw_induct [of ?P, rotated])
    fix rec :: "(string \<Rightarrow> rx_result) \<Rightarrow> char list \<Rightarrow> string \<Rightarrow> rx_line list \<Rightarrow> (rx_line list \<times> string) crun"
      and g b i o' r
    assume ih: "\<And>g b i o' r. rec g b i o' = Some r \<Longrightarrow> ?P g b i o' r"
      and body: "(case next_line b i of Inl e \<Rightarrow> Some (Inl e)
        | Inr (buf', inp') \<Rightarrow> (case c_strlen buf' of Inl e \<Rightarrow> Some (Inl e)
          | Inr n \<Rightarrow> if n = 0 then Some (Inr (o', inp'))
              else rec g buf' inp' (o' @ [report (c_str buf') (g (c_str buf'))]))) = Some r"
    show "?P g b i o' r"
    proof
      assume "b = l @ nul # tail \<and> i = []"
      then have "rec g (l @ nul # tail) [] (o' @ [report l (g l)]) = Some r"
        using body assms next_line_eof [OF assms(1,2), of tail] by (simp add: str_simps)
      from ih [OF this] show False by simp
    qed
  qed
  then show ?thesis by (cases "try_matches rx (l @ nul # tail) [] out") auto
qed

section \<open>The whole program\<close>

text \<open>What is typed for a list of patterns, each with its texts, and what is printed for it.\<close>

definition rx_input :: "(string \<times> string list) list \<Rightarrow> string" where
  "rx_input ss = concat (map (\<lambda>(pat, ls). pat @ CHR 0x0A # unlines ls @ [CHR 0x0A]) ss)"

definition rx_output :: "(string \<Rightarrow> int + 'p) \<Rightarrow> ('p \<Rightarrow> string \<Rightarrow> rx_result) \<Rightarrow> (string \<times> string list) list \<Rightarrow> rx_line list" where
  "rx_output regcomp regexec ss = concat (map (\<lambda>(pat, ls). map (\<lambda>l. report l (regexec (projr (regcomp pat)) l)) ls) ss)"

definition text_line :: "string \<Rightarrow> bool" where
  "text_line l \<longleftrightarrow> plain_line l \<and> l \<noteq> []"

lemma rx_main_pattern:
  assumes "text_line pat" and "length pattern = 1024"
  shows "\<exists>pattern'. length pattern' = 1024 \<and> rx_main regcomp regexec junk pattern (pat @ CHR 0x0A # inp) out =
    (case regcomp pat of
       Inl err \<Rightarrow> Some (Inr (err, out))
     | Inr compiled \<Rightarrow> Option.bind (try_matches (regexec compiled) junk inp out) (\<lambda>r. case r of
           Inl e \<Rightarrow> Some (Inl e)
         | Inr (out', inp') \<Rightarrow> rx_main regcomp regexec junk pattern' inp' out'))"
proof -
  obtain tail where "next_line pattern (pat @ CHR 0x0A # inp) = Inr (pat @ nul # tail, inp)"
    "length (pat @ nul # tail) = 1024" using next_line_ok [of pat pattern inp] assms by (auto simp: text_line_def)
  moreover have "is_cstring pat" "pat \<noteq> []" using assms(1) by (simp_all add: text_line_def plain_line_def)
  ultimately show ?thesis
    by (intro exI [of _ "pat @ nul # tail"]) (subst rx_main.simps, simp add: str_simps)
qed

lemma rx_main_session:
  assumes "text_line pat" and "\<forall>l\<in>set ls. text_line l" and "regcomp pat = Inr compiled"
    and "length pattern = 1024" and "length junk = 1024"
  shows "\<exists>pattern'. length pattern' = 1024 \<and>
    rx_main regcomp regexec junk pattern (pat @ CHR 0x0A # unlines ls @ CHR 0x0A # inp) out =
    rx_main regcomp regexec junk pattern' inp (out @ map (\<lambda>l. report l (regexec compiled l)) ls)"
proof -
  let ?rx = "regexec compiled"
  have "\<forall>l\<in>set ls. plain_line l \<and> l \<noteq> []" using assms(2) by (simp add: text_line_def)
  from try_matches_lines [OF this assms(5), of ?rx "CHR 0x0A # inp" out] try_matches_stop
  have "try_matches ?rx junk (unlines ls @ CHR 0x0A # inp) out = Some (Inr (out @ map (\<lambda>l. report l (?rx l)) ls, inp))"
    by auto
  with rx_main_pattern [OF assms(1,4), of regcomp regexec junk "unlines ls @ CHR 0x0A # inp" out] assms(3)
  show ?thesis by simp
qed

lemma rx_main_sessions:
  assumes "\<forall>(pat, ls)\<in>set ss. text_line pat \<and> (\<forall>l\<in>set ls. text_line l) \<and> (\<exists>compiled. regcomp pat = Inr compiled)"
    and "length pattern = 1024" and "length junk = 1024"
  shows "\<exists>pattern'. length pattern' = 1024 \<and> rx_main regcomp regexec junk pattern (rx_input ss @ inp) out =
    rx_main regcomp regexec junk pattern' inp (out @ rx_output regcomp regexec ss)"
  using assms(1,2)
proof (induction ss arbitrary: pattern out)
  case Nil
  then show ?case by (auto simp: rx_input_def rx_output_def)
next
  case (Cons s ss)
  obtain pat ls where s: "s = (pat, ls)" by (cases s)
  with Cons.prems(1) obtain compiled where c: "text_line pat" "\<forall>l\<in>set ls. text_line l" "regcomp pat = Inr compiled" by auto
  from rx_main_session [of pat ls regcomp compiled pattern junk regexec "rx_input ss @ inp" out] c Cons.prems(2) assms(3) obtain p1 where
    p1: "length p1 = 1024" "rx_main regcomp regexec junk pattern (rx_input (s # ss) @ inp) out =
      rx_main regcomp regexec junk p1 (rx_input ss @ inp) (out @ map (\<lambda>l. report l (regexec compiled l)) ls)"
    by (auto simp: rx_input_def s)
  from Cons.IH [OF _ p1(1), of "out @ map (\<lambda>l. report l (regexec compiled l)) ls"] Cons.prems(1) show ?case
    unfolding p1(2) by (simp add: rx_output_def s c(3))
qed

section \<open>Properties\<close>

text \<open>
  C18. The whole program. For any number of patterns that compile, each followed by texts and an empty
  line, all lines non-empty and short enough for the arrays, the program reports for every text what
  \<open>regexec\<close> says of it with the pattern before it, in order; it ends with 0 at an empty line in the
  place of a pattern, and with the error of \<open>regcomp\<close> at a pattern that does not compile. It ends in
  both cases, for any contents of its uninitialised arrays, without leaving them.
\<close>

theorem rx_main_reports:
  assumes "\<forall>(pat, ls)\<in>set ss. text_line pat \<and> (\<forall>l\<in>set ls. text_line l) \<and> (\<exists>compiled. regcomp pat = Inr compiled)"
    and "length pattern = 1024" and "length junk = 1024" and "text_line bad" and "regcomp bad = Inl err"
  shows "rx_main regcomp regexec junk pattern (rx_input ss @ CHR 0x0A # rest) [] =
      Some (Inr (0, rx_output regcomp regexec ss)) \<and>
    rx_main regcomp regexec junk pattern (rx_input ss @ bad @ CHR 0x0A # rest) [] =
      Some (Inr (err, rx_output regcomp regexec ss))"
proof -
  have stop: "rx_main regcomp regexec junk p (CHR 0x0A # rest) out = Some (Inr (0, out))" if "length p = 1024" for p out
  proof -
    have "plain_line []" by (simp add: plain_line_def is_cstring_def)
    from next_line_ok [OF this that, of rest] obtain tail
      where "next_line p (CHR 0x0A # rest) = Inr (nul # tail, rest)" by auto
    then show ?thesis by (subst rx_main.simps) simp
  qed
  have fail: "rx_main regcomp regexec junk p (bad @ CHR 0x0A # rest) out = Some (Inr (err, out))" if "length p = 1024" for p out
    using rx_main_pattern [OF assms(4) that, of regcomp regexec junk rest out] assms(5) by auto
  from rx_main_sessions [OF assms(1-3), of regexec "CHR 0x0A # rest" "[]"] stop
    rx_main_sessions [OF assms(1-3), of regexec "bad @ CHR 0x0A # rest" "[]"] fail
  show ?thesis by auto
qed

theorem rx_main_reports_witness:
  "rx_main (\<lambda>p. if p = ''('' then Inl 8 else Inr p) (\<lambda>p t. if p = t then Matched 0 (length t) else No_match)
      (replicate 1024 CHR ''?'') (replicate 1024 CHR ''?'') (rx_input [(''ab'', [''ab'', ''c'']), (''c'', [])] @ ''('' @ CHR 0x0A # []) [] =
    Some (Inr (8, [Found ''ab'' 0 1, Not_found]))"
  using rx_main_reports [of "[(''ab'', [''ab'', ''c'']), (''c'', [])]" "\<lambda>p. if p = ''('' then Inl 8 else Inr p"
      "replicate 1024 CHR ''?''" "replicate 1024 CHR ''?''" "''(''" 8
      "\<lambda>p t. if p = t then Matched 0 (length t) else No_match" "[]"]
  by (simp add: text_line_def plain_line_def is_cstring_def nul_def report_def rx_output_def)

text \<open>
  Given non-empty lines that fit in the buffer and then an empty line, \<open>try_matches\<close> ends,
  reports the result of \<open>regexec\<close> on exactly these lines without their newlines, in order, and
  leaves the rest of the input unread, with no access outside its buffer.
\<close>

theorem try_matches_reports:
  assumes "\<forall>l\<in>set ls. plain_line l \<and> l \<noteq> []" and "length buf = 1024"
  shows "try_matches rx buf (unlines ls @ CHR 0x0A # rest) [] =
    Some (Inr (map (\<lambda>l. report l (rx l)) ls, rest))"
  using try_matches_lines [OF assms, of rx "CHR 0x0A # rest" "[]"] try_matches_stop by auto

theorem try_matches_reports_witness:
  "try_matches (\<lambda>t. if length t = 2 then Matched 0 1 else No_match) (replicate 1024 nul)
     (unlines [''ab'', ''c''] @ CHR 0x0A # ''x'') [] = Some (Inr ([Found ''a'' 0 0, Not_found], ''x''))"
  using try_matches_reports [of "[''ab'', ''c'']" "replicate 1024 nul"
      "\<lambda>t. if length t = 2 then Matched 0 1 else No_match" "''x''"]
  by (simp add: plain_line_def is_cstring_def nul_def report_def)

text \<open>
  C39. When the input ends without an empty line, \<open>try_matches\<close> never ends: \<open>fgets\<close> then leaves the
  last text in the buffer and its result is not checked, so the same text is matched forever.
\<close>

theorem try_matches_loops_at_eof:
  assumes "\<forall>l\<in>set ls. plain_line l \<and> l \<noteq> []" and "ls \<noteq> []" and "length buf = 1024"
  shows "try_matches rx buf (unlines ls) [] = None"
proof -
  obtain tail where "try_matches rx buf (unlines ls) [] =
      try_matches rx (last ls @ nul # tail) [] (map (\<lambda>l. report l (rx l)) ls)"
    using try_matches_lines [OF assms(1,3), of rx "[]" "[]"] assms(2) by auto
  moreover have "plain_line (last ls)" "last ls \<noteq> []" using assms(1,2) by auto
  ultimately show ?thesis by (simp add: try_matches_eof_diverges plain_line_def)
qed

theorem try_matches_loops_at_eof_witness:
  "try_matches (\<lambda>_. No_match) (replicate 1024 nul) (unlines [''ab'']) [] = None"
  using try_matches_loops_at_eof [of "[''ab'']" "replicate 1024 nul" "\<lambda>_. No_match"]
  by (simp add: plain_line_def is_cstring_def nul_def)

end
