(* ===== verification/Simple_Prompt.thy ===== *)
theory Simple_Prompt
  imports C_Stdio
begin

text \<open>
  The prompt of \<open>simple_prompt\<close>: it asks again as long as the character read is a digit from 1 to 6,
  discarding one more character each time (meant to be the newline), and ends at anything else.
\<close>

text \<open>Conversion to \<open>char\<close>, which is signed.\<close>

definition to_char :: "int \<Rightarrow> int" where
  "to_char v = (v + 128) mod 256 - 128"

text \<open>
  The number of prompts printed and the rest of the input, once \<open>Wrong option\<close> is printed. The end of the
  input is the character -1, which \<open>c_getchar\<close> gives as 255: the same after the conversion.
\<close>

fun simple_prompt :: "string \<Rightarrow> nat \<times> string" where
  "simple_prompt [] = (1, [])"
| "simple_prompt (c # cs) =
     (let input = to_char (of_char c - 48) in
      if 1 \<le> input \<and> input \<le> 6
      then (let (n, rest) = simple_prompt (tl cs) in (Suc n, rest))
      else (1, cs))"

text \<open>At the end of the input the test fails as it does for any other character.\<close>

lemma eof_is_no_option: "\<not> 1 \<le> to_char (of_char c_EOF - 48)" "to_char (of_char c_EOF - 48) = to_char (- 1 - 48)"
  by (simp_all add: to_char_def c_EOF_def)

text \<open>The characters that are asked for.\<close>

definition is_option :: "char \<Rightarrow> bool" where
  "is_option c \<longleftrightarrow> c \<in> set ''123456''"

lemma option_range: "1 \<le> to_char (of_char c - 48) \<and> to_char (of_char c - 48) \<le> 6 \<longleftrightarrow> is_option c"
proof -
  have r: "0 \<le> (of_char c :: int)" "(of_char c :: int) < 256"
    using nat_of_char_less_256 [of c] of_nat_of_char [of c, where 'a = int] by linarith+
  have "1 \<le> to_char (of_char c - 48) \<and> to_char (of_char c - 48) \<le> 6 \<longleftrightarrow> (of_char c :: int) \<in> {49, 50, 51, 52, 53, 54}"
  proof (cases "(of_char c :: int) < 176")
    case True
    then have "to_char (of_char c - 48) = of_char c - 48"
      using r by (simp add: to_char_def mod_pos_pos_trivial)
    then show ?thesis by auto
  next
    case False
    then have "(of_char c - 48 + 128) mod 256 = (of_char c - 176 :: int)"
      using r mod_add_self2 [of "of_char c - 176" "256 :: int"] by (simp add: mod_pos_pos_trivial)
    then show ?thesis using False r by (auto simp: to_char_def)
  qed
  also have "\<dots> \<longleftrightarrow> is_option c"
  proof -
    have eq: "(of_char c :: int) = of_char d \<longleftrightarrow> c = d" for d by simp
    show ?thesis
      using eq [of "CHR ''1''"] eq [of "CHR ''2''"] eq [of "CHR ''3''"] eq [of "CHR ''4''"] eq [of "CHR ''5''"]
        eq [of "CHR ''6''"] by (simp add: is_option_def del: of_char_eq_iff)
  qed
  finally show ?thesis .
qed

lemma simple_prompt_option: "is_option c \<Longrightarrow> simple_prompt (c # d # cs) = (let (n, rest) = simple_prompt cs in (Suc n, rest))"
  using option_range [of c] by simp

lemma simple_prompt_other: "\<not> is_option c \<Longrightarrow> simple_prompt (c # cs) = (1, cs)"
  using option_range [of c] by (auto simp: Let_def)

text \<open>
  The prompt always ends. For any sequence of options, each followed by one character, and then a
  character that is no option, it prints one prompt more than there are options and leaves what follows
  unread; at the end of the input it ends as well. An option typed with a second digit loses that
  digit and ends at the newline.
\<close>

theorem simple_prompt_counts:
  assumes "\<forall>(c, d)\<in>set ps. is_option c" and "\<not> is_option x" and "is_option y"
  shows "simple_prompt (concat (map (\<lambda>(c, d). [c, d]) ps) @ x # rest) = (length ps + 1, rest) \<and>
    simple_prompt (concat (map (\<lambda>(c, d). [c, d]) ps)) = (length ps + 1, []) \<and>
    simple_prompt (y # z # CHR 0x0A # rest) = (2, rest)"
proof -
  have "simple_prompt (concat (map (\<lambda>(c, d). [c, d]) ps) @ tl') = (let (n, r) = simple_prompt tl' in (length ps + n, r))" for tl'
    using assms(1)
  proof (induction ps)
    case (Cons p ps)
    then show ?case by (cases p) (auto simp: simple_prompt_option Let_def simp del: simple_prompt.simps(2) split: prod.splits)
  qed simp
  from this [of "x # rest"] this [of "[]"] assms(2,3) show ?thesis
    by (simp add: simple_prompt_other simple_prompt_option is_option_def del: simple_prompt.simps(2))
qed

theorem simple_prompt_counts_witness:
  "simple_prompt (''3'' @ [CHR 0x0A] @ ''6'' @ [CHR 0x0A] @ ''q'' @ ''uit'') = (3, ''uit'')"
  using simple_prompt_counts [of "[(CHR ''3'', CHR 0x0A), (CHR ''6'', CHR 0x0A)]" "CHR ''q''" "CHR ''1''" "''uit''"]
  by (simp add: is_option_def del: simple_prompt.simps)

end
