(* ===== verification/Small_Programs.thy ===== *)
theory Small_Programs
  imports C_Prelude
begin

text \<open>
  The programs of a few lines: \<open>TCP_sockets/src/main.c\<close>, which increments a copy of a variable and then the
  variable itself, \<open>template_C_project/src/main.c\<close>, which passes a struct by its address, the client of the list
  of \<open>linked_list\<close>, the kernel module of \<open>rpi_module\<close>, and those that only say hello.
\<close>

section \<open>Incrementing by value and by reference\<close>

text \<open>\<open>(*p)++\<close> on an \<open>int\<close>, which must not overflow.\<close>

definition int_inc :: "(addr \<rightharpoonup> int) \<Rightarrow> addr \<Rightarrow> (addr \<rightharpoonup> int) cres" where
  "int_inc H p = cbind (deref H p) (\<lambda>v. cbind (c_int (v + 1)) (\<lambda>w. Inr (H(p \<mapsto> w))))"

text \<open>The parameter of \<open>d_increment\<close> is a variable of its own, at \<open>val\<close>.\<close>

definition d_increment :: "addr \<Rightarrow> int \<Rightarrow> (addr \<rightharpoonup> int) \<Rightarrow> (addr \<rightharpoonup> int) cres" where
  "d_increment val v H = cbind (int_inc (H(val \<mapsto> v)) val) (\<lambda>H1. cbind (int_inc H1 val) (\<lambda>H2. Inr (H2(val := None))))"

definition double_increment :: "addr \<Rightarrow> (addr \<rightharpoonup> int) \<Rightarrow> (addr \<rightharpoonup> int) cres" where
  "double_increment val H = cbind (int_inc H val) (\<lambda>H1. int_inc H1 val)"

text \<open>
  \<open>main\<close>; \<open>a\<close>, \<open>b\<close> and \<open>c\<close> are where its variables are, \<open>val\<close> is where a parameter is. The result is what the
  last \<open>printf\<close> prints.
\<close>

definition increments_main :: "addr \<Rightarrow> addr \<Rightarrow> addr \<Rightarrow> addr \<Rightarrow> (int \<times> int \<times> int) cres" where
  "increments_main a b c val =
     cbind (int_inc ((Map.empty(a \<mapsto> 0, b \<mapsto> 5, c \<mapsto> 0)) :: addr \<rightharpoonup> int) a) (\<lambda>H1.
     cbind (deref H1 a) (\<lambda>x. cbind (deref H1 b) (\<lambda>y. cbind (c_int (x + y)) (\<lambda>z.
     cbind (int_inc (H1(c \<mapsto> z)) c) (\<lambda>H2.
     cbind (deref H2 a) (\<lambda>x1. cbind (d_increment val x1 H2) (\<lambda>H3.
     cbind (double_increment a H3) (\<lambda>H4.
     cbind (deref H4 a) (\<lambda>va. cbind (deref H4 b) (\<lambda>vb. cbind (deref H4 c) (\<lambda>vc. Inr (va, vb, vc))))))))))))"

section \<open>A struct passed by its address\<close>

record my_struct =
  mst_a :: int
  mst_b :: int
  mst_foo :: "int list"

definition my_func :: "addr \<Rightarrow> (addr \<rightharpoonup> my_struct) \<Rightarrow> (addr \<rightharpoonup> my_struct) cres" where
  "my_func stru H =
     cbind (deref H stru) (\<lambda>x. cbind (c_int (mst_a x + 1)) (\<lambda>v.
     let H1 = H(stru \<mapsto> x\<lparr>mst_a := v\<rparr>) in
     cbind (deref H1 stru) (\<lambda>y. cbind (c_int (mst_a y + 1)) (\<lambda>w. Inr (H1(stru \<mapsto> y\<lparr>mst_a := w\<rparr>))))))"

text \<open>\<open>main\<close>: \<open>bar\<close> is where its variable is, \<open>c\<close> is what \<open>calloc\<close> returns.\<close>

definition template_main :: "addr \<Rightarrow> addr \<Rightarrow> (addr \<rightharpoonup> my_struct) cres" where
  "template_main bar c =
     cbind (c_int (4 + 1)) (\<lambda>v.
     cbind (my_func bar (Map.empty(bar \<mapsto> \<lparr>mst_a = v, mst_b = 7, mst_foo = [1, 2, 3, 4, 5]\<rparr>))) (\<lambda>H.
       my_func c (if c = NULL then H else H(c \<mapsto> \<lparr>mst_a = 0, mst_b = 0, mst_foo = replicate 5 0\<rparr>))))"

section \<open>Programs that print\<close>

text \<open>
  What a \<open>printf\<close> is given: the format and its arguments. A \<open>main\<close> that ends without a \<open>return\<close> returns 0.
\<close>

type_synonym printout = "string \<times> int list"

text \<open>\<open>SIGIO\<close> and \<open>embedded_button_checker/src/main.c\<close> print \<open>getpid()\<close>, \<open>state_machine/src/main.c\<close> a constant line.\<close>

definition sigio_main :: "int \<Rightarrow> int \<times> printout list" where
  "sigio_main pid = (0, [(''hello world: %d'' @ [CHR 0x0A], [pid])])"

definition button_main :: "int \<Rightarrow> int \<times> printout list" where
  "button_main pid = (0, [(''hello world: %d'' @ [CHR 0x0A], [pid])])"

definition state_machine_main :: "int \<times> printout list" where
  "state_machine_main = (0, [(''hello world'' @ [CHR 0x0A], [])])"

text \<open>The handler of \<open>sigaction\<close>: the signal's number, and the process and user it comes from.\<close>

definition action_handler :: "int \<Rightarrow> int \<Rightarrow> int \<Rightarrow> printout list" where
  "action_handler si_signo si_pid si_uid =
     [(''Sending %d from PID: %ld, UID: %ld'' @ [CHR 0x0A], [si_signo, si_pid, si_uid])]"

text \<open>\<open>rpi_module\<close>: the functions that run when the module is loaded and unloaded, on the kernel's log.\<close>

definition rpi_init :: "printout list \<Rightarrow> int \<times> printout list" where
  "rpi_init log = (0, log @ [(''Hello world'' @ [CHR 0x0A], [])])"

definition rpi_cleanup :: "printout list \<Rightarrow> printout list" where
  "rpi_cleanup log = log @ [(''Goodbye world'' @ [CHR 0x0A], [])]"

text \<open>
  \<open>linked_list/src/main.c\<close>. The list itself, \<open>ll.c\<close>, is not in the repository: its operations are parameters, and
  \<open>first_ID\<close> reads \<open>head.next->ID\<close>.
\<close>

definition linked_list_main :: "(int \<Rightarrow> 's \<Rightarrow> 's cres) \<Rightarrow> (int \<Rightarrow> 's \<Rightarrow> 's cres) \<Rightarrow> ('s \<Rightarrow> int cres) \<Rightarrow> 's \<Rightarrow>
    (int \<times> printout list) cres" where
  "linked_list_main addItem deleteItem first_ID s =
     cbind (addItem 1 s) (\<lambda>s1. cbind (addItem 2 s1) (\<lambda>s2. cbind (deleteItem 1 s2) (\<lambda>s3.
       cbind (first_ID s3) (\<lambda>i. Inr (0, [(''First item'' @ [CHR 39] @ ''s ID: %d'', [i])])))))"

section \<open>What they do\<close>

text \<open>
  \<open>d_increment\<close> leaves every variable of its caller alone, \<open>double_increment\<close> adds two to the variable it
  is given and nothing else; both overflow at the end of the range.
\<close>

lemma increment_by_value:
  assumes "int_min \<le> v" and "H val = None" and "val \<noteq> NULL"
  shows "d_increment val v H = (if v + 2 \<le> int_max then Inr H else Inl Signed_overflow)"
proof -
  have "H(val := None) = H" using assms(2) by (simp add: fun_upd_idem)
  then show ?thesis using assms by (simp add: d_increment_def int_inc_def deref_def c_int_def)
qed

lemma increment_by_reference:
  assumes "int_min \<le> v" and "H p = Some v" and "p \<noteq> NULL"
  shows "double_increment p H = (if v + 2 \<le> int_max then Inr (H(p \<mapsto> v + 2)) else Inl Signed_overflow)"
  using assms by (simp add: double_increment_def int_inc_def deref_def c_int_def add.commute)

text \<open>The first program prints 3, 5 and 7.\<close>

lemma increments_main_prints:
  assumes "distinct [a, b, c, val, NULL]"
  shows "increments_main a b c val = Inr (3, 5, 7)"
proof -
  have "int_min \<le> 1" "1 + 2 \<le> int_max" by (simp_all add: int_min_def int_max_def)
  then have "d_increment val 1 H = Inr H" if "H val = None" for H
    using that assms increment_by_value [of 1 H val] by simp
  moreover have "double_increment a H = Inr (H(a \<mapsto> 3))" if "H a = Some 1" for H
    using that assms increment_by_reference [of 1 H a] by (simp add: int_min_def int_max_def)
  ultimately show ?thesis
    using assms by (auto simp: increments_main_def int_inc_def deref_def c_int_def int_min_def int_max_def)
qed

text \<open>
  \<open>my_func\<close> adds two to the member \<open>a\<close> and changes nothing else; the second program leaves 7 in \<open>bar.a\<close> and 2
  in the struct on the heap, and dereferences NULL when \<open>calloc\<close> fails.
\<close>

lemma my_func_adds:
  assumes "int_min \<le> mst_a x" and "H p = Some x" and "p \<noteq> NULL"
  shows "my_func p H = (if mst_a x + 2 \<le> int_max then Inr (H(p \<mapsto> x\<lparr>mst_a := mst_a x + 2\<rparr>)) else Inl Signed_overflow)"
  using assms by (simp add: my_func_def deref_def c_int_def Let_def add.commute)

lemma template_main_result:
  assumes "bar \<noteq> NULL" and "c \<noteq> bar"
  shows "template_main bar c =
    (if c = NULL then Inl Null_deref
     else Inr (Map.empty(bar \<mapsto> \<lparr>mst_a = 7, mst_b = 7, mst_foo = [1, 2, 3, 4, 5]\<rparr>,
                         c \<mapsto> \<lparr>mst_a = 2, mst_b = 0, mst_foo = replicate 5 0\<rparr>)))"
proof -
  have "int_min \<le> 5" "5 + 2 \<le> int_max" "int_min \<le> 0" "0 + 2 \<le> int_max" by (simp_all add: int_min_def int_max_def)
  then show ?thesis using assms
    by (simp add: template_main_def my_func_adds) (simp add: my_func_def deref_def c_int_def my_func_adds)
qed

text \<open>
  The client of the list prints 2, whether \<open>addItem\<close> puts an item at the beginning or at the end, provided
  \<open>deleteItem\<close> removes the items with the identifier and keeps the others.
\<close>

lemma linked_list_main_prints:
  assumes "\<And>i s. \<exists>s'. addItem i s = Inr s' \<and> (ids s' = i # ids s \<or> ids s' = ids s @ [i])"
    and "\<And>i s. \<exists>s'. deleteItem i s = Inr s' \<and> ids s' = removeAll i (ids s)"
    and "\<And>s. ids s \<noteq> [] \<Longrightarrow> first_ID s = Inr (hd (ids s))" and "ids s = []"
  shows "\<exists>fmt. linked_list_main addItem deleteItem first_ID s = Inr (0, [(fmt, [2])])"
proof -
  obtain s1 where s1: "addItem 1 s = Inr s1" "ids s1 = [1]" using assms(1) [of 1 s] assms(4) by auto
  obtain s2 where s2: "addItem 2 s1 = Inr s2" "ids s2 = [2, 1] \<or> ids s2 = [1, 2]" using assms(1) [of 2 s1] s1(2) by auto
  obtain s3 where s3: "deleteItem 1 s2 = Inr s3" "ids s3 = [2]" using assms(2) [of 1 s2] s2(2) by auto
  show ?thesis using s1(1) s2(1) s3(1) assms(3) [of s3] s3(2) by (simp add: linked_list_main_def)
qed

end
