(* ===== verification/AI_Governor.thy ===== *)
theory AI_Governor
  imports C_Stdio
begin

text \<open>
  The character device of \<open>IOctl\<close>: the kernel module's \<open>ioctl\<close> handler, its initialisation and
  exit, and the user-space program that calls it. What the kernel headers and the kernel provide
  (the encoding of command numbers, copying to and from user memory) is a parameter, collected in
  the record \<open>kernel_api\<close>; what the driver relies on is the predicate \<open>kernel_api_ok\<close>.
\<close>

unbundle bit_operations_syntax

section \<open>Data\<close>

text \<open>An \<open>unsigned int\<close>, a \<open>float\<close> and an enum are four bytes each; a \<open>float\<close> is kept as its bits.\<close>

record AI_gov_profile =
  min_freq :: "32 word"
  max_freq :: "32 word"
  desired_frame_rate :: "32 word"
  current_frame_rate :: "32 word"

record AI_governor =
  gov_profile :: AI_gov_profile
  gov_phase :: "32 word"

text \<open>The layout of the struct: five little-endian words.\<close>

definition enc32 :: "32 word \<Rightarrow> byte list" where
  "enc32 w = map (\<lambda>i. ucast (drop_bit (8 * i) w)) [0, 1, 2, 3]"

definition dec32 :: "byte list \<Rightarrow> 32 word" where
  "dec32 bs = ucast (bs ! 0) OR push_bit 8 (ucast (bs ! 1)) OR push_bit 16 (ucast (bs ! 2)) OR
     push_bit 24 (ucast (bs ! 3))"

definition enc_gov :: "AI_governor \<Rightarrow> byte list" where
  "enc_gov g = enc32 (min_freq (gov_profile g)) @ enc32 (max_freq (gov_profile g)) @
     enc32 (desired_frame_rate (gov_profile g)) @ enc32 (current_frame_rate (gov_profile g)) @
     enc32 (gov_phase g)"

definition dec_gov :: "byte list \<Rightarrow> AI_governor" where
  "dec_gov bs =
     (let f = (\<lambda>i. dec32 (take 4 (drop (4 * i) bs))) in
      \<lparr>gov_profile = \<lparr>min_freq = f 0, max_freq = f 1, desired_frame_rate = f 2,
         current_frame_rate = f 3\<rparr>, gov_phase = f 4\<rparr>)"

definition sizeof_AI_governor :: nat where
  "sizeof_AI_governor = 20"

text \<open>User memory: the mapped bytes.\<close>

type_synonym umem = "addr \<rightharpoonup> byte"

definition mapped :: "umem \<Rightarrow> addr \<Rightarrow> nat \<Rightarrow> bool" where
  "mapped M a n \<longleftrightarrow> (\<forall>i<n. M (a + of_nat i) \<noteq> None)"

fun poke :: "umem \<Rightarrow> addr \<Rightarrow> byte list \<Rightarrow> umem" where
  "poke M a [] = M"
| "poke M a (b # bs) = poke (M(a \<mapsto> b)) (a + 1) bs"

definition peek :: "umem \<Rightarrow> addr \<Rightarrow> nat \<Rightarrow> byte list" where
  "peek M a n = map (\<lambda>i. the (M (a + of_nat i))) [0..<n]"

text \<open>
  The kernel: \<open>k_ioc dir type nr size\<close> is the command number the macros \<open>_IO\<close> (direction 0),
  \<open>_IOW\<close> (1), \<open>_IOR\<close> (2) and \<open>_IOWR\<close> (3) give; the copy functions return the number of bytes not
  copied.
\<close>

record kernel_api =
  k_ioc :: "nat \<Rightarrow> nat \<Rightarrow> nat \<Rightarrow> nat \<Rightarrow> 32 word"
  k_to_user :: "addr \<Rightarrow> byte list \<Rightarrow> umem \<Rightarrow> nat \<times> umem"
  k_from_user :: "umem \<Rightarrow> addr \<Rightarrow> nat \<Rightarrow> nat \<times> byte list"

definition kernel_api_ok :: "kernel_api \<Rightarrow> bool" where
  "kernel_api_ok K \<longleftrightarrow>
     (\<forall>d t n s d' t' n' s'. d < 4 \<longrightarrow> d' < 4 \<longrightarrow> t < 256 \<longrightarrow> t' < 256 \<longrightarrow> n < 256 \<longrightarrow> n' < 256 \<longrightarrow>
        s < 2 ^ 14 \<longrightarrow> s' < 2 ^ 14 \<longrightarrow> k_ioc K d t n s = k_ioc K d' t' n' s' \<longrightarrow>
        d = d' \<and> t = t' \<and> n = n' \<and> s = s') \<and>
     (\<forall>a bs M. if mapped M a (length bs) then k_to_user K a bs M = (0, poke M a bs)
               else fst (k_to_user K a bs M) \<noteq> 0) \<and>
     (\<forall>M a n. if mapped M a n then k_from_user K M a n = (0, peek M a n)
              else fst (k_from_user K M a n) \<noteq> 0)"

section \<open>The driver\<close>

text \<open>\<open>'g'\<close> is 103; the pointer types in the command macros have eight bytes.\<close>

definition GOVERNOR_GET_VARIABLES :: "kernel_api \<Rightarrow> 32 word" where
  "GOVERNOR_GET_VARIABLES K = k_ioc K 2 103 1 8"

definition GOVERNOR_CLR_VARIABLES :: "kernel_api \<Rightarrow> 32 word" where
  "GOVERNOR_CLR_VARIABLES K = k_ioc K 0 103 2 0"

definition GOVERNOR_SET_VARIABLES :: "kernel_api \<Rightarrow> 32 word" where
  "GOVERNOR_SET_VARIABLES K = k_ioc K 1 103 3 8"

definition GOVERNOR_OTHER_FUNCT :: "kernel_api \<Rightarrow> 32 word" where
  "GOVERNOR_OTHER_FUNCT K = k_ioc K 0 103 4 0"

definition EACCES :: int where "EACCES = 13"
definition EINVAL :: int where "EINVAL = 22"

definition governor_zero :: AI_governor where
  "governor_zero = \<lparr>gov_profile = \<lparr>min_freq = 0, max_freq = 0, desired_frame_rate = 0,
     current_frame_rate = 0\<rparr>, gov_phase = 0\<rparr>"

text \<open>\<open>AI_gov_open\<close> and \<open>AI_gov_close\<close> only return 0.\<close>

definition AI_gov_open :: int where "AI_gov_open = 0"
definition AI_gov_close :: int where "AI_gov_close = 0"

text \<open>The handler, on the governor state and user memory. 4.0 as a \<open>float\<close> is \<open>0x40800000\<close>.\<close>

definition AI_gov_ioctl ::
    "kernel_api \<Rightarrow> 32 word \<Rightarrow> addr \<Rightarrow> AI_governor \<Rightarrow> umem \<Rightarrow> int \<times> AI_governor \<times> umem" where
  "AI_gov_ioctl K cmd arg cur M =
     (if cmd = GOVERNOR_GET_VARIABLES K then
        (let (left, M') = k_to_user K arg (enc_gov cur) M in
         (if left \<noteq> 0 then - EACCES else 0, cur, M'))
      else if cmd = GOVERNOR_CLR_VARIABLES K then
        (0, \<lparr>gov_profile = \<lparr>min_freq = 1000, max_freq = 1500, desired_frame_rate = 60,
           current_frame_rate = 0\<rparr>, gov_phase = 0\<rparr>, M)
      else if cmd = GOVERNOR_SET_VARIABLES K then
        (let (left, bs) = k_from_user K M arg sizeof_AI_governor in
         if left \<noteq> 0 then (- EACCES, cur, M)
         else (let g = dec_gov bs in
               (0, cur\<lparr>gov_profile := \<lparr>min_freq = min_freq (gov_profile g),
                    max_freq = max_freq (gov_profile g),
                    desired_frame_rate = desired_frame_rate (gov_profile g),
                    current_frame_rate = current_frame_rate (gov_profile g)\<rparr>,
                    gov_phase := gov_phase g\<rparr>, M)))
      else if cmd = GOVERNOR_OTHER_FUNCT K then
        (0, \<lparr>gov_profile = \<lparr>min_freq = 1, max_freq = 2, desired_frame_rate = 3,
           current_frame_rate = 0x40800000\<rparr>, gov_phase = 5\<rparr>, M)
      else (- EINVAL, cur, M))"

text \<open>The operations of the device file: what the kernel calls for a request of a process.\<close>

datatype dev_request = Dev_open | Dev_release | Dev_ioctl "32 word" addr

definition AI_governor_fops ::
    "kernel_api \<Rightarrow> dev_request \<Rightarrow> AI_governor \<Rightarrow> umem \<Rightarrow> int \<times> AI_governor \<times> umem" where
  "AI_governor_fops K rq cur M = (case rq of
       Dev_open \<Rightarrow> (AI_gov_open, cur, M)
     | Dev_release \<Rightarrow> (AI_gov_close, cur, M)
     | Dev_ioctl cmd arg \<Rightarrow> AI_gov_ioctl K cmd arg cur M)"

text \<open>What the module has registered with the kernel, and the results of the calls of its initialisation.\<close>

datatype resource = Chrdev_region | Cdev | Class | Device

definition AI_gov_ioctl_init ::
    "int \<Rightarrow> int \<Rightarrow> int \<Rightarrow> int \<Rightarrow> resource set \<Rightarrow> int \<times> resource set" where
  "AI_gov_ioctl_init alloc_ret add_ret class_ret device_ret R =
     (if alloc_ret \<noteq> 0 then (alloc_ret, R)
      else (let R1 = insert Chrdev_region R in
        if add_ret < 0 then (add_ret, R1)
        else (let R2 = insert Cdev R1 in
          if class_ret < 0 then (class_ret, R2 - {Cdev} - {Chrdev_region})
          else (let R3 = insert Class R2 in
            if device_ret < 0 then (device_ret, R3 - {Class} - {Cdev} - {Chrdev_region})
            else (0, insert Device R3)))))"

definition AI_gov_ioctl_exit :: "resource set \<Rightarrow> resource set" where
  "AI_gov_ioctl_exit R = R - {Device} - {Class} - {Cdev} - {Chrdev_region}"

text \<open>\<open>device_node\<close>: the permissions written through \<open>mode\<close>; it always returns NULL.\<close>

definition device_node :: "32 word option \<Rightarrow> 32 word option" where
  "device_node mode = (case mode of None \<Rightarrow> None | Some _ \<Rightarrow> Some 438)"

text \<open>The node the module creates under \<open>/dev\<close>.\<close>

definition device_path :: string where
  "device_path = ''/dev/'' @ ''AIgov''"

section \<open>The user program\<close>

definition GOVERNOR_GET_PHASE :: "kernel_api \<Rightarrow> 32 word" where
  "GOVERNOR_GET_PHASE K = k_ioc K 2 103 1 8"

definition GOVERNOR_SET_PHASE :: "kernel_api \<Rightarrow> 32 word" where
  "GOVERNOR_SET_PHASE K = k_ioc K 1 103 2 8"

definition GOVERNOR_CLR_PHASE_VARIABLES :: "kernel_api \<Rightarrow> 32 word" where
  "GOVERNOR_CLR_PHASE_VARIABLES K = k_ioc K 0 103 3 0"

definition GOVERNOR_GET_PHASE_VARIABLE :: "kernel_api \<Rightarrow> 32 word" where
  "GOVERNOR_GET_PHASE_VARIABLE K = k_ioc K 3 103 4 8"

definition GOVERNOR_SET_PHASE_VARIABLE :: "kernel_api \<Rightarrow> 32 word" where
  "GOVERNOR_SET_PHASE_VARIABLE K = k_ioc K 1 103 5 8"

text \<open>The names \<open>get_phase\<close> prints for the values of \<open>enum PHASE_ENUM\<close>.\<close>

definition phase_names :: "string list" where
  "phase_names = [''AI_init'', ''AI_framerate'', ''AI_priority'', ''AI_time'', ''AI_powersave'',
     ''AI_performance'', ''AI_response'', ''AI_exit'']"

definition phase_name :: "32 word \<Rightarrow> string" where
  "phase_name g = (if unat g < length phase_names then phase_names ! unat g else ''INVALID'')"

text \<open>
  A system call's negative result is -1 for the program. The state of one program run against
  the driver: the governor, user memory, standard input, and what was printed.
\<close>

record app_state =
  app_gov :: AI_governor
  app_mem :: umem
  app_in :: string
  app_out :: "string list"

text \<open>
  The bytes the driver copies to the address it is given: those of its struct, less those that could not be
  copied. They must fit the object at that address, \<open>n\<close> is its size.
\<close>

definition copied_out :: "kernel_api \<Rightarrow> 32 word \<Rightarrow> addr \<Rightarrow> AI_governor \<Rightarrow> umem \<Rightarrow> nat" where
  "copied_out K cmd arg cur M =
     (if cmd = GOVERNOR_GET_VARIABLES K then sizeof_AI_governor - fst (k_to_user K arg (enc_gov cur) M) else 0)"

definition sys_ioctl :: "kernel_api \<Rightarrow> 32 word \<Rightarrow> addr \<Rightarrow> nat \<Rightarrow> app_state \<Rightarrow> (int \<times> app_state) cres" where
  "sys_ioctl K cmd arg n s =
     cbind (c_check Out_of_bounds (copied_out K cmd arg (app_gov s) (app_mem s) \<le> n)) (\<lambda>_.
       let (ret, cur, M) = AI_gov_ioctl K cmd arg (app_gov s) (app_mem s) in
       Inr (if ret < 0 then - 1 else ret, s\<lparr>app_gov := cur, app_mem := M\<rparr>))"

abbreviation say :: "string \<Rightarrow> app_state \<Rightarrow> app_state" where
  "say line s \<equiv> s\<lparr>app_out := app_out s @ [line]\<rparr>"

text \<open>\<open>scanf("%d", &v); getchar();\<close> with the value \<open>v\<close> had before.\<close>

definition ask :: "int \<Rightarrow> app_state \<Rightarrow> (int \<times> app_state) cres" where
  "ask v s = cbind (scan_d (app_in s)) (\<lambda>(r, inp).
     Inr (case r of None \<Rightarrow> v | Some x \<Rightarrow> x, s\<lparr>app_in := snd (c_getchar inp)\<rparr>))"

text \<open>In each command \<open>g\<close> is the address of its local variable of that name.\<close>

definition sizeof_PHASE_ENUM :: nat where
  "sizeof_PHASE_ENUM = 4"

definition get_phase :: "kernel_api \<Rightarrow> addr \<Rightarrow> app_state \<Rightarrow> app_state cres" where
  "get_phase K g s =
     cbind (sys_ioctl K (GOVERNOR_GET_PHASE K) g sizeof_PHASE_ENUM s) (\<lambda>(ret, s1).
       Inr (if ret = - 1 then say ''error'' s1
            else say (phase_name (dec32 (peek (app_mem s1) g 4))) s1))"

definition set_phase :: "kernel_api \<Rightarrow> addr \<Rightarrow> int \<Rightarrow> app_state \<Rightarrow> app_state cres" where
  "set_phase K g junk s =
     cbind (ask junk s) (\<lambda>(v, s1).
       cbind (sys_ioctl K (GOVERNOR_SET_PHASE K) g sizeof_PHASE_ENUM
             (s1\<lparr>app_mem := poke (app_mem s1) g (enc32 (word_of_int v))\<rparr>)) (\<lambda>(ret, s2).
         Inr (if ret = - 1 then say ''error'' s2 else s2)))"

definition clr_phase_variables :: "kernel_api \<Rightarrow> app_state \<Rightarrow> app_state cres" where
  "clr_phase_variables K s =
     cbind (sys_ioctl K (GOVERNOR_CLR_PHASE_VARIABLES K) 0 0 s) (\<lambda>(ret, s1).
       Inr (if ret = - 1 then say ''error'' s1 else s1))"

text \<open>
  The struct \<open>AI_gov_ioctl_phase_variable\<close> has sixteen bytes, the phase at offset 0, the index at 4 and the value
  at 8.
\<close>

definition sizeof_phase_variable :: nat where
  "sizeof_phase_variable = 16"

definition set_phase_variable :: "kernel_api \<Rightarrow> addr \<Rightarrow> int \<Rightarrow> app_state \<Rightarrow> app_state cres" where
  "set_phase_variable K g junk s =
     cbind (ask junk s) (\<lambda>(v, s1). cbind (ask v s1) (\<lambda>(v', s2).
       let M1 = poke (app_mem s2) (g + 4) [word_of_int v];
           M2 = poke M1 (g + 8) (map (\<lambda>i. ucast (drop_bit (8 * i) (word_of_int v' :: 64 word))) [0..<8]) in
       cbind (sys_ioctl K (GOVERNOR_SET_PHASE_VARIABLE K) g sizeof_phase_variable (s2\<lparr>app_mem := M2\<rparr>)) (\<lambda>(ret, s3).
         Inr (if ret = - 1 then say ''error'' s3 else say ''set phase variable'' s3))))"

definition get_phase_variable :: "kernel_api \<Rightarrow> addr \<Rightarrow> int \<Rightarrow> app_state \<Rightarrow> app_state cres" where
  "get_phase_variable K g junk s =
     cbind (ask junk s) (\<lambda>(v, s1).
       cbind (sys_ioctl K (GOVERNOR_GET_PHASE_VARIABLE K) g sizeof_phase_variable
             (s1\<lparr>app_mem := poke (app_mem s1) (g + 4) [word_of_int v]\<rparr>)) (\<lambda>(ret, s2).
         Inr (if ret = - 1 then say ''error'' s2 else say ''variable value'' s2)))"

datatype app_command = E_get_p | E_set_p | E_clr | E_get_v | E_set_v

definition parse_args :: "string list \<Rightarrow> app_command option" where
  "parse_args argv =
     (if length argv = 1 then Some E_get_p
      else if length argv = 2 then
        (if argv ! 1 = ''-gp'' then Some E_get_p
         else if argv ! 1 = ''-sp'' then Some E_set_p
         else if argv ! 1 = ''-clr'' then Some E_clr
         else if argv ! 1 = ''-gv'' then Some E_get_v
         else if argv ! 1 = ''-sv'' then Some E_set_v
         else None)
      else None)"

definition app_file_name :: string where
  "app_file_name = ''/dev/AI_governor_ioctl''"

text \<open>\<open>fopen\<close> is what opening a path returns, -1 when it fails.\<close>

definition app_main ::
    "kernel_api \<Rightarrow> (string \<Rightarrow> int) \<Rightarrow> addr \<Rightarrow> int \<Rightarrow> string list \<Rightarrow> app_state \<Rightarrow> (int \<times> app_state) cres" where
  "app_main K fopen g junk argv s =
     (case parse_args argv of
        None \<Rightarrow> Inr (1, say ''usage'' s)
      | Some command \<Rightarrow>
          let s1 = (if length argv = 1 then say ''default command'' s else s) in
          if fopen app_file_name = - 1 then Inr (2, say ''error'' s1)
          else cbind (case command of
                 E_get_p \<Rightarrow> get_phase K g s1
               | E_set_p \<Rightarrow> set_phase K g junk s1
               | E_clr \<Rightarrow> clr_phase_variables K s1
               | E_get_v \<Rightarrow> get_phase_variable K g junk s1
               | E_set_v \<Rightarrow> set_phase_variable K g junk s1) (\<lambda>s'. Inr (0, s')))"

section \<open>Lemmas: layout and memory\<close>

lemma enc32_length [simp]: "length (enc32 w) = 4"
  by (simp add: enc32_def)

lemma enc_gov_length: "length (enc_gov g) = sizeof_AI_governor"
  by (simp add: enc_gov_def sizeof_AI_governor_def)

lemma dec_enc32: "dec32 (enc32 w) = w"
proof (rule bit_word_eqI)
  fix n assume "n < LENGTH(32)"
  then consider "n < 8" | "8 \<le> n" "n < 16" | "16 \<le> n" "n < 24" | "24 \<le> n" "n < 32" by fastforce
  then show "bit (dec32 (enc32 w)) n = bit w n"
    by cases (auto simp: dec32_def enc32_def bit_simps)
qed

lemma enc_dec32:
  assumes "length bs = 4"
  shows "enc32 (dec32 bs) = bs"
proof -
  obtain a b c d where bs: "bs = [a, b, c, d]"
    using assms by (auto simp: length_Suc_conv numeral_eq_Suc)
  have "ucast (drop_bit 0 (dec32 bs)) = a" "ucast (drop_bit 8 (dec32 bs)) = b"
    "ucast (drop_bit 16 (dec32 bs)) = c" "ucast (drop_bit 24 (dec32 bs)) = d"
    by (rule bit_word_eqI; auto simp: bs dec32_def bit_simps dest: bit_imp_le_length)+
  then show ?thesis by (simp add: enc32_def bs)
qed

lemma dec_enc_gov: "dec_gov (enc_gov g) = g"
  by (simp add: dec_gov_def enc_gov_def Let_def dec_enc32)

lemma take_drop_split:
  "length bs = 20 \<Longrightarrow> take 4 bs @ take 4 (drop 4 bs) @ take 4 (drop 8 bs) @ take 4 (drop 12 bs) @
    take 4 (drop 16 bs) = bs"
  by (intro nth_equalityI) (auto simp: nth_append)

lemma enc_dec_gov:
  assumes "length bs = 20"
  shows "enc_gov (dec_gov bs) = bs"
  using assms take_drop_split [OF assms] by (simp add: enc_gov_def dec_gov_def Let_def enc_dec32)

lemma poke_out: "(\<And>i. i < length bs \<Longrightarrow> x \<noteq> a + of_nat i) \<Longrightarrow> poke M a bs x = M x"
proof (induction bs arbitrary: M a)
  case (Cons b bs)
  have "x \<noteq> a" using Cons.prems [of 0] by simp
  moreover have "x \<noteq> a + 1 + of_nat i" if "i < length bs" for i
    using Cons.prems [of "Suc i"] that by (simp add: ac_simps)
  ultimately show ?case using Cons.IH [of "a + 1" "M(a \<mapsto> b)"] by (simp add: fun_upd_def)
qed simp

lemma poke_in:
  assumes "i < length bs" and "length bs \<le> 2 ^ 64"
  shows "poke M a bs (a + of_nat i) = Some (bs ! i)"
  using assms
proof (induction bs arbitrary: M a i)
  case (Cons b bs)
  show ?case
  proof (cases i)
    case 0
    have "a \<noteq> a + 1 + of_nat j" if "j < length bs" for j
    proof -
      have "Suc j < 2 ^ 64" using that Cons.prems(2) by simp
      then have "(of_nat (Suc j) :: addr) \<noteq> 0" by (simp only: of_nat_eq_0_iff word_of_nat_eq_0_iff) (auto dest: dvd_imp_le)
      then show ?thesis by (simp add: ac_simps)
    qed
    then show ?thesis using 0 poke_out [of bs a "a + 1" "M(a \<mapsto> b)"] by simp
  next
    case (Suc j)
    then show ?thesis using Cons.IH [of j "M(a \<mapsto> b)" "a + 1"] Cons.prems
      by (simp add: ac_simps fun_upd_def)
  qed
qed simp

lemma peek_poke: "length bs \<le> 2 ^ 64 \<Longrightarrow> peek (poke M a bs) a (length bs) = bs"
  by (intro nth_equalityI) (simp_all add: peek_def poke_in)

lemma length_peek [simp]: "length (peek M a n) = n"
  by (simp add: peek_def)

lemma kernel_copies:
  assumes "kernel_api_ok K"
  shows "mapped M a (length bs) \<Longrightarrow> k_to_user K a bs M = (0, poke M a bs)"
    and "\<not> mapped M a (length bs) \<Longrightarrow> fst (k_to_user K a bs M) \<noteq> 0"
    and "mapped M a n \<Longrightarrow> k_from_user K M a n = (0, peek M a n)"
    and "\<not> mapped M a n \<Longrightarrow> fst (k_from_user K M a n) \<noteq> 0"
  using assms unfolding kernel_api_ok_def by (metis)+

text \<open>Commands that differ in a field have different numbers.\<close>

lemma ioc_eq_iff:
  assumes "kernel_api_ok K" and "d < 4" "d' < 4" "n < 256" "n' < 256" "s < 2 ^ 14" "s' < 2 ^ 14"
  shows "k_ioc K d 103 n s = k_ioc K d' 103 n' s' \<longleftrightarrow> d = d' \<and> n = n' \<and> s = s'"
proof
  assume eq: "k_ioc K d 103 n s = k_ioc K d' 103 n' s'"
  have "d < 4 \<longrightarrow> d' < 4 \<longrightarrow> (103::nat) < 256 \<longrightarrow> (103::nat) < 256 \<longrightarrow> n < 256 \<longrightarrow> n' < 256 \<longrightarrow>
      s < 2 ^ 14 \<longrightarrow> s' < 2 ^ 14 \<longrightarrow> k_ioc K d 103 n s = k_ioc K d' 103 n' s' \<longrightarrow>
      d = d' \<and> (103::nat) = 103 \<and> n = n' \<and> s = s'"
    using assms(1) unfolding kernel_api_ok_def by blast
  then show "d = d' \<and> n = n' \<and> s = s'" using assms eq by simp
qed simp

lemmas command_defs = GOVERNOR_GET_VARIABLES_def GOVERNOR_CLR_VARIABLES_def
  GOVERNOR_SET_VARIABLES_def GOVERNOR_OTHER_FUNCT_def GOVERNOR_GET_PHASE_def
  GOVERNOR_SET_PHASE_def GOVERNOR_CLR_PHASE_VARIABLES_def GOVERNOR_GET_PHASE_VARIABLE_def
  GOVERNOR_SET_PHASE_VARIABLE_def

lemma ioctl_get:
  assumes "kernel_api_ok K" and "mapped M b sizeof_AI_governor"
  shows "AI_gov_ioctl K (GOVERNOR_GET_VARIABLES K) b cur M = (0, cur, poke M b (enc_gov cur))"
  using kernel_copies(1) [OF assms(1), of M b "enc_gov cur"] assms(2)
  by (simp add: AI_gov_ioctl_def enc_gov_length)

lemma ioctl_set:
  assumes "kernel_api_ok K" and "mapped M a sizeof_AI_governor"
  shows "AI_gov_ioctl K (GOVERNOR_SET_VARIABLES K) a cur M =
    (0, dec_gov (peek M a sizeof_AI_governor), M)"
  using kernel_copies(3) [OF assms(1), of M a sizeof_AI_governor] assms(2)
    ioc_eq_iff [OF assms(1)]
  by (simp add: AI_gov_ioctl_def command_defs Let_def)

text \<open>A concrete kernel: the encoding of Linux, and copies that fail as a whole.\<close>

definition linux_api :: kernel_api where
  "linux_api = \<lparr>k_ioc = (\<lambda>d t n s. of_nat (((d * 2 ^ 14 + s) * 256 + t) * 256 + n)),
     k_to_user = (\<lambda>a bs M. if mapped M a (length bs) then (0, poke M a bs) else (1, M)),
     k_from_user = (\<lambda>M a n. if mapped M a n then (0, peek M a n) else (1, []))\<rparr>"

lemma pack_unique:
  fixes a b x y k :: nat
  assumes "a * k + x = b * k + y" and "x < k" and "y < k"
  shows "a = b \<and> x = y"
proof -
  have "(a * k + x) div k = a" "(a * k + x) mod k = x" using assms(2) by simp_all
  moreover have "(b * k + y) div k = b" "(b * k + y) mod k = y" using assms(3) by simp_all
  ultimately show ?thesis using assms(1) by metis
qed

lemma linux_api_ok: "kernel_api_ok linux_api"
proof -
  have "d = d' \<and> t = t' \<and> n = n' \<and> s = s'"
    if b: "d < 4" "d' < 4" "t < 256" "t' < 256" "n < 256" "n' < 256" "s < 2 ^ 14" "s' < 2 ^ 14"
      and eq: "k_ioc linux_api d t n s = k_ioc linux_api d' t' n' s'" for d t n s d' t' n' s'
  proof -
    let ?c = "\<lambda>d t n s. ((d * 2 ^ 14 + s) * 256 + t) * 256 + n :: nat"
    have "?c d t n s < 2 ^ 32" "?c d' t' n' s' < 2 ^ 32" using b by simp_all
    moreover have "unat (of_nat (?c d t n s) :: 32 word) = unat (of_nat (?c d' t' n' s') :: 32 word)"
      using eq unfolding linux_api_def by (simp only: kernel_api.select_convs)
    then have "?c d t n s mod 2 ^ 32 = ?c d' t' n' s' mod 2 ^ 32"
      by (simp only: unat_of_nat len_bit0 len_num1) simp
    ultimately have "?c d t n s = ?c d' t' n' s'" by (simp only: mod_less)
    from pack_unique [OF this b(5,6)] pack_unique [of _ 256 t _ t'] pack_unique [of d "2 ^ 14" s d' s'] b
    show ?thesis by blast
  qed
  then have "\<forall>d t n s d' t' n' s'. d < 4 \<longrightarrow> d' < 4 \<longrightarrow> t < 256 \<longrightarrow> t' < 256 \<longrightarrow> n < 256 \<longrightarrow> n' < 256 \<longrightarrow>
        s < 2 ^ 14 \<longrightarrow> s' < 2 ^ 14 \<longrightarrow> k_ioc linux_api d t n s = k_ioc linux_api d' t' n' s' \<longrightarrow>
        d = d' \<and> t = t' \<and> n = n' \<and> s = s'" by blast
  then show ?thesis unfolding kernel_api_ok_def by (auto simp: linux_api_def)
qed

text \<open>A command number the driver does not know.\<close>

lemma ioctl_unknown:
  assumes "cmd \<noteq> GOVERNOR_GET_VARIABLES K" and "cmd \<noteq> GOVERNOR_CLR_VARIABLES K"
    and "cmd \<noteq> GOVERNOR_SET_VARIABLES K" and "cmd \<noteq> GOVERNOR_OTHER_FUNCT K"
  shows "AI_gov_ioctl K cmd arg cur M = (- EINVAL, cur, M)"
  using assms by (simp add: AI_gov_ioctl_def)

lemma app_unknown:
  assumes "kernel_api_ok K"
  shows "AI_gov_ioctl K (GOVERNOR_SET_PHASE K) arg cur M = (- EINVAL, cur, M)"
    and "AI_gov_ioctl K (GOVERNOR_CLR_PHASE_VARIABLES K) arg cur M = (- EINVAL, cur, M)"
    and "AI_gov_ioctl K (GOVERNOR_GET_PHASE_VARIABLE K) arg cur M = (- EINVAL, cur, M)"
    and "AI_gov_ioctl K (GOVERNOR_SET_PHASE_VARIABLE K) arg cur M = (- EINVAL, cur, M)"
  by (rule ioctl_unknown; simp add: command_defs ioc_eq_iff [OF assms])+

text \<open>
  Reading the phase has the number of reading the variables: the driver's struct is copied over the four bytes of the
  program's variable. When the memory behind it cannot be written, some bytes of it are, and the call fails.
\<close>

lemma get_phase_number: "GOVERNOR_GET_PHASE K = GOVERNOR_GET_VARIABLES K"
  by (simp add: command_defs)

lemma get_phase_overruns:
  assumes "kernel_api_ok K" and "mapped (app_mem s) g sizeof_AI_governor"
  shows "get_phase K g s = Inl Out_of_bounds"
proof -
  have "fst (k_to_user K g (enc_gov (app_gov s)) (app_mem s)) = 0"
    using kernel_copies(1) [OF assms(1), of "app_mem s" g "enc_gov (app_gov s)"] assms(2) by (simp add: enc_gov_length)
  then show ?thesis
    by (simp add: get_phase_def sys_ioctl_def copied_out_def get_phase_number sizeof_AI_governor_def
      sizeof_PHASE_ENUM_def)
qed

lemma get_phase_unmapped:
  assumes "kernel_api_ok K" and "\<not> mapped (app_mem s) g sizeof_AI_governor"
  shows "get_phase K g s = Inl Out_of_bounds \<or> (\<exists>M. get_phase K g s = Inr (say ''error'' (s\<lparr>app_mem := M\<rparr>)))"
proof -
  obtain left M where c: "k_to_user K g (enc_gov (app_gov s)) (app_mem s) = (left, M)" by fastforce
  then have "left \<noteq> 0"
    using kernel_copies(2) [OF assms(1), of "app_mem s" g "enc_gov (app_gov s)"] assms(2) by (simp add: enc_gov_length)
  with c have "AI_gov_ioctl K (GOVERNOR_GET_PHASE K) g (app_gov s) (app_mem s) = (- EACCES, app_gov s, M)"
    by (simp add: AI_gov_ioctl_def get_phase_number)
  then show ?thesis
    by (auto simp: get_phase_def sys_ioctl_def EACCES_def c_check_def)
qed

section \<open>Properties\<close>

text \<open>
  Setting the governor's variables from one user buffer and getting them into another copies
  the twenty bytes of the struct exactly, for every content of the buffer: both calls return 0 and
  no other byte of user memory changes.
\<close>

theorem governor_set_get:
  assumes "kernel_api_ok K" and "mapped M a sizeof_AI_governor" and "mapped M b sizeof_AI_governor"
  shows "\<exists>cur'. AI_gov_ioctl K (GOVERNOR_SET_VARIABLES K) a cur M = (0, cur', M) \<and>
    AI_gov_ioctl K (GOVERNOR_GET_VARIABLES K) b cur' M = (0, cur', poke M b (peek M a sizeof_AI_governor)) \<and>
    peek (poke M b (peek M a sizeof_AI_governor)) b sizeof_AI_governor = peek M a sizeof_AI_governor"
proof -
  let ?bs = "peek M a sizeof_AI_governor"
  have "enc_gov (dec_gov ?bs) = ?bs" by (rule enc_dec_gov) (simp add: sizeof_AI_governor_def)
  moreover have "peek (poke M b ?bs) b (length ?bs) = ?bs"
    by (rule peek_poke) (simp add: sizeof_AI_governor_def)
  ultimately show ?thesis
    using ioctl_set [OF assms(1,2)] ioctl_get [OF assms(1,3), of "dec_gov ?bs"] by simp
qed

theorem governor_set_get_witness:
  "\<exists>cur'. AI_gov_ioctl linux_api (GOVERNOR_SET_VARIABLES linux_api) 64 governor_zero (\<lambda>_. Some 7) =
    (0, cur', \<lambda>_. Some 7)"
proof -
  have "mapped (\<lambda>_. Some 7) x n" for x n by (simp add: mapped_def)
  then show ?thesis using governor_set_get [OF linux_api_ok, of "\<lambda>_. Some 7" 64 64 governor_zero] by blast
qed

text \<open>
  The error paths change nothing in the governor: a command with any other number returns
  -EINVAL and leaves user memory alone, and a buffer that is not mapped makes set and get return
  -EACCES.
\<close>

theorem governor_errors:
  assumes "kernel_api_ok K" and "\<not> mapped M a sizeof_AI_governor"
    and "cmd \<notin> {GOVERNOR_GET_VARIABLES K, GOVERNOR_CLR_VARIABLES K, GOVERNOR_SET_VARIABLES K,
      GOVERNOR_OTHER_FUNCT K}"
  shows "AI_gov_ioctl K cmd b cur M = (- EINVAL, cur, M) \<and>
    AI_gov_ioctl K (GOVERNOR_SET_VARIABLES K) a cur M = (- EACCES, cur, M) \<and>
    (\<exists>M'. AI_gov_ioctl K (GOVERNOR_GET_VARIABLES K) a cur M = (- EACCES, cur, M'))"
proof -
  have "fst (k_to_user K a (enc_gov cur) M) \<noteq> 0"
    using kernel_copies(2) [OF assms(1)] assms(2) by (simp add: enc_gov_length)
  moreover have "fst (k_from_user K M a sizeof_AI_governor) \<noteq> 0"
    using kernel_copies(4) [OF assms(1)] assms(2) by blast
  ultimately show ?thesis
    using assms(3) ioctl_unknown [of cmd K b cur M] ioc_eq_iff [OF assms(1)]
    by (auto simp: AI_gov_ioctl_def command_defs Let_def split: prod.splits)
qed

theorem governor_errors_witness:
  "AI_gov_ioctl linux_api 0 64 governor_zero Map.empty = (- 22, governor_zero, Map.empty) \<and>
    AI_gov_ioctl linux_api (GOVERNOR_SET_VARIABLES linux_api) 64 governor_zero Map.empty =
      (- 13, governor_zero, Map.empty)"
proof -
  have "\<not> mapped Map.empty 64 sizeof_AI_governor"
    by (auto simp: mapped_def sizeof_AI_governor_def intro: exI [of _ 0])
  moreover have "0 \<notin> {GOVERNOR_GET_VARIABLES linux_api, GOVERNOR_CLR_VARIABLES linux_api,
      GOVERNOR_SET_VARIABLES linux_api, GOVERNOR_OTHER_FUNCT linux_api}"
    by (simp add: command_defs linux_api_def)
  ultimately show ?thesis
    using governor_errors [OF linux_api_ok, of Map.empty 64 0 64 governor_zero]
    by (simp add: EINVAL_def EACCES_def)
qed

text \<open>
  The user program does not fit the driver. Four of its five commands carry numbers the driver
  does not know and fail with no effect; the fifth, reading the phase, has the number of
  GET_VARIABLES, so the driver writes the twenty bytes of its struct over the four bytes of the
  program's variable and the sixteen after it. It also opens a path other than the one the driver creates.
\<close>

lemma sys_ioctl_unknown:
  assumes "kernel_api_ok K"
  shows "sys_ioctl K (GOVERNOR_SET_PHASE K) a n s = Inr (- 1, s)"
    and "sys_ioctl K (GOVERNOR_CLR_PHASE_VARIABLES K) a n s = Inr (- 1, s)"
    and "sys_ioctl K (GOVERNOR_GET_PHASE_VARIABLE K) a n s = Inr (- 1, s)"
    and "sys_ioctl K (GOVERNOR_SET_PHASE_VARIABLE K) a n s = Inr (- 1, s)"
proof -
  have "copied_out K cmd a (app_gov s) (app_mem s) = 0"
    if "cmd \<in> {GOVERNOR_SET_PHASE K, GOVERNOR_CLR_PHASE_VARIABLES K, GOVERNOR_GET_PHASE_VARIABLE K,
      GOVERNOR_SET_PHASE_VARIABLE K}" for cmd
    using that by (auto simp: copied_out_def command_defs ioc_eq_iff [OF assms])
  then show "sys_ioctl K (GOVERNOR_SET_PHASE K) a n s = Inr (- 1, s)"
    and "sys_ioctl K (GOVERNOR_CLR_PHASE_VARIABLES K) a n s = Inr (- 1, s)"
    and "sys_ioctl K (GOVERNOR_GET_PHASE_VARIABLE K) a n s = Inr (- 1, s)"
    and "sys_ioctl K (GOVERNOR_SET_PHASE_VARIABLE K) a n s = Inr (- 1, s)"
    by (simp_all add: sys_ioctl_def app_unknown [OF assms] EINVAL_def)
qed

theorem app_driver_mismatch:
  assumes "kernel_api_ok K" and "mapped (app_mem s) g sizeof_AI_governor"
  shows "sys_ioctl K (GOVERNOR_SET_PHASE K) arg n s = Inr (- 1, s) \<and>
    clr_phase_variables K s = Inr (say ''error'' s) \<and>
    sys_ioctl K (GOVERNOR_GET_PHASE_VARIABLE K) arg n s = Inr (- 1, s) \<and>
    sys_ioctl K (GOVERNOR_SET_PHASE_VARIABLE K) arg n s = Inr (- 1, s) \<and>
    get_phase K g s = Inl Out_of_bounds \<and>
    app_file_name \<noteq> device_path"
  using sys_ioctl_unknown [OF assms(1)] get_phase_overruns [OF assms]
  by (simp add: clr_phase_variables_def app_file_name_def device_path_def)

theorem app_driver_mismatch_witness:
  "get_phase linux_api 64 \<lparr>app_gov = governor_zero\<lparr>gov_phase := 3\<rparr>,
      app_mem = (\<lambda>_. Some 7), app_in = [], app_out = []\<rparr> = Inl Out_of_bounds"
  using app_driver_mismatch [OF linux_api_ok, of "\<lparr>app_gov = governor_zero\<lparr>gov_phase := 3\<rparr>,
      app_mem = (\<lambda>_. Some 7), app_in = [], app_out = []\<rparr>" 64]
  by (simp add: mapped_def)

text \<open>
  Loading the module registers everything or, when a call fails, leaves nothing behind, except
  when adding the character device fails: then the device numbers stay reserved. After a
  successful load, unloading releases everything.
\<close>

theorem module_init_exit:
  shows "case AI_gov_ioctl_init r1 r2 r3 r4 {} of (ret, R) \<Rightarrow>
    (ret = 0 \<longrightarrow> R = {Chrdev_region, Cdev, Class, Device} \<and> AI_gov_ioctl_exit R = {}) \<and>
    (ret \<noteq> 0 \<longrightarrow> R = (if r1 = 0 \<and> r2 < 0 then {Chrdev_region} else {}))"
  by (auto simp: AI_gov_ioctl_init_def AI_gov_ioctl_exit_def Let_def)

theorem module_init_exit_witness:
  "AI_gov_ioctl_init 0 (- 12) 0 0 {} = (- 12, {Chrdev_region})"
  using module_init_exit [of 0 "- 12" 0 0] by (auto simp: AI_gov_ioctl_init_def)

end
