(* ===== verification/Governor_Session.thy ===== *)
theory Governor_Session
  imports AI_Governor
begin

text \<open>
  The device of \<open>IOctl\<close> seen from outside. For the processes that open it, the driver is a register of
  twenty bytes: whatever sequence of requests they make, its answers and its effect on their memory are
  those of the register. The program of \<open>AI_governor_app.c\<close> is one such process, and one that never
  changes the register: four of its commands are refused, and the fifth is answered with more bytes than it has room for.
\<close>

section \<open>Sequences of requests\<close>

fun dev_session :: "kernel_api \<Rightarrow> dev_request list \<Rightarrow> AI_governor \<Rightarrow> umem \<Rightarrow> int list \<times> AI_governor \<times> umem" where
  "dev_session K [] cur M = ([], cur, M)"
| "dev_session K (rq # rqs) cur M =
     (let (ret, cur1, M1) = AI_governor_fops K rq cur M;
          (rets, cur2, M2) = dev_session K rqs cur1 M1 in (ret # rets, cur2, M2))"

text \<open>
  The specification: a register of bytes. A process reads it into its memory, writes it from there, or
  sets it to one of two constants; a buffer that is not mapped and a request that is not known
  leave it alone.
\<close>

definition reg_words :: "32 word list \<Rightarrow> byte list" where
  "reg_words ws = concat (map enc32 ws)"

definition reg_request :: "kernel_api \<Rightarrow> dev_request \<Rightarrow> byte list \<Rightarrow> umem \<Rightarrow> int \<times> byte list \<times> umem" where
  "reg_request K rq reg M = (case rq of
       Dev_ioctl cmd a \<Rightarrow>
         if cmd = GOVERNOR_GET_VARIABLES K then
           (if mapped M a (length reg) then (0, reg, poke M a reg)
            else (- EACCES, reg, snd (k_to_user K a reg M)))
         else if cmd = GOVERNOR_SET_VARIABLES K then
           (if mapped M a (length reg) then (0, peek M a (length reg), M) else (- EACCES, reg, M))
         else if cmd = GOVERNOR_CLR_VARIABLES K then (0, reg_words [1000, 1500, 60, 0, 0], M)
         else if cmd = GOVERNOR_OTHER_FUNCT K then (0, reg_words [1, 2, 3, 0x40800000, 5], M)
         else (- EINVAL, reg, M)
     | _ \<Rightarrow> (0, reg, M))"

fun reg_session :: "kernel_api \<Rightarrow> dev_request list \<Rightarrow> byte list \<Rightarrow> umem \<Rightarrow> int list \<times> byte list \<times> umem" where
  "reg_session K [] reg M = ([], reg, M)"
| "reg_session K (rq # rqs) reg M =
     (let (ret, reg1, M1) = reg_request K rq reg M;
          (rets, reg2, M2) = reg_session K rqs reg1 M1 in (ret # rets, reg2, M2))"

lemma fops_reg:
  assumes "kernel_api_ok K" and "AI_governor_fops K rq cur M = (ret, cur', M')"
  shows "reg_request K rq (enc_gov cur) M = (ret, enc_gov cur', M')"
proof (cases rq)
  case (Dev_ioctl cmd a)
  then have io: "AI_gov_ioctl K cmd a cur M = (ret, cur', M')" using assms(2) by (simp add: AI_governor_fops_def)
  note copies = kernel_copies [OF assms(1)] and ne = ioc_eq_iff [OF assms(1)]
  consider "cmd = GOVERNOR_GET_VARIABLES K" | "cmd = GOVERNOR_SET_VARIABLES K"
    | "cmd \<noteq> GOVERNOR_GET_VARIABLES K" "cmd \<noteq> GOVERNOR_SET_VARIABLES K" by blast
  then show ?thesis
  proof cases
    case 1
    with io Dev_ioctl copies(1) [of M a "enc_gov cur"] copies(2) [of M a "enc_gov cur"] show ?thesis
      by (auto simp: AI_gov_ioctl_def reg_request_def split: prod.splits if_splits)
  next
    case 2
    then have "cmd \<noteq> GOVERNOR_GET_VARIABLES K" "cmd \<noteq> GOVERNOR_CLR_VARIABLES K"
      using ne by (simp_all add: command_defs)
    moreover have "enc_gov (dec_gov (peek M a sizeof_AI_governor)) = peek M a sizeof_AI_governor"
      by (rule enc_dec_gov) (simp add: sizeof_AI_governor_def)
    ultimately show ?thesis using 2 io Dev_ioctl copies(4) [of M a sizeof_AI_governor] ioctl_set [OF assms(1), of M a cur]
      by (cases "mapped M a sizeof_AI_governor")
        (auto simp: AI_gov_ioctl_def reg_request_def Let_def enc_gov_length split: prod.splits if_splits)
  next
    case 3
    with io Dev_ioctl show ?thesis
      by (auto simp: AI_gov_ioctl_def reg_request_def reg_words_def enc_gov_def split: if_splits)
  qed
qed (use assms(2) in \<open>simp_all add: AI_governor_fops_def reg_request_def AI_gov_open_def AI_gov_close_def\<close>)

section \<open>What the user program can do\<close>

text \<open>Reading a number from the input touches nothing else.\<close>

lemma ask_keeps:
  assumes "ask v s = Inr (w, s')"
  shows "app_gov s' = app_gov s \<and> app_mem s' = app_mem s \<and> app_out s' = app_out s"
  using assms by (auto simp: ask_def cres_simps)

text \<open>What a command other than reading the phase takes from the input.\<close>

definition asked :: "app_command \<Rightarrow> int \<Rightarrow> app_state \<Rightarrow> app_state cres" where
  "asked c junk s = (case c of
       E_clr \<Rightarrow> Inr s
     | E_set_v \<Rightarrow> cbind (ask junk s) (\<lambda>(v, s1). cbind (ask v s1) (\<lambda>(_, s2). Inr s2))
     | _ \<Rightarrow> cbind (ask junk s) (\<lambda>(_, s1). Inr s1))"

lemma asked_keeps:
  assumes "asked c junk s = Inr s'"
  shows "app_gov s' = app_gov s \<and> app_mem s' = app_mem s \<and> app_out s' = app_out s"
  using assms by (cases c) (auto simp: asked_def cres_simps dest!: ask_keeps)

text \<open>The commands other than reading the phase report an error and leave the driver alone.\<close>

definition refused :: "app_state cres \<Rightarrow> app_state cres \<Rightarrow> bool" where
  "refused input result \<longleftrightarrow> (case input of
       Inl e \<Rightarrow> result = Inl e
     | Inr s \<Rightarrow> \<exists>M. result = Inr (say ''error'' (s\<lparr>app_mem := M\<rparr>)))"

lemma commands_fail:
  assumes "kernel_api_ok K"
  shows "refused (asked E_set_p junk s) (set_phase K g junk s)"
    and "refused (asked E_get_v junk s) (get_phase_variable K g junk s)"
    and "refused (asked E_set_v junk s) (set_phase_variable K g junk s)"
    and "refused (asked E_clr junk s) (clr_phase_variables K s)"
proof -
  show "refused (asked E_set_p junk s) (set_phase K g junk s)"
    by (cases "ask junk s") (auto simp: refused_def asked_def set_phase_def sys_ioctl_unknown [OF assms])
  show "refused (asked E_get_v junk s) (get_phase_variable K g junk s)"
    by (cases "ask junk s") (auto simp: refused_def asked_def get_phase_variable_def sys_ioctl_unknown [OF assms])
  show "refused (asked E_clr junk s) (clr_phase_variables K s)"
    by (auto simp: refused_def asked_def clr_phase_variables_def sys_ioctl_unknown [OF assms]
      intro!: exI [of _ "app_mem s"])
  show "refused (asked E_set_v junk s) (set_phase_variable K g junk s)"
  proof (cases "ask junk s")
    case (Inr p)
    then obtain v s1 where p: "ask junk s = Inr (v, s1)" by (cases p) simp
    then show ?thesis
      by (cases "ask v s1") (auto simp: refused_def asked_def set_phase_variable_def sys_ioctl_unknown [OF assms] Let_def)
  qed (simp add: refused_def asked_def set_phase_variable_def)
qed

section \<open>Properties\<close>

text \<open>
  C8. The driver implements a register of twenty bytes: for every sequence of opens, releases and
  \<open>ioctl\<close> requests with any command numbers and buffers, mapped or not, the results, the user memory
  and the bytes of the governor's struct are those of the register.
\<close>

theorem governor_register:
  assumes "kernel_api_ok K" and "dev_session K rqs cur M = (rets, cur', M')"
  shows "reg_session K rqs (enc_gov cur) M = (rets, enc_gov cur', M')"
  using assms(2)
proof (induction rqs arbitrary: cur M rets)
  case (Cons rq rqs)
  then show ?case using fops_reg [OF assms(1), of rq cur M]
    by (auto simp: Let_def split: prod.splits)
qed simp

theorem governor_register_witness:
  "\<exists>M'. dev_session linux_api [Dev_open, Dev_ioctl (GOVERNOR_SET_VARIABLES linux_api) 64, Dev_ioctl 0 0,
      Dev_ioctl (GOVERNOR_GET_VARIABLES linux_api) 128, Dev_release] governor_zero (\<lambda>_. Some 7) =
      ([0, 0, - 22, 0, 0], dec_gov (replicate 20 7), M') \<and>
    reg_session linux_api [Dev_open, Dev_ioctl (GOVERNOR_SET_VARIABLES linux_api) 64, Dev_ioctl 0 0,
      Dev_ioctl (GOVERNOR_GET_VARIABLES linux_api) 128, Dev_release] (enc_gov governor_zero) (\<lambda>_. Some 7) =
      ([0, 0, - 22, 0, 0], replicate 20 7, M')"
proof -
  let ?M = "\<lambda>_ :: addr. Some (7 :: byte)" and ?K = linux_api
  let ?rqs = "[Dev_open, Dev_ioctl (GOVERNOR_SET_VARIABLES ?K) 64, Dev_ioctl 0 0,
      Dev_ioctl (GOVERNOR_GET_VARIABLES ?K) 128, Dev_release]"
  have m: "mapped ?M a n" for a n by (simp add: mapped_def)
  have p: "peek ?M a n = replicate n 7" for a n by (simp add: peek_def map_replicate_const)
  have u: "AI_gov_ioctl ?K 0 a cur M = (- 22, cur, M)" for a cur M
    using ioctl_unknown [of 0 ?K a cur M] by (simp add: command_defs linux_api_def EINVAL_def)
  let ?g = "dec_gov (replicate 20 7)"
  have d: "dev_session ?K ?rqs governor_zero ?M = ([0, 0, - 22, 0, 0], ?g, poke ?M 128 (enc_gov ?g))"
    using ioctl_set [OF linux_api_ok m, of 64 governor_zero] ioctl_get [OF linux_api_ok m, of 128 ?g]
    by (simp add: AI_governor_fops_def AI_gov_open_def AI_gov_close_def u p sizeof_AI_governor_def)
  moreover have "enc_gov ?g = replicate 20 7" by (rule enc_dec_gov) (simp add: sizeof_AI_governor_def)
  ultimately show ?thesis using governor_register [OF linux_api_ok d] by auto
qed

text \<open>
  C31. The whole user program against the driver, for every command line, every result of \<open>open\<close>, every input and every
  state of the driver. A bad command line returns 1 with the usage, a device that cannot be opened 2. Reading
  the phase, which is also the default, never prints one: the driver copies its twenty bytes over the
  four of the local variable, which ends the run as a write out of bounds when all of them can be written; when not, it is the
  same or the call fails, and an error is printed. The other four commands take their numbers from the input (one
  that does not fit \<open>int\<close> is the only thing that can stop them), are refused by the driver, print an error and return 0. The governor
  is never changed.
\<close>

theorem app_main_effect:
  assumes "kernel_api_ok K"
  shows "let s1 = (if length argv = 1 then say ''default command'' s else s);
      result = app_main K fopen g junk argv s in
    (case parse_args argv of
       None \<Rightarrow> result = Inr (1, say ''usage'' s)
     | Some c \<Rightarrow>
         if fopen app_file_name = - 1 then result = Inr (2, say ''error'' s1)
         else if c = E_get_p then
           (mapped (app_mem s) g sizeof_AI_governor \<longrightarrow> result = Inl Out_of_bounds) \<and>
           (result = Inl Out_of_bounds \<or> (\<exists>M. result = Inr (0, say ''error'' (s1\<lparr>app_mem := M\<rparr>))))
         else (case asked c junk s of
             Inl e \<Rightarrow> result = Inl e
           | Inr s2 \<Rightarrow> app_out s2 = app_out s \<and> (\<exists>M. result = Inr (0, say ''error'' (s2\<lparr>app_mem := M\<rparr>))))) \<and>
    (\<forall>ret s'. result = Inr (ret, s') \<longrightarrow> app_gov s' = app_gov s)"
proof -
  let ?s1 = "if length argv = 1 then say ''default command'' s else s" and ?r = "app_main K fopen g junk argv s"
  show ?thesis
  proof (cases "parse_args argv")
    case None
    then show ?thesis by (simp add: app_main_def)
  next
    case (Some c)
    show ?thesis
    proof (cases "fopen app_file_name = - 1")
      case True
      with Some show ?thesis by (auto simp: app_main_def Let_def)
    next
      case opened: False
      show ?thesis
      proof (cases "c = E_get_p")
        case True
        with Some opened have r: "?r = cbind (get_phase K g ?s1) (\<lambda>s'. Inr (0, s'))"
          by (simp add: app_main_def Let_def)
        have m: "app_mem ?s1 = app_mem s" "app_gov ?s1 = app_gov s" by simp_all
        show ?thesis
          using True Some opened r m get_phase_overruns [OF assms, of ?s1 g] get_phase_unmapped [OF assms, of ?s1 g]
          by (cases "mapped (app_mem s) g sizeof_AI_governor") (auto simp: Let_def)
      next
        case False
        have "length argv \<noteq> 1" using Some False by (auto simp: parse_args_def)
        with Some opened False have "\<exists>res. refused (asked c junk s) res \<and> ?r = cbind res (\<lambda>s'. Inr (0, s'))"
          using commands_fail [OF assms, of junk s] by (cases c) (auto simp: app_main_def Let_def)
        with Some opened False show ?thesis
          by (cases "asked c junk s") (auto simp: refused_def Let_def dest: asked_keeps)
      qed
    qed
  qed
qed

theorem app_main_effect_witness:
  "app_main linux_api (\<lambda>_. 3) 64 0 [''app'', ''-gp''] \<lparr>app_gov = governor_zero, app_mem = (\<lambda>_. Some 7),
      app_in = [], app_out = []\<rparr> = Inl Out_of_bounds \<and>
    (\<exists>M. app_main linux_api (\<lambda>_. 3) 64 0 [''app'', ''-clr''] \<lparr>app_gov = governor_zero, app_mem = (\<lambda>_. Some 7),
      app_in = [], app_out = []\<rparr> = Inr (0, \<lparr>app_gov = governor_zero, app_mem = M, app_in = [], app_out = [''error'']\<rparr>))"
proof
  let ?s = "\<lparr>app_gov = governor_zero, app_mem = (\<lambda>_. Some 7), app_in = [], app_out = []\<rparr>"
  show "app_main linux_api (\<lambda>_. 3) 64 0 [''app'', ''-gp''] ?s = Inl Out_of_bounds"
    using app_main_effect [OF linux_api_ok, of "[''app'', ''-gp'']" ?s "\<lambda>_. 3" 64 0]
    by (simp add: parse_args_def mapped_def Let_def)
  show "\<exists>M. app_main linux_api (\<lambda>_. 3) 64 0 [''app'', ''-clr''] ?s =
      Inr (0, \<lparr>app_gov = governor_zero, app_mem = M, app_in = [], app_out = [''error'']\<rparr>)"
    using app_main_effect [OF linux_api_ok, of "[''app'', ''-clr'']" ?s "\<lambda>_. 3" 64 0]
    by (simp add: parse_args_def asked_def Let_def)
qed

end
