(* ===== verification/C_Layout.thy ===== *)
theory C_Layout
  imports C_Prelude
begin

text \<open>
  How a C compiler lays out a struct: the types the repository's struct declarations use, their size
  and alignment on an ABI, and the offset of every member. The lemmas say that on every ABI whose
  alignments are powers of two the members of a struct are aligned, in their order, and apart.
\<close>

section \<open>Types\<close>

text \<open>
  \<open>T_named\<close> is a struct or type of another header, of which only the name is known; a pointer to one
  needs no more. \<open>T_fun\<close> is what a function pointer points to.
\<close>

datatype c_type =
    T_void | T_bool | T_char | T_unsigned_char | T_uint8_t
  | T_int | T_unsigned_int | T_uint32_t | T_float | T_enum string
  | T_long | T_unsigned_long | T_u64
  | T_ptr c_type
  | T_fun c_type "c_type list"
  | T_array c_type nat
  | T_named string
  | T_struct "(string \<times> c_type) list"

type_synonym c_members = "(string \<times> c_type) list"

text \<open>
  What differs between the machines: the size of \<open>long\<close> and of a pointer, the alignment of a 64-bit
  integer, and the size and alignment of the types of other headers.
\<close>

record abi =
  abi_long :: nat
  abi_ptr :: nat
  abi_u64_align :: nat
  abi_named :: "string \<Rightarrow> nat \<times> nat"

text \<open>64-bit Linux, and the 32-bit ARM EABI of the Makefile's Android target.\<close>

definition lp64 :: "(string \<Rightarrow> nat \<times> nat) \<Rightarrow> abi" where
  "lp64 named = \<lparr>abi_long = 8, abi_ptr = 8, abi_u64_align = 8, abi_named = named\<rparr>"

definition arm_eabi :: "(string \<Rightarrow> nat \<times> nat) \<Rightarrow> abi" where
  "arm_eabi named = \<lparr>abi_long = 4, abi_ptr = 4, abi_u64_align = 8, abi_named = named\<rparr>"

section \<open>Size, alignment and offsets\<close>

definition align_up :: "nat \<Rightarrow> nat \<Rightarrow> nat" where
  "align_up a n = n + (a - n mod a) mod a"

text \<open>\<open>void\<close> and functions have no size in C; the value 1 is the one GNU C gives.\<close>

fun alignof :: "abi \<Rightarrow> c_type \<Rightarrow> nat" and alignof_members :: "abi \<Rightarrow> c_members \<Rightarrow> nat" where
  "alignof A T_void = 1"
| "alignof A T_bool = 1"
| "alignof A T_char = 1"
| "alignof A T_unsigned_char = 1"
| "alignof A T_uint8_t = 1"
| "alignof A T_int = 4"
| "alignof A T_unsigned_int = 4"
| "alignof A T_uint32_t = 4"
| "alignof A T_float = 4"
| "alignof A (T_enum e) = 4"
| "alignof A T_long = abi_long A"
| "alignof A T_unsigned_long = abi_long A"
| "alignof A T_u64 = abi_u64_align A"
| "alignof A (T_ptr t) = abi_ptr A"
| "alignof A (T_fun r args) = 1"
| "alignof A (T_array t n) = alignof A t"
| "alignof A (T_named s) = snd (abi_named A s)"
| "alignof A (T_struct ms) = alignof_members A ms"
| "alignof_members A [] = 1"
| "alignof_members A ((f, t) # ms) = max (alignof A t) (alignof_members A ms)"

text \<open>\<open>end_of A pos ms\<close> is where the last of the members \<open>ms\<close> ends when they are laid out from \<open>pos\<close> on.\<close>

fun sizeof :: "abi \<Rightarrow> c_type \<Rightarrow> nat" and end_of :: "abi \<Rightarrow> nat \<Rightarrow> c_members \<Rightarrow> nat" where
  "sizeof A T_void = 1"
| "sizeof A T_bool = 1"
| "sizeof A T_char = 1"
| "sizeof A T_unsigned_char = 1"
| "sizeof A T_uint8_t = 1"
| "sizeof A T_int = 4"
| "sizeof A T_unsigned_int = 4"
| "sizeof A T_uint32_t = 4"
| "sizeof A T_float = 4"
| "sizeof A (T_enum e) = 4"
| "sizeof A T_long = abi_long A"
| "sizeof A T_unsigned_long = abi_long A"
| "sizeof A T_u64 = 8"
| "sizeof A (T_ptr t) = abi_ptr A"
| "sizeof A (T_fun r args) = 1"
| "sizeof A (T_array t n) = n * sizeof A t"
| "sizeof A (T_named s) = fst (abi_named A s)"
| "sizeof A (T_struct ms) = align_up (alignof_members A ms) (end_of A 0 ms)"
| "end_of A pos [] = pos"
| "end_of A pos ((f, t) # ms) = end_of A (align_up (alignof A t) pos + sizeof A t) ms"

text \<open>The members with their offsets.\<close>

fun layout :: "abi \<Rightarrow> nat \<Rightarrow> c_members \<Rightarrow> (string \<times> nat \<times> c_type) list" where
  "layout A pos [] = []"
| "layout A pos ((f, t) # ms) =
     (let off = align_up (alignof A t) pos in (f, off, t) # layout A (off + sizeof A t) ms)"

definition offsetof :: "abi \<Rightarrow> c_members \<Rightarrow> string \<Rightarrow> nat option" where
  "offsetof A ms f = map_option fst (map_of (layout A 0 ms) f)"

definition pow2 :: "nat \<Rightarrow> bool" where
  "pow2 n \<longleftrightarrow> (\<exists>k. n = 2 ^ k)"

definition abi_ok :: "abi \<Rightarrow> bool" where
  "abi_ok A \<longleftrightarrow> abi_long A \<in> {4, 8} \<and> abi_ptr A \<in> {4, 8} \<and> abi_u64_align A \<in> {4, 8} \<and>
     (\<forall>s. pow2 (snd (abi_named A s)) \<and> snd (abi_named A s) dvd fst (abi_named A s))"

lemma abi_ok_known:
  assumes "\<And>s. pow2 (snd (named s)) \<and> snd (named s) dvd fst (named s)"
  shows "abi_ok (lp64 named)" and "abi_ok (arm_eabi named)"
  using assms by (simp_all add: abi_ok_def lp64_def arm_eabi_def)

section \<open>Members are aligned, ordered and apart\<close>

lemma align_up_ge: "n \<le> align_up a n"
  by (simp add: align_up_def)

lemma align_up_dvd: "0 < a \<Longrightarrow> a dvd align_up a n"
proof -
  assume "0 < a"
  then have "(n + (a - n mod a)) mod a = 0"
    by (metis add.commute le_add_diff_inverse2 less_imp_le_nat mod_add_left_eq mod_less_divisor mod_self)
  then show ?thesis by (simp add: align_up_def mod_add_right_eq dvd_eq_mod_eq_0)
qed

lemma align_up_id: "a dvd n \<Longrightarrow> align_up a n = n"
  by (simp add: align_up_def)

lemma pow2_known: "pow2 1" "pow2 (Suc 0)" "pow2 4" "pow2 8"
  unfolding pow2_def
  by (rule exI [of _ 0], simp, rule exI [of _ 0], simp, rule exI [of _ 2], simp, rule exI [of _ 3], simp)

lemma pow2_pos: "pow2 n \<Longrightarrow> 0 < n"
  by (auto simp: pow2_def)

lemma pow2_max: "pow2 m \<Longrightarrow> pow2 n \<Longrightarrow> pow2 (max m n)"
  by (simp add: max_def)

text \<open>Of two powers of two the smaller divides the larger.\<close>

lemma pow2_dvd: "pow2 m \<Longrightarrow> pow2 n \<Longrightarrow> m \<le> n \<Longrightarrow> m dvd n"
  by (auto simp: pow2_def le_imp_power_dvd)

lemma abi_pow2:
  assumes "abi_ok A"
  shows "pow2 (abi_long A)" and "pow2 (abi_ptr A)" and "pow2 (abi_u64_align A)" and "pow2 (snd (abi_named A s))"
    and "snd (abi_named A s) dvd fst (abi_named A s)" and "abi_u64_align A dvd 8"
  using assms by (auto simp: abi_ok_def pow2_known)

lemma alignof_pow2:
  assumes "abi_ok A"
  shows "pow2 (alignof A t)" and "pow2 (alignof_members A ms)"
  using assms
  by (induction A t and A ms rule: alignof_alignof_members.induct) (simp_all add: pow2_known abi_pow2 pow2_max)

lemma alignof_pos: "abi_ok A \<Longrightarrow> 0 < alignof A t"
  by (simp add: alignof_pow2 pow2_pos)

text \<open>The size of a type is a multiple of its alignment, so the elements of an array are aligned.\<close>

lemma alignof_dvd_sizeof:
  assumes "abi_ok A"
  shows "alignof A t dvd sizeof A t"
  using assms
  by (induction t) (simp_all add: abi_pow2 align_up_dvd alignof_pow2 pow2_pos)

lemma end_of_ge: "pos \<le> end_of A pos ms"
proof (induction ms arbitrary: pos)
  case (Cons m ms)
  obtain f t where "m = (f, t)" by (cases m)
  with Cons [of "align_up (alignof A t) pos + sizeof A t"] align_up_ge [of pos "alignof A t"]
  show ?case by simp
qed simp

lemma layout_members: "map (\<lambda>(f, off, t). (f, t)) (layout A pos ms) = ms"
  by (induction A pos ms rule: layout.induct) (simp_all add: Let_def)

lemma layout_range: "(f, off, t) \<in> set (layout A pos ms) \<Longrightarrow> pos \<le> off \<and> off + sizeof A t \<le> end_of A pos ms"
proof (induction A pos ms rule: layout.induct)
  case (2 A pos g u ms)
  let ?o = "align_up (alignof A u) pos"
  from "2.IH" [OF refl] "2.prems" align_up_ge [of pos "alignof A u"] end_of_ge [of "?o + sizeof A u" A ms]
  show ?case by (auto simp: Let_def)
qed simp

lemma layout_aligned: "abi_ok A \<Longrightarrow> (f, off, t) \<in> set (layout A pos ms) \<Longrightarrow> alignof A t dvd off"
proof (induction A pos ms rule: layout.induct)
  case (2 A pos g u ms)
  then show ?case using align_up_dvd [OF alignof_pos, of A u pos] by (auto simp: Let_def)
qed simp

lemma layout_ordered:
  "sorted_wrt (\<lambda>(f, off, t) (f', off', t'). off + sizeof A t \<le> off') (layout A pos ms)"
proof (induction A pos ms rule: layout.induct)
  case (2 A pos g u ms)
  then show ?case using layout_range [of _ _ _ A "align_up (alignof A u) pos + sizeof A u" ms]
    by (fastforce simp: Let_def)
qed simp

lemma alignof_member: "(f, t) \<in> set ms \<Longrightarrow> alignof A t \<le> alignof_members A ms"
  by (induction ms) (auto simp: le_max_iff_disj)

lemma alignof_member_dvd:
  "abi_ok A \<Longrightarrow> (f, t) \<in> set ms \<Longrightarrow> alignof A t dvd alignof_members A ms"
  by (intro pow2_dvd alignof_pow2 alignof_member)

text \<open>Together: the members of a struct that lies at an address its alignment divides.\<close>

lemma struct_members:
  assumes "abi_ok A" and "(f, off, t) \<in> set (layout A 0 ms)" and "alignof A (T_struct ms) dvd p"
  shows "alignof A t dvd p + off" and "off + sizeof A t \<le> sizeof A (T_struct ms)"
proof -
  have "(f, t) \<in> set (map (\<lambda>(f, off, t). (f, t)) (layout A 0 ms))" using assms(2) by force
  then have "alignof A t dvd alignof_members A ms"
    using alignof_member_dvd [OF assms(1)] by (simp add: layout_members)
  then have "alignof A t dvd p" using assms(3) by (auto intro: dvd_trans)
  then show "alignof A t dvd p + off" using layout_aligned [OF assms(1,2)] by simp
  show "off + sizeof A t \<le> sizeof A (T_struct ms)"
    using layout_range [OF assms(2)] align_up_ge [of "end_of A 0 ms" "alignof_members A ms"] by simp
qed

end
