(* ===== verification/Governor_Phases.thy ===== *)
theory Governor_Phases
  imports AI_Governor C_Layout
begin

text \<open>
  The declarations of \<open>IOctl/userspace/AI_gov_phases.h\<close>: the enumeration of the phases, the macro that
  lists them, the attributes the \<open>SYSFS\<close> macros list for each phase, and the members of the attribute
  structs. They belong together: the macros paste the name of a phase and of an attribute into accesses
  to a member of that name.
\<close>

section \<open>The enumeration\<close>

datatype PHASE_ENUM =
  AI_init | AI_framerate | AI_priority | AI_time | AI_powersave | AI_performance | AI_response | AI_exit | AI_END

text \<open>The numbers C gives the enumerators.\<close>

primrec phase_value :: "PHASE_ENUM \<Rightarrow> nat" where
  "phase_value AI_init = 0"
| "phase_value AI_framerate = 1"
| "phase_value AI_priority = 2"
| "phase_value AI_time = 3"
| "phase_value AI_powersave = 4"
| "phase_value AI_performance = 5"
| "phase_value AI_response = 6"
| "phase_value AI_exit = 7"
| "phase_value AI_END = 8"

lemma phase_value_inject: "phase_value p = phase_value q \<longleftrightarrow> p = q"
  by (cases p; cases q) simp_all

text \<open>Enumerators are compared as their numbers.\<close>

instantiation PHASE_ENUM :: linorder
begin

definition less_eq_PHASE_ENUM :: "PHASE_ENUM \<Rightarrow> PHASE_ENUM \<Rightarrow> bool" where
  "less_eq_PHASE_ENUM p q \<longleftrightarrow> phase_value p \<le> phase_value q"

definition less_PHASE_ENUM :: "PHASE_ENUM \<Rightarrow> PHASE_ENUM \<Rightarrow> bool" where
  "less_PHASE_ENUM p q \<longleftrightarrow> phase_value p < phase_value q"

instance
  by standard (auto simp: less_eq_PHASE_ENUM_def less_PHASE_ENUM_def phase_value_inject)

end

definition FOR_EACH_PHASE :: "(PHASE_ENUM \<Rightarrow> 'a) \<Rightarrow> 'a list" where
  "FOR_EACH_PHASE PHASE = [PHASE AI_init, PHASE AI_framerate, PHASE AI_priority, PHASE AI_time,
     PHASE AI_powersave, PHASE AI_performance, PHASE AI_response, PHASE AI_exit]"

text \<open>\<open>#STRING\<close> of an enumerator.\<close>

primrec GENERATE_STRING :: "PHASE_ENUM \<Rightarrow> string" where
  "GENERATE_STRING AI_init = ''AI_init''"
| "GENERATE_STRING AI_framerate = ''AI_framerate''"
| "GENERATE_STRING AI_priority = ''AI_priority''"
| "GENERATE_STRING AI_time = ''AI_time''"
| "GENERATE_STRING AI_powersave = ''AI_powersave''"
| "GENERATE_STRING AI_performance = ''AI_performance''"
| "GENERATE_STRING AI_response = ''AI_response''"
| "GENERATE_STRING AI_exit = ''AI_exit''"
| "GENERATE_STRING AI_END = ''AI_END''"

section \<open>Attributes\<close>

primrec SYSFS_ATTRIBS :: "PHASE_ENUM \<Rightarrow> string list" where
  "SYSFS_ATTRIBS AI_init = [''initialized'']"
| "SYSFS_ATTRIBS AI_framerate = [''desired_framerate'', ''current_framerate'']"
| "SYSFS_ATTRIBS AI_priority = [''priority_scalar'', ''minimum_priority'', ''maximum_priority'']"
| "SYSFS_ATTRIBS AI_time = [''time_till_completion'', ''time_at_completion'', ''alarm_mode'']"
| "SYSFS_ATTRIBS AI_powersave = [''initialized'']"
| "SYSFS_ATTRIBS AI_performance = [''initialized'']"
| "SYSFS_ATTRIBS AI_response = [''user_input_importance'']"
| "SYSFS_ATTRIBS AI_exit = [''deinitialized'']"
| "SYSFS_ATTRIBS AI_END = []"

definition FRAMERATE_HISTORY_LENGTH :: nat where
  "FRAMERATE_HISTORY_LENGTH = 20"

text \<open>The members of \<open>struct phase_\<dots>_attributes\<close>.\<close>

primrec phase_attributes :: "PHASE_ENUM \<Rightarrow> c_members" where
  "phase_attributes AI_init = [(''initialized'', T_int)]"
| "phase_attributes AI_framerate = [(''desired_framerate'', T_int), (''current_frametate'', T_int),
     (''timestamp_history'', T_ptr (T_array T_int FRAMERATE_HISTORY_LENGTH))]"
| "phase_attributes AI_priority = [(''priority_scalar'', T_int), (''minimum_priority'', T_int),
     (''maximum_priority'', T_int)]"
| "phase_attributes AI_time = [(''time_till_completion'', T_long), (''time_at_completion'', T_long),
     (''alarm_mode'', T_unsigned_char)]"
| "phase_attributes AI_powersave = [(''initialized'', T_int)]"
| "phase_attributes AI_performance = [(''initialized'', T_int)]"
| "phase_attributes AI_response = [(''user_input_importance'', T_int)]"
| "phase_attributes AI_exit = [(''deinitialized'', T_int)]"
| "phase_attributes AI_END = []"

text \<open>
  The profile of a phase. The attributes are a \<open>void\<close> pointer, which the access macros cast to the
  struct of the phase.
\<close>

definition phase_profile :: c_members where
  "phase_profile = [(''phase'', T_enum ''PHASE_ENUM''), (''phase_name'', T_ptr T_char),
     (''profile_attributes'', T_ptr T_void), (''sysfs_attr_grp'', T_ptr (T_named ''attribute_group'')),
     (''next'', T_ptr (T_named ''phase_profile'')), (''kobj'', T_ptr (T_named ''kobject'')),
     (''enter'', T_ptr (T_fun T_unsigned_int [T_ptr T_void])),
     (''exit'', T_ptr (T_fun T_unsigned_int [T_ptr T_void])),
     (''run'', T_ptr (T_fun T_unsigned_int [T_ptr T_void]))]"

text \<open>
  \<open>GET_ATTRIBUTES_W_PROFILE(phase, defaults)->attr\<close> and \<open>GET_ATTRIBUTES(phase)->attr\<close>: the type of the
  access, when the structs have the members. The second goes through the member \<open>current_profile\<close> of
  what \<open>AI_gov\<close> points to, the argument \<open>gov\<close>.
\<close>

definition GET_ATTRIBUTES_W_PROFILE :: "PHASE_ENUM \<Rightarrow> c_members \<Rightarrow> string \<Rightarrow> c_type option" where
  "GET_ATTRIBUTES_W_PROFILE phase profile attr =
     (case map_of profile ''profile_attributes'' of
        Some (T_ptr t) \<Rightarrow> map_of (phase_attributes phase) attr
      | _ \<Rightarrow> None)"

definition GET_ATTRIBUTES :: "PHASE_ENUM \<Rightarrow> c_members \<Rightarrow> string \<Rightarrow> c_type option" where
  "GET_ATTRIBUTES phase gov attr =
     (if map_of gov ''current_profile'' = Some (T_ptr (T_named ''phase_profile''))
      then GET_ATTRIBUTES_W_PROFILE phase phase_profile attr else None)"

lemma get_attributes_member:
  "GET_ATTRIBUTES_W_PROFILE phase phase_profile attr = map_of (phase_attributes phase) attr"
  by (simp add: GET_ATTRIBUTES_W_PROFILE_def phase_profile_def)

section \<open>The declarations\<close>

text \<open>
  The declarations of the phases fit together, but for one. The macro lists every enumerator but
  \<open>AI_END\<close> exactly once, in the order of their numbers, and \<open>AI_END\<close> is how many there are; the
  user program prints the name of an enumerator for its number and \<open>INVALID\<close> for every other
  number. Every attribute that is listed for a phase names an integer member of that
  phase's struct, except \<open>current_framerate\<close>: the struct of the frame-rate phase spells it
  \<open>current_frametate\<close>, so an access to it does not compile.
\<close>

theorem phase_declarations:
  fixes n :: "32 word"
  shows "sorted_wrt (<) (FOR_EACH_PHASE id) \<and>
    (p \<in> set (FOR_EACH_PHASE id) \<longleftrightarrow> p \<noteq> AI_END) \<and> phase_value AI_END = length (FOR_EACH_PHASE id) \<and>
    (p \<noteq> AI_END \<longrightarrow> phase_name (of_nat (phase_value p)) = GENERATE_STRING p) \<and>
    (phase_value AI_END \<le> unat n \<longrightarrow> phase_name n = ''INVALID'') \<and>
    (a \<in> set (SYSFS_ATTRIBS p) \<longrightarrow>
       GET_ATTRIBUTES_W_PROFILE p phase_profile a =
         (if a = ''current_framerate'' then None
          else if p = AI_time then Some (if a = ''alarm_mode'' then T_unsigned_char else T_long)
          else Some T_int))"
proof -
  have "sorted_wrt (<) (FOR_EACH_PHASE id)"
    by (simp add: FOR_EACH_PHASE_def less_PHASE_ENUM_def)
  moreover have "p \<in> set (FOR_EACH_PHASE id) \<longleftrightarrow> p \<noteq> AI_END"
    by (cases p) (simp_all add: FOR_EACH_PHASE_def)
  moreover have "phase_value AI_END = length (FOR_EACH_PHASE id)" by (simp add: FOR_EACH_PHASE_def)
  moreover have "a \<in> set (SYSFS_ATTRIBS p) \<longrightarrow> GET_ATTRIBUTES_W_PROFILE p phase_profile a =
      (if a = ''current_framerate'' then None
       else if p = AI_time then Some (if a = ''alarm_mode'' then T_unsigned_char else T_long)
       else Some T_int)"
    by (cases p) (auto simp: get_attributes_member)
  moreover have "p \<noteq> AI_END \<longrightarrow> phase_name (of_nat (phase_value p)) = GENERATE_STRING p"
    by (cases p) (simp_all add: phase_name_def phase_names_def)
  moreover have "phase_value AI_END \<le> unat n \<longrightarrow> phase_name n = ''INVALID''"
    by (simp add: phase_name_def phase_names_def)
  ultimately show ?thesis by blast
qed

theorem phase_declarations_witness:
  "GET_ATTRIBUTES_W_PROFILE AI_framerate phase_profile ''current_framerate'' = None \<and> phase_name (of_nat (phase_value AI_time)) = ''AI_time'' \<and>
    GET_ATTRIBUTES_W_PROFILE AI_time phase_profile ''alarm_mode'' = Some T_unsigned_char \<and> phase_name 9 = ''INVALID''"
  using phase_declarations [of AI_framerate 9 "''current_framerate''"] phase_declarations [of AI_time 9 "''alarm_mode''"]
  by simp

end
