(* ===== verification/Governor_Types.thy ===== *)
theory Governor_Types
  imports Governor_Phases
begin

text \<open>
  The struct declarations of the governor's headers as member lists: what \<open>IOctl/userspace/AI_gov_types.h\<close>
  declares, the structs the driver and the user program exchange, and how all of them lie in memory on
  a 64-bit machine and on the 32-bit ARM target of the Makefile.
\<close>

section \<open>The structs that are exchanged\<close>

text \<open>\<open>phase_state\<close> of the driver's header, which is another enumeration than the user program's.\<close>

datatype phase_state = response | animation | idle | load

primrec phase_state_value :: "phase_state \<Rightarrow> nat" where
  "phase_state_value response = 0"
| "phase_state_value animation = 1"
| "phase_state_value idle = 2"
| "phase_state_value load = 3"

text \<open>\<open>IOctl/kernelspace/AI_governor_ioctl.h\<close>: the structs of the driver. \<open>float\<close> and enums have four bytes.\<close>

definition driver_AI_gov_profile :: c_members where
  "driver_AI_gov_profile = [(''min_freq'', T_unsigned_int), (''max_freq'', T_unsigned_int),
     (''desired_frame_rate'', T_unsigned_int), (''current_frame_rate'', T_float)]"

definition driver_AI_governor :: c_members where
  "driver_AI_governor = [(''profile'', T_struct driver_AI_gov_profile), (''phase'', T_enum ''phase_state'')]"

text \<open>\<open>IOctl/userspace/AI_gov_ioctl.h\<close>: the struct the user program passes.\<close>

definition AI_gov_ioctl_phase_variable :: c_members where
  "AI_gov_ioctl_phase_variable = [(''phase'', T_enum ''PHASE_ENUM''), (''variable_index'', T_unsigned_char),
     (''variable_value'', T_unsigned_long)]"

section \<open>The structs of \<open>AI_gov_types.h\<close>\<close>

text \<open>\<open>CPU_IS_BIG_LITTLE\<close> of \<open>test_flags.h\<close>; the parts under \<open>#ifdef\<close> are there when it is defined.\<close>

definition CPU_IS_BIG_LITTLE :: "nat option" where
  "CPU_IS_BIG_LITTLE = Some 1"

abbreviation ifdef :: "'a option \<Rightarrow> 'b list \<Rightarrow> 'b list" where
  "ifdef m xs \<equiv> (if m \<noteq> None then xs else [])"

definition AI_gov_freq_table :: c_members where
  "AI_gov_freq_table =
     [(''LITTLE_MIN'', T_uint32_t), (''LITTLE_MAX'', T_uint32_t), (''num_freq_steps_LITTLE'', T_uint8_t),
      (''freq_steps_LITTLE'', T_ptr T_uint32_t)] @
     ifdef CPU_IS_BIG_LITTLE
     [(''BIG_MIN'', T_uint32_t), (''BIG_MAX'', T_uint32_t), (''num_freq_steps_BIG'', T_uint8_t),
      (''freq_steps_BIG'', T_ptr T_uint32_t)]"

definition AI_gov_cur_HW :: c_members where
  "AI_gov_cur_HW =
     [(''is_big_little'', T_bool), (''cpu_count'', T_uint8_t), (''little_freq'', T_uint32_t),
      (''has_table'', T_bool), (''freq_table'', T_ptr (T_named ''AI_gov_freq_table''))] @
     ifdef CPU_IS_BIG_LITTLE [(''big_state'', T_bool), (''big_freq'', T_uint32_t)] @
     [(''kobj'', T_ptr (T_named ''kobject'')), (''stats'', T_ptr T_void)]"

definition types_AI_gov_profile :: c_members where
  "types_AI_gov_profile = [(''min_freq'', T_unsigned_long), (''max_freq'', T_unsigned_long),
     (''kobj'', T_ptr (T_named ''kobject'')), (''desired_frame_rate'', T_unsigned_int),
     (''current_frame_rate'', T_unsigned_int)]"

definition AI_gov_info :: c_members where
  "AI_gov_info = [(''hardware'', T_ptr (T_named ''AI_gov_cur_HW'')),
     (''profile'', T_ptr (T_named ''AI_gov_profile'')), (''phase'', T_named ''phase_state''),
     (''prev_phase'', T_named ''phase_state''), (''test'', T_int), (''kobj'', T_ptr (T_named ''kobject'')),
     (''kobj_unregister'', T_ptr (T_named ''completion''))]"

definition cpufreq_AI_governor_cpuinfo :: c_members where
  "cpufreq_AI_governor_cpuinfo = [(''cpu_timer'', T_named ''timer_list''),
     (''cpu_slack_timer'', T_named ''timer_list''), (''load_lock'', T_named ''spinlock_t''),
     (''time_in_idle'', T_u64), (''time_in_idle_timestamp'', T_u64), (''cputime_speedadj'', T_u64),
     (''cputime_speedadj_timestamp'', T_u64), (''policy'', T_ptr (T_named ''cpufreq_policy'')),
     (''freq_table'', T_ptr (T_named ''cpufreq_frequency_table'')), (''target_freq'', T_unsigned_int),
     (''floor_freq'', T_unsigned_int), (''floor_validate_time'', T_u64), (''hispeed_validate_time'', T_u64),
     (''enable_sem'', T_named ''rw_semaphore''), (''governor_enabled'', T_int)]"

definition cpufreq_AI_governor_tunables :: c_members where
  "cpufreq_AI_governor_tunables = [(''usage_count'', T_int), (''target_loads_lock'', T_named ''spinlock_t''),
     (''target_loads'', T_ptr T_unsigned_int), (''ntarget_loads'', T_int),
     (''min_sample_time'', T_unsigned_long), (''timer_rate'', T_unsigned_long), (''io_is_busy'', T_bool),
     (''phase_state'', T_ptr T_char), (''speedchange_task'', T_ptr (T_named ''task_struct'')),
     (''policy'', T_ptr T_unsigned_int)]"

text \<open>Every struct of the headers.\<close>

definition governor_structs :: "c_members list" where
  "governor_structs = [driver_AI_gov_profile, driver_AI_governor, AI_gov_ioctl_phase_variable,
     AI_gov_freq_table, AI_gov_cur_HW, types_AI_gov_profile, AI_gov_info, cpufreq_AI_governor_cpuinfo,
     cpufreq_AI_governor_tunables, phase_profile] @ FOR_EACH_PHASE phase_attributes"

lemmas governor_struct_defs = driver_AI_gov_profile_def driver_AI_governor_def AI_gov_ioctl_phase_variable_def
  AI_gov_freq_table_def AI_gov_cur_HW_def types_AI_gov_profile_def AI_gov_info_def cpufreq_AI_governor_cpuinfo_def
  cpufreq_AI_governor_tunables_def phase_profile_def CPU_IS_BIG_LITTLE_def

lemmas exchanged_structs = driver_AI_gov_profile_def driver_AI_governor_def AI_gov_ioctl_phase_variable_def

section \<open>Properties\<close>

lemma abi_cases:
  assumes "abi_ok A"
  obtains "abi_long A = 4" | "abi_long A = 8"
  using assms by (auto simp: abi_ok_def)

lemma phase_variable_size:
  assumes "abi_ok A"
  shows "sizeof A (T_struct AI_gov_ioctl_phase_variable) = 8 + abi_long A"
    and "map (\<lambda>(f, off, t). off) (layout A 0 AI_gov_ioctl_phase_variable) = [0, 4, 8]"
  using assms
  by (cases rule: abi_cases; simp add: AI_gov_ioctl_phase_variable_def align_up_def)+

lemma driver_layout:
  "layout A 0 driver_AI_gov_profile = [(''min_freq'', 0, T_unsigned_int), (''max_freq'', 4, T_unsigned_int),
     (''desired_frame_rate'', 8, T_unsigned_int), (''current_frame_rate'', 12, T_float)]"
  "layout A 0 driver_AI_governor =
     [(''profile'', 0, T_struct driver_AI_gov_profile), (''phase'', 16, T_enum ''phase_state'')]"
  "sizeof A (T_struct driver_AI_governor) = sizeof_AI_governor"
  by (simp_all add: exchanged_structs align_up_def sizeof_AI_governor_def)

text \<open>What the byte format of the driver's struct has at each member.\<close>

definition governor_member :: "AI_governor \<Rightarrow> string \<Rightarrow> 32 word option" where
  "governor_member g f = map_of [(''min_freq'', min_freq (gov_profile g)), (''max_freq'', max_freq (gov_profile g)),
     (''desired_frame_rate'', desired_frame_rate (gov_profile g)),
     (''current_frame_rate'', current_frame_rate (gov_profile g)), (''phase'', gov_phase g)] f"

text \<open>The members that hold values: those of the profile, and the phase behind it.\<close>

definition governor_leaves :: "abi \<Rightarrow> (string \<times> nat \<times> c_type) list" where
  "governor_leaves A = layout A 0 driver_AI_gov_profile @
     filter (\<lambda>(f, off, t). f = ''phase'') (layout A 0 driver_AI_governor)"

lemma governor_leaves_eq:
  "governor_leaves A = [(''min_freq'', 0, T_unsigned_int), (''max_freq'', 4, T_unsigned_int),
     (''desired_frame_rate'', 8, T_unsigned_int), (''current_frame_rate'', 12, T_float),
     (''phase'', 16, T_enum ''phase_state'')]"
  by (simp add: governor_leaves_def driver_layout)

lemma governor_bytes_at:
  assumes "(f, off, t) \<in> set (governor_leaves A)"
  shows "off + sizeof A t \<le> sizeof A (T_struct driver_AI_governor)"
    and "Some (dec32 (take (sizeof A t) (drop off (enc_gov g)))) = governor_member g f"
proof -
  show "off + sizeof A t \<le> sizeof A (T_struct driver_AI_governor)"
    using assms unfolding driver_layout(3) governor_leaves_eq sizeof_AI_governor_def by auto
  have four: "sizeof A t = 4" using assms unfolding governor_leaves_eq by auto
  show "Some (dec32 (take (sizeof A t) (drop off (enc_gov g)))) = governor_member g f"
    using assms unfolding four governor_leaves_eq
    by (simp only: list.set insert_iff empty_iff prod.inject)
      (elim disjE conjE; simp add: governor_member_def enc_gov_def dec_enc32)
qed

lemma peek_poke_part:
  assumes "off + n \<le> length bs" and "length bs \<le> 2 ^ 64"
  shows "peek (poke M b bs) (b + of_nat off) n = take n (drop off bs)"
proof -
  have "poke M b bs (b + of_nat off + of_nat i) = Some (bs ! (off + i))" if "i < n" for i
    using poke_in [of "off + i" bs M b] that assms by (simp only: of_nat_add add.assoc)
  moreover have "take n (drop off bs) ! i = bs ! (off + i)" if "i < n" for i using that assms(1) by simp
  moreover have "length (take n (drop off bs)) = n" using assms(1) by simp
  ultimately have "map (\<lambda>i. the (poke M b bs (b + of_nat off + of_nat i))) [0..<n] = take n (drop off bs)"
    by (intro nth_equalityI) (simp_all del: of_nat_add)
  then show ?thesis by (simp only: peek_def)
qed

text \<open>
  C15. What the driver copies out is the struct of its header, member by member, on every ABI: after a
  successful read every member of the user's \<open>AI_governor\<close> has the governor's value at the offset the
  compiler gives it, and the copy ends with the struct. The user program's reading command has the same number but
  passes the address of an enum, of four bytes on every ABI: with the sixteen bytes behind it mapped, they are overwritten with
  the other members, which is how \<open>get_phase\<close> ends. The program's struct, \<open>AI_gov_ioctl_phase_variable\<close>, would be too
  small as well, but it is only passed with two commands that the driver does not know: nothing is copied.
\<close>

theorem governor_copy_fills_struct:
  assumes "abi_ok A" and "kernel_api_ok K" and "mapped M b sizeof_AI_governor"
  shows "\<exists>M'. AI_gov_ioctl K (GOVERNOR_GET_VARIABLES K) b cur M = (0, cur, M') \<and>
    length (governor_leaves A) = 5 \<and>
    (\<forall>(f, off, t) \<in> set (governor_leaves A).
       off + sizeof A t \<le> sizeof A (T_struct driver_AI_governor) \<and>
       governor_member cur f = Some (dec32 (peek M' (b + of_nat off) (sizeof A t)))) \<and>
    (\<forall>x. (\<forall>i < sizeof A (T_struct driver_AI_governor). x \<noteq> b + of_nat i) \<longrightarrow> M' x = M x) \<and>
    AI_gov_ioctl K (GOVERNOR_GET_PHASE K) b cur M = (0, cur, M') \<and>
    sizeof A (T_enum ''PHASE_ENUM'') = sizeof_PHASE_ENUM \<and>
    (\<forall>i \<in> {sizeof_PHASE_ENUM..<sizeof A (T_struct driver_AI_governor)}. M' (b + of_nat i) = Some (enc_gov cur ! i)) \<and>
    (\<forall>s. app_mem s = M \<longrightarrow> get_phase K b s = Inl Out_of_bounds) \<and>
    AI_gov_ioctl K (GOVERNOR_GET_PHASE_VARIABLE K) a cur M = (- EINVAL, cur, M) \<and>
    AI_gov_ioctl K (GOVERNOR_SET_PHASE_VARIABLE K) a cur M = (- EINVAL, cur, M)"
proof (intro exI conjI)
  let ?bs = "enc_gov cur" and ?M = "poke M b (enc_gov cur)"
  have len: "length ?bs = 20" "sizeof A (T_struct driver_AI_governor) = 20"
    by (simp_all only: enc_gov_length driver_layout(3) sizeof_AI_governor_def)
  show "AI_gov_ioctl K (GOVERNOR_GET_VARIABLES K) b cur M = (0, cur, ?M)" by (rule ioctl_get [OF assms(2,3)])
  then show "AI_gov_ioctl K (GOVERNOR_GET_PHASE K) b cur M = (0, cur, ?M)" by (simp only: get_phase_number)
  show "length (governor_leaves A) = 5" by (simp add: governor_leaves_eq)
  show "\<forall>(f, off, t) \<in> set (governor_leaves A). off + sizeof A t \<le> sizeof A (T_struct driver_AI_governor) \<and>
      governor_member cur f = Some (dec32 (peek ?M (b + of_nat off) (sizeof A t)))"
  proof (intro ballI, clarify)
    fix f off t assume m: "(f, off, t) \<in> set (governor_leaves A)"
    then have "off + sizeof A t \<le> length ?bs" using governor_bytes_at(1) len by metis
    then have "peek ?M (b + of_nat off) (sizeof A t) = take (sizeof A t) (drop off ?bs)"
      by (rule peek_poke_part) (simp add: len)
    then show "off + sizeof A t \<le> sizeof A (T_struct driver_AI_governor) \<and>
        governor_member cur f = Some (dec32 (peek ?M (b + of_nat off) (sizeof A t)))"
      using governor_bytes_at(1) [OF m] governor_bytes_at(2) [OF m, of cur] by simp
  qed
  show "\<forall>x. (\<forall>i < sizeof A (T_struct driver_AI_governor). x \<noteq> b + of_nat i) \<longrightarrow> ?M x = M x"
    unfolding len(2) using poke_out [of ?bs _ b M] len(1) by simp
  show "sizeof A (T_enum ''PHASE_ENUM'') = sizeof_PHASE_ENUM" by (simp add: sizeof_PHASE_ENUM_def)
  show "\<forall>i \<in> {sizeof_PHASE_ENUM..<sizeof A (T_struct driver_AI_governor)}. ?M (b + of_nat i) = Some (?bs ! i)"
    unfolding len(2) using poke_in [of _ ?bs M b] len(1) by simp
  show "\<forall>s. app_mem s = M \<longrightarrow> get_phase K b s = Inl Out_of_bounds" using get_phase_overruns [OF assms(2)] assms(3) by blast
qed (rule app_unknown [OF assms(2)])+

text \<open>Kernel types of any size; here all of them are eight bytes and aligned to eight.\<close>

lemma abi_examples: "abi_ok (lp64 (\<lambda>_. (8, 8)))" "abi_ok (arm_eabi (\<lambda>_. (8, 8)))"
  by (simp_all add: abi_ok_known pow2_known)

theorem governor_copy_fills_struct_witness:
  "\<exists>M'. AI_gov_ioctl linux_api (GOVERNOR_GET_VARIABLES linux_api) 64 governor_zero (\<lambda>_. Some 7) = (0, governor_zero, M') \<and>
    M' (64 + of_nat 19) = Some 0 \<and> M' 84 = Some 7"
proof -
  let ?A = "lp64 (\<lambda>_. (8, 8))"
  have size: "sizeof ?A (T_struct driver_AI_governor) = 20" by (simp only: driver_layout(3) sizeof_AI_governor_def)
  have "mapped (\<lambda>_. Some 7) 64 sizeof_AI_governor" by (simp add: mapped_def)
  from governor_copy_fills_struct [OF abi_examples(1) linux_api_ok this, of governor_zero 0]
  obtain M' where M': "AI_gov_ioctl linux_api (GOVERNOR_GET_VARIABLES linux_api) 64 governor_zero (\<lambda>_. Some 7) = (0, governor_zero, M')"
    and keep: "\<forall>x. (\<forall>i < sizeof ?A (T_struct driver_AI_governor). x \<noteq> 64 + of_nat i) \<longrightarrow> M' x = Some 7"
    and o: "\<forall>i \<in> {sizeof_PHASE_ENUM..<sizeof ?A (T_struct driver_AI_governor)}. M' (64 + of_nat i) = Some (enc_gov governor_zero ! i)"
    by (elim exE conjE) (rule that)
  have "M' (64 + of_nat 19) = Some (enc_gov governor_zero ! 19)"
    using bspec [OF o, of 19] unfolding size sizeof_PHASE_ENUM_def by (simp del: of_nat_numeral)
  moreover have "enc_gov governor_zero ! 19 = 0" by (simp add: enc_gov_def governor_zero_def enc32_def nth_append)
  moreover have "(84 :: addr) \<noteq> 64 + of_nat i" if "i < 20" for i
  proof
    assume "(84 :: addr) = 64 + of_nat i"
    then have "unat (84 :: addr) = unat (64 + of_nat i :: addr)" by simp
    with that show False by (simp add: unat_word_ariths unat_of_nat)
  qed
  then have "M' 84 = Some 7" using keep unfolding size by blast
  ultimately show ?thesis using M' by auto
qed

text \<open>
  The driver does not keep its phase within the enumeration: the fourth command stores 5, and a set stores
  whatever the user program sends.
\<close>

lemma phase_out_of_range:
  assumes "GOVERNOR_OTHER_FUNCT K \<notin> {GOVERNOR_GET_VARIABLES K, GOVERNOR_CLR_VARIABLES K, GOVERNOR_SET_VARIABLES K}"
  shows "\<exists>g. AI_gov_ioctl K (GOVERNOR_OTHER_FUNCT K) arg cur M = (0, g, M) \<and> gov_phase g \<notin> range (of_nat \<circ> phase_state_value)"
proof -
  have "(5 :: 32 word) \<noteq> of_nat (phase_state_value p)" for p by (cases p) simp_all
  then show ?thesis using assms by (auto simp: AI_gov_ioctl_def)
qed

text \<open>
  The declarations are laid out soundly. In every struct of the headers the member names differ,
  and on every ABI, at an address the struct's alignment divides, each member is aligned, ends before
  the next begins and lies inside the struct. The sizes depend on the machine: on the 64-bit and the
  32-bit target they are those listed.
\<close>

theorem governor_structs_laid_out:
  assumes "abi_ok A" and "ms \<in> set governor_structs" and "alignof A (T_struct ms) dvd p"
  shows "distinct (map fst ms) \<and>
    sorted_wrt (\<lambda>(f, off, t) (f', off', t'). off + sizeof A t \<le> off') (layout A 0 ms) \<and>
    (\<forall>(f, off, t) \<in> set (layout A 0 ms).
       alignof A t dvd p + off \<and> off + sizeof A t \<le> sizeof A (T_struct ms)) \<and>
    map (\<lambda>s. sizeof (lp64 named) (T_struct s)) [driver_AI_governor, AI_gov_ioctl_phase_variable, AI_gov_freq_table,
       AI_gov_cur_HW, types_AI_gov_profile, phase_profile, phase_attributes AI_framerate, phase_attributes AI_time] =
      [20, 16, 48, 48, 32, 72, 16, 24] \<and>
    map (\<lambda>s. sizeof (arm_eabi named) (T_struct s)) [driver_AI_governor, AI_gov_ioctl_phase_variable, AI_gov_freq_table,
       AI_gov_cur_HW, types_AI_gov_profile, phase_profile, phase_attributes AI_framerate, phase_attributes AI_time] =
      [20, 12, 32, 32, 20, 36, 12, 12]"
proof (intro conjI)
  show "distinct (map fst ms)" using assms(2)
    by (auto simp: governor_structs_def governor_struct_defs FOR_EACH_PHASE_def)
  show "sorted_wrt (\<lambda>(f, off, t) (f', off', t'). off + sizeof A t \<le> off') (layout A 0 ms)" by (rule layout_ordered)
  show "\<forall>(f, off, t) \<in> set (layout A 0 ms). alignof A t dvd p + off \<and> off + sizeof A t \<le> sizeof A (T_struct ms)"
    using struct_members [OF assms(1) _ assms(3)] by blast
qed (simp_all add: governor_struct_defs lp64_def arm_eabi_def align_up_def FRAMERATE_HISTORY_LENGTH_def)

theorem governor_structs_laid_out_witness:
  "sorted_wrt (\<lambda>(f, off, t) (f', off', t'). off + sizeof (arm_eabi (\<lambda>_. (8, 8))) t \<le> off')
     (layout (arm_eabi (\<lambda>_. (8, 8))) 0 cpufreq_AI_governor_cpuinfo) \<and>
    sizeof (lp64 (\<lambda>_. (8, 8))) (T_struct AI_gov_cur_HW) = 48"
proof -
  have "cpufreq_AI_governor_cpuinfo \<in> set governor_structs" by (simp add: governor_structs_def)
  from governor_structs_laid_out [OF abi_examples(2) this, of 0 "\<lambda>_. (8, 8)"] show ?thesis by simp
qed

end
