(* ===== verification/Message_Queues.thy ===== *)
theory Message_Queues
  imports C_Stdio Sentinel_List
begin

text \<open>
  The POSIX message-queue programs. \<open>posix_message_queues\<close>: a client that sends the lines of its
  input and a server that prints what it receives, until a message that starts with \<open>exit\<close>. The two
  asynchronous servers keep a list of open queues that a signal handler closes; \<open>async_\<dots>\<close> is notified
  by a signal, \<open>\<dots>SIGEV_THREAD\<close> by a thread. What the message-queue calls return is a parameter.
\<close>

section \<open>Client and server\<close>

definition MAX_SIZE :: nat where
  "MAX_SIZE = 1024"

definition MSG_STOP :: string where
  "MSG_STOP = ''exit''"

definition QUEUE_NAME :: string where
  "QUEUE_NAME = ''/example_queue''"

definition ASYNC_QUEUE_NAME :: string where
  "ASYNC_QUEUE_NAME = ''/async_test_queue4''"

definition ASYNC_QUEUE_NAME_TWO :: string where
  "ASYNC_QUEUE_NAME_TWO = ''/async_test2_queue4''"

text \<open>\<open>strncmp(buffer, MSG_STOP, strlen(MSG_STOP)) == 0\<close> on a buffer of at least that size.\<close>

definition is_stop :: "char list \<Rightarrow> bool" where
  "is_stop buf \<longleftrightarrow> take (length MSG_STOP) buf = MSG_STOP"

text \<open>\<open>CHECK(x)\<close> exits with status -1.\<close>

definition CHECK :: "bool \<Rightarrow> unit cres" where
  "CHECK = c_check (Exit_status (- 1))"

text \<open>
  Sending one buffer to each of the queues of a client, with what is sent so far; \<open>ret n\<close> is the
  result of the n-th \<open>mq_send\<close>.
\<close>

fun send_all :: "(nat \<Rightarrow> int) \<Rightarrow> string list \<Rightarrow> char list \<Rightarrow> (string \<times> char list) list \<Rightarrow>
    (string \<times> char list) list cres" where
  "send_all ret [] buf sent = Inr sent"
| "send_all ret (q # qs) buf sent =
     cbind (mem_read buf 0 MAX_SIZE) (\<lambda>msg. cbind (CHECK (0 \<le> ret (length sent))) (\<lambda>_.
       send_all ret qs buf (sent @ [(q, msg)])))"

partial_function (option) client_loop :: "string list \<Rightarrow> (nat \<Rightarrow> int) \<Rightarrow> char list \<Rightarrow> string \<Rightarrow>
    (string \<times> char list) list \<Rightarrow> (string \<times> char list) list crun" where
  [code]: "client_loop qs ret buf inp sent =
     (case cbind (c_memset0 buf MAX_SIZE) (\<lambda>buf0. c_fgets buf0 MAX_SIZE inp) of
        Inl e \<Rightarrow> Some (Inl e)
      | Inr (got, buf1, inp') \<Rightarrow> (case send_all ret qs buf1 sent of
            Inl e \<Rightarrow> Some (Inl e)
          | Inr sent' \<Rightarrow>
              if is_stop buf1 then Some (Inr sent') else client_loop qs ret buf1 inp' sent'))"

text \<open>\<open>fd\<close>, \<open>closed\<close>: what \<open>mq_open\<close> and \<open>mq_close\<close> return; \<open>junk\<close>: the buffer's initial contents.\<close>

definition client_main :: "int \<Rightarrow> int \<Rightarrow> (nat \<Rightarrow> int) \<Rightarrow> char list \<Rightarrow> string \<Rightarrow>
    (string \<times> char list) list crun" where
  "client_main fd closed ret junk inp =
     lbind (Some (CHECK (fd \<noteq> - 1))) (\<lambda>_.
     lbind (client_loop [QUEUE_NAME] ret junk inp []) (\<lambda>sent.
       Some (cbind (CHECK (closed \<noteq> - 1)) (\<lambda>_. Inr sent))))"

text \<open>
  The client of the asynchronous server opens the first queue twice, checks the first descriptor
  twice and sends every buffer to both descriptors.
\<close>

definition async_client_main :: "int \<Rightarrow> int \<Rightarrow> int \<Rightarrow> int \<Rightarrow> (nat \<Rightarrow> int) \<Rightarrow> char list \<Rightarrow> string \<Rightarrow>
    (string \<times> char list) list crun" where
  "async_client_main fd fd2 closed closed2 ret junk inp =
     lbind (Some (CHECK (fd \<noteq> - 1))) (\<lambda>_. lbind (Some (CHECK (fd \<noteq> - 1))) (\<lambda>_.
     lbind (client_loop [ASYNC_QUEUE_NAME, ASYNC_QUEUE_NAME] ret junk inp []) (\<lambda>sent.
       Some (cbind (CHECK (closed \<noteq> - 1)) (\<lambda>_. cbind (CHECK (closed2 \<noteq> - 1)) (\<lambda>_. Inr sent))))))"

text \<open>
  The server's loop on the messages that arrive (\<open>None\<close>: \<open>mq_receive\<close> fails). When there is no
  further message it waits forever.
\<close>

fun server_loop :: "char list option list \<Rightarrow> char list \<Rightarrow> string list \<Rightarrow> string list crun" where
  "server_loop [] buf out = None"
| "server_loop (None # ms) buf out = Some (Inl (Exit_status (- 1)))"
| "server_loop (Some m # ms) buf out =
     (case cbind (mem_write buf 0 m) (\<lambda>buf1. mem_write buf1 (length m) [nul]) of
        Inl e \<Rightarrow> Some (Inl e)
      | Inr buf2 \<Rightarrow>
          if is_stop buf2 then Some (Inr out) else server_loop ms buf2 (out @ [c_str buf2]))"

definition server_main :: "int \<Rightarrow> int \<Rightarrow> int \<Rightarrow> char list \<Rightarrow> char list option list \<Rightarrow> string list crun" where
  "server_main fd closed unlinked junk ms =
     lbind (Some (CHECK (fd \<noteq> - 1))) (\<lambda>_.
     lbind (server_loop ms junk []) (\<lambda>out.
       Some (cbind (CHECK (closed \<noteq> - 1)) (\<lambda>_. cbind (CHECK (unlinked \<noteq> - 1)) (\<lambda>_. Inr out)))))"

section \<open>What the client sends and the server prints\<close>

text \<open>A message: the text followed by NULs up to the size.\<close>

definition padded :: "string \<Rightarrow> char list" where
  "padded s = s @ replicate (MAX_SIZE - length s) nul"

lemma CHECK_simps [simp]: "CHECK True = Inr ()" "CHECK False = Inl (Exit_status (- 1))"
  by (simp_all add: CHECK_def)

lemma plain_line_fits: "plain_line l \<Longrightarrow> CHR 0x0A \<notin> set l \<and> length l + 2 \<le> MAX_SIZE"
  by (simp add: plain_line_def MAX_SIZE_def)

lemma memset_all: "length buf = n \<Longrightarrow> c_memset0 buf n = Inr (replicate n nul)"
  by (simp add: c_memset0_def mem_write_def)

lemma client_read:
  assumes "plain_line l" and "length buf = MAX_SIZE"
  shows "cbind (c_memset0 buf MAX_SIZE) (\<lambda>buf0. c_fgets buf0 MAX_SIZE (l @ CHR 0x0A # inp)) =
    Inr (True, padded (l @ [CHR 0x0A]), inp)"
proof -
  obtain k where k: "MAX_SIZE = length l + 2 + k"
    using plain_line_fits [OF assms(1)] le_Suc_ex by blast
  have "c_fgets (replicate MAX_SIZE nul) MAX_SIZE (l @ CHR 0x0A # inp) =
      Inr (True, l @ CHR 0x0A # nul # drop (length l + 2) (replicate MAX_SIZE nul), inp)"
    using plain_line_fits [OF assms(1)] by (intro fgets_line) auto
  moreover have "nul # drop (length l + 2) (replicate MAX_SIZE nul) =
      replicate (MAX_SIZE - length (l @ [CHR 0x0A])) nul" by (simp add: k)
  ultimately show ?thesis by (simp add: memset_all [OF assms(2)] padded_def)
qed

lemma padded_length: "length s \<le> MAX_SIZE \<Longrightarrow> length (padded s) = MAX_SIZE"
  by (simp add: padded_def)

lemma msg_length: "plain_line l \<Longrightarrow> length (padded (l @ [CHR 0x0A])) = MAX_SIZE"
  using plain_line_fits by (intro padded_length) force

lemma send_all_ok:
  assumes "length buf = MAX_SIZE" and "\<And>n. 0 \<le> ret n"
  shows "send_all ret qs buf sent = Inr (sent @ map (\<lambda>q. (q, buf)) qs)"
  using assms by (induction qs arbitrary: sent) (simp_all add: mem_simps)

lemma client_loop_line:
  assumes "plain_line l" and "length buf = MAX_SIZE" and "\<And>n. 0 \<le> ret n"
  shows "client_loop qs ret buf (l @ CHR 0x0A # inp) sent =
    (let m = padded (l @ [CHR 0x0A]); sent' = sent @ map (\<lambda>q. (q, m)) qs in
     if is_stop m then Some (Inr sent') else client_loop qs ret m inp sent')"
proof -
  have "length (padded (l @ [CHR 0x0A])) = MAX_SIZE"
    using assms(1) by (rule msg_length)
  then show ?thesis
    by (subst client_loop.simps) (simp add: client_read [OF assms(1,2)] send_all_ok assms(3) Let_def)
qed

lemma is_stop_take: "is_stop buf \<longleftrightarrow> take 4 buf = ''exit''"
  by (simp add: is_stop_def MSG_STOP_def numeral_eq_Suc)

lemma is_stop_padded:
  assumes "CHR 0x0A \<notin> set l"
  shows "is_stop (padded (l @ [CHR 0x0A])) \<longleftrightarrow> is_stop l"
proof (cases "length l < 4")
  case True
  have "\<not> is_stop (padded (l @ [CHR 0x0A]))"
  proof
    assume "is_stop (padded (l @ [CHR 0x0A]))"
    then have "take 4 (l @ CHR 0x0A # replicate (MAX_SIZE - length (l @ [CHR 0x0A])) nul) ! length l =
        ''exit'' ! length l"
      by (simp add: is_stop_take padded_def)
    then have "''exit'' ! length l = CHR 0x0A" using True by (simp add: nth_append take_Cons')
    moreover have "length l = 0 \<or> length l = 1 \<or> length l = 2 \<or> length l = 3" using True by linarith
    ultimately show False by auto
  qed
  moreover have "\<not> is_stop l"
  proof
    assume "is_stop l"
    then have "length (take 4 l) = length ''exit''" by (simp add: is_stop_take)
    with True show False by simp
  qed
  ultimately show ?thesis by simp
next
  case False
  then show ?thesis by (simp add: is_stop_take padded_def)
qed

text \<open>The lines of a conversation, and the line that ends it.\<close>

definition talk_line :: "string \<Rightarrow> bool" where
  "talk_line l \<longleftrightarrow> plain_line l \<and> \<not> is_stop l"

definition stop_line :: "string \<Rightarrow> bool" where
  "stop_line l \<longleftrightarrow> plain_line l \<and> is_stop l"

abbreviation msg_of :: "string \<Rightarrow> char list" where
  "msg_of l \<equiv> padded (l @ [CHR 0x0A])"

lemma client_loop_talk:
  assumes "\<forall>l\<in>set ls. talk_line l" and "stop_line e" and "length buf = MAX_SIZE" and ret: "\<And>n. 0 \<le> ret n"
  shows "client_loop qs ret buf (unlines (ls @ [e]) @ rest) sent =
    Some (Inr (sent @ concat (map (\<lambda>l. map (\<lambda>q. (q, msg_of l)) qs) (ls @ [e]))))"
  using assms(1,3)
proof (induction ls arbitrary: buf sent)
  case Nil
  have e: "plain_line e" "is_stop e" "CHR 0x0A \<notin> set e" using assms(2) by (auto simp: stop_line_def plain_line_def)
  have inp: "unlines ([] @ [e]) @ rest = e @ CHR 0x0A # rest" by (simp add: unlines_def)
  show ?case
    using e(2) is_stop_padded [OF e(3)]
    unfolding inp client_loop_line [where ret = ret, OF e(1) Nil.prems(2) ret] Let_def by simp
next
  case (Cons l ls)
  have l: "plain_line l" "\<not> is_stop l" "CHR 0x0A \<notin> set l" using Cons.prems(1) by (auto simp: talk_line_def plain_line_def)
  have inp: "unlines ((l # ls) @ [e]) @ rest = l @ CHR 0x0A # (unlines (ls @ [e]) @ rest)"
    by (simp add: unlines_def)
  have len: "length (msg_of l) = MAX_SIZE"
    using l(1) by (rule msg_length)
  have "client_loop qs ret (msg_of l) (unlines (ls @ [e]) @ rest) (sent @ map (\<lambda>q. (q, msg_of l)) qs) =
      Some (Inr ((sent @ map (\<lambda>q. (q, msg_of l)) qs) @ concat (map (\<lambda>l. map (\<lambda>q. (q, msg_of l)) qs) (ls @ [e]))))"
    using Cons.prems(1) len by (intro Cons.IH) auto
  then show ?case
    using l(2) is_stop_padded [OF l(3)]
    unfolding inp client_loop_line [where ret = ret, OF l(1) Cons.prems(2) ret] Let_def
    by simp
qed

lemma server_receive:
  assumes "plain_line l" and "length buf = MAX_SIZE + 1"
  shows "cbind (mem_write buf 0 (msg_of l)) (\<lambda>buf1. mem_write buf1 (length (msg_of l)) [nul]) =
    Inr (msg_of l @ [nul])"
proof -
  have "length (msg_of l) = MAX_SIZE"
    using assms(1) by (rule msg_length)
  then show ?thesis using assms(2) by (simp add: mem_write_def)
qed

lemma c_str_msg: "plain_line l \<Longrightarrow> c_str (msg_of l @ [nul]) = l @ [CHR 0x0A]"
proof -
  assume l: "plain_line l"
  then have "is_cstring (l @ [CHR 0x0A])" by (simp add: plain_line_def is_cstring_def nul_def)
  moreover obtain rest where "msg_of l @ [nul] = (l @ [CHR 0x0A]) @ nul # rest"
    by (cases "MAX_SIZE - length (l @ [CHR 0x0A])") (auto simp: padded_def)
  ultimately show ?thesis by (simp only: c_str_append)
qed

lemma is_stop_msg: "plain_line l \<Longrightarrow> is_stop (msg_of l @ [nul]) \<longleftrightarrow> is_stop l"
proof -
  assume l: "plain_line l"
  have "4 \<le> length (msg_of l)"
    using msg_length [OF l] by (simp add: MAX_SIZE_def)
  then have "is_stop (msg_of l @ [nul]) \<longleftrightarrow> is_stop (msg_of l)" by (simp add: is_stop_take)
  then show ?thesis using is_stop_padded plain_line_fits [OF l] by simp
qed

lemma server_loop_talk:
  assumes "\<forall>l\<in>set ls. talk_line l" and "stop_line e" and "length buf = MAX_SIZE + 1"
  shows "server_loop (map (\<lambda>l. Some (msg_of l)) (ls @ [e]) @ ms) buf out =
    Some (Inr (out @ map (\<lambda>l. l @ [CHR 0x0A]) ls))"
  using assms(1,3)
proof (induction ls arbitrary: buf out)
  case Nil
  have "plain_line e" "is_stop e" using assms(2) by (auto simp: stop_line_def)
  then show ?case using server_receive [OF _ Nil.prems(2)] is_stop_msg by simp
next
  case (Cons l ls)
  have l: "plain_line l" "\<not> is_stop l" using Cons.prems(1) by (auto simp: talk_line_def)
  have "length (msg_of l @ [nul]) = MAX_SIZE + 1"
    using msg_length [OF l(1)] by simp
  then show ?case
    using Cons l server_receive [OF l(1) Cons.prems(2)] is_stop_msg [OF l(1)] c_str_msg [OF l(1)]
    by simp
qed

section \<open>The asynchronous servers\<close>

text \<open>
  The list of open queues starts at a static head. \<open>mq_ev_set\<close> says whether the notification of a
  queue has been filled in; the buffer and the callback are only used by the thread version.
\<close>

record mq_info =
  mq_fd :: int
  mq_callback :: "nat option"
  mq_name :: addr
  mq_buffer :: addr
  mq_next :: addr
  mq_ev_set :: bool

text \<open>
  The program's memory, and what it did to the system's queues, newest last. \<open>Got\<close> is a message
  that was printed, \<open>Called\<close> one that was handed to a callback, with its size and the string in the
  buffer.
\<close>

datatype mq_event = Closed int | Unlinked string | Notified int | Got string | Called nat nat string

record mq_server =
  mqs_nodes :: "addr \<rightharpoonup> mq_info"
  mqs_strs :: "addr \<rightharpoonup> char list"
  mqs_log :: "mq_event list"

definition mq_head :: addr where
  "mq_head = 1"

definition zero_mq :: mq_info where
  "zero_mq = \<lparr>mq_fd = 0, mq_callback = None, mq_name = NULL, mq_buffer = NULL, mq_next = NULL,
     mq_ev_set = False\<rparr>"

definition mqs_zero :: mq_server where
  "mqs_zero = \<lparr>mqs_nodes = [mq_head \<mapsto> zero_mq], mqs_strs = Map.empty, mqs_log = []\<rparr>"

abbreviation mq_did :: "mq_event list \<Rightarrow> mq_server \<Rightarrow> mq_server" where
  "mq_did evs s \<equiv> s\<lparr>mqs_log := mqs_log s @ evs\<rparr>"

text \<open>The string at an address.\<close>

definition str_at :: "mq_server \<Rightarrow> addr \<Rightarrow> string cres" where
  "str_at s p = cbind (deref (mqs_strs s) p) (\<lambda>buf. cbind (c_strlen buf) (\<lambda>n. Inr (take n buf)))"

text \<open>
  \<open>while (iterator->next) { iterator = iterator->next; delete = iterator; \<dots> free(delete); }\<close>:
  the next test reads through \<open>iterator\<close>, which has just been freed. \<open>threads\<close> is the version
  that also frees the name and the buffer.
\<close>

partial_function (option) close_loop :: "bool \<Rightarrow> addr \<Rightarrow> mq_server \<Rightarrow> mq_server crun" where
  "close_loop threads iterator s =
     (case deref (mqs_nodes s) iterator of
        Inl e \<Rightarrow> Some (Inl e)
      | Inr n \<Rightarrow>
          if mq_next n = NULL then Some (Inr s)
          else (case deref (mqs_nodes s) (mq_next n) of
              Inl e \<Rightarrow> Some (Inl e)
            | Inr d \<Rightarrow> (case str_at s (mq_name d) of
                  Inl e \<Rightarrow> Some (Inl e)
                | Inr name \<Rightarrow> close_loop threads (mq_next n)
                    ((mq_did [Closed (mq_fd d), Unlinked name] s)
                       \<lparr>mqs_nodes := (mqs_nodes s)(mq_next n := None),
                        mqs_strs := (if threads
                          then (mqs_strs s)(mq_name d := None, mq_buffer d := None)
                          else mqs_strs s)\<rparr>))))"

text \<open>\<open>SIGINT\<close> is 2; after closing, the handler exits with status 0.\<close>

definition closeMsgQueues :: "bool \<Rightarrow> int \<Rightarrow> mq_server \<Rightarrow> mq_server crun" where
  "closeMsgQueues threads signal s =
     (if signal = 2 then lbind (close_loop threads mq_head s) (\<lambda>_. Some (Inl (Exit_status 0)))
      else Some (Inr s))"

text \<open>
  \<open>openMessageQueue\<close> of the signal version. \<open>a\<close> and \<open>b\<close> are what the two allocations return, \<open>fd\<close>,
  \<open>act\<close>, \<open>own\<close> and \<open>note\<close> what \<open>mq_open\<close>, \<open>sigaction\<close>, \<open>fcntl\<close> and \<open>mq_notify\<close> return.
\<close>

definition openMessageQueue ::
    "addr \<Rightarrow> addr \<Rightarrow> int \<Rightarrow> int \<Rightarrow> int \<Rightarrow> int \<Rightarrow> string \<Rightarrow> mq_server \<Rightarrow> (int \<times> mq_server) crun" where
  "openMessageQueue a b fd act own note name s =
     lbind (last_node mq_next (mqs_nodes s) mq_head) (\<lambda>iterator.
       let H0 = (if a = NULL then mqs_nodes s else (mqs_nodes s)(a \<mapsto> zero_mq)) in
       Some (cbind (update_at H0 iterator (mq_next_update (\<lambda>_. a))) (\<lambda>H1.
         cbind (update_at H1 a (mq_name_update (\<lambda>_. b))) (\<lambda>H2.
           if b = NULL then Inl (Exit_status (- 1))
           else cbind (c_strcpy (replicate (length name + 1) nul) 0 name) (\<lambda>str.
             cbind (update_at H2 a (mq_fd_update (\<lambda>_. fd))) (\<lambda>H3.
               let s1 = s\<lparr>mqs_nodes := H3, mqs_strs := (mqs_strs s)(b \<mapsto> str)\<rparr>;
                   failed = Inr (- 1, mq_did [Unlinked name] s1) in
               if fd = - 1 then failed
               else if act \<noteq> 0 then failed
               else cbind (CHECK (own \<noteq> - 1)) (\<lambda>_.
                 cbind (update_at H3 a (mq_ev_set_update (\<lambda>_. True))) (\<lambda>H4.
                   let s2 = s1\<lparr>mqs_nodes := H4\<rparr> in
                   if note < 0 then Inr (- 1, mq_did [Unlinked name] s2)
                   else Inr (0, mq_did [Notified fd] s2)))))))))"

text \<open>
  \<open>main\<close> of the signal version up to its endless loop: it opens two queues and ignores the results.
  The arguments are those of the two calls.
\<close>

definition async_server_setup ::
    "addr \<times> addr \<times> int \<times> int \<times> int \<times> int \<Rightarrow> addr \<times> addr \<times> int \<times> int \<times> int \<times> int \<Rightarrow> mq_server crun" where
  "async_server_setup = (\<lambda>(a, b, fd, act, own, note) (a', b', fd', act', own', note').
     lbind (openMessageQueue a b fd act own note ASYNC_QUEUE_NAME mqs_zero) (\<lambda>(_, s1).
     lbind (openMessageQueue a' b' fd' act' own' note' ASYNC_QUEUE_NAME_TWO s1) (\<lambda>(_, s2).
       Some (Inr s2))))"

text \<open>
  The signal version's handler, for the queue at \<open>p\<close>: it prints the buffer (\<open>msg\<close> is what
  \<open>mq_receive\<close> stored in it, over the unspecified contents \<open>junk\<close>) and registers again.
\<close>

definition mq_sigHandler :: "addr \<Rightarrow> char list \<Rightarrow> char list \<Rightarrow> int \<Rightarrow> mq_server \<Rightarrow> mq_server crun" where
  "mq_sigHandler p junk msg note s =
     lbind (Some (cbind (deref (mqs_nodes s) p) (\<lambda>n.
              cbind (mem_write junk 0 msg) (\<lambda>buf. cbind (c_strlen buf) (\<lambda>k.
                Inr (mq_fd n, mq_did [Got (take k buf)] s)))))) (\<lambda>(fd, s1).
       if note < 0 then closeMsgQueues False 2 s1 else Some (Inr (mq_did [Notified fd] s1)))"

text \<open>
  The thread version: a queue also has a buffer and a callback, names get a leading slash, failed
  allocations are asserted away, and \<open>mq_open\<close> is asserted to return a non-zero descriptor (which
  -1 is).
\<close>

definition openMessageQueue_thread ::
    "addr \<Rightarrow> addr \<Rightarrow> addr \<Rightarrow> int \<Rightarrow> int \<Rightarrow> string \<Rightarrow> nat option \<Rightarrow> mq_server \<Rightarrow>
     (int \<times> mq_server) crun" where
  "openMessageQueue_thread a b c fd note name callback s =
     lbind (last_node mq_next (mqs_nodes s) mq_head) (\<lambda>iterator.
       let H0 = (if a = NULL then mqs_nodes s else (mqs_nodes s)(a \<mapsto> zero_mq)) in
       Some (cbind (update_at H0 iterator (mq_next_update (\<lambda>_. a))) (\<lambda>H1.
         cbind (c_assert (a \<noteq> NULL)) (\<lambda>_. cbind (c_assert (b \<noteq> NULL)) (\<lambda>_.
         cbind (c_assert (c \<noteq> NULL)) (\<lambda>_.
         cbind (c_strcpy (replicate (length name + 2) nul) 1 name) (\<lambda>str0.
         cbind (mem_write str0 0 ''/'') (\<lambda>str.
         cbind (c_assert (fd \<noteq> 0)) (\<lambda>_.
         cbind (update_at H1 a (\<lambda>n. n\<lparr>mq_name := b, mq_buffer := c, mq_callback := callback,
                  mq_fd := fd, mq_ev_set := True\<rparr>)) (\<lambda>H2.
           let s1 = s\<lparr>mqs_nodes := H2, mqs_strs := (mqs_strs s)
                 (b \<mapsto> str, c \<mapsto> replicate (MAX_SIZE + 1) nul)\<rparr> in
           if note < 0 then Inr (- 1, mq_did [Unlinked name] s1)
           else Inr (0, mq_did [Notified fd] s1)))))))))))"

text \<open>The thread version's \<open>closeMsgQueues\<close>: the same loop, which also frees the name and the buffer.\<close>

definition closeMsgQueues_thread :: "int \<Rightarrow> mq_server \<Rightarrow> mq_server crun" where
  "closeMsgQueues_thread = closeMsgQueues True"

text \<open>The handler thread: \<open>msg\<close> is what arrived, \<open>None\<close> when \<open>mq_receive\<close> fails.\<close>

definition mq_threadHandler :: "addr \<Rightarrow> char list option \<Rightarrow> int \<Rightarrow> mq_server \<Rightarrow> mq_server crun" where
  "mq_threadHandler p msg note s =
     lbind (Some (cbind (deref (mqs_nodes s) p) (\<lambda>n. case msg of
              None \<Rightarrow> Inr (mq_fd n, s)
            | Some m \<Rightarrow>
                cbind (deref (mqs_strs s) (mq_buffer n)) (\<lambda>buf.
                cbind (mem_write buf 0 m) (\<lambda>buf'.
                let s1 = s\<lparr>mqs_strs := (mqs_strs s)(mq_buffer n \<mapsto> buf')\<rparr> in
                if m = [] then Inr (mq_fd n, s1)
                else (case mq_callback n of
                    None \<Rightarrow> Inl Null_call
                  | Some f \<Rightarrow> cbind (c_strlen buf') (\<lambda>k.
                      Inr (mq_fd n, mq_did [Called f (length m) (take k buf')] s1)))))))) (\<lambda>(fd, s1).
       if note < 0 then closeMsgQueues_thread 2 s1 else Some (Inr (mq_did [Notified fd] s1)))"

text \<open>
  \<open>messageQueuePut\<close>: the message sent to the queue named with a leading slash; \<open>fd\<close>, \<open>sent\<close> and
  \<open>closed\<close> are what the calls return.
\<close>

definition messageQueuePut ::
    "addr \<Rightarrow> int \<Rightarrow> int \<Rightarrow> int \<Rightarrow> string \<Rightarrow> char list \<Rightarrow> (int \<times> (string \<times> string) list) cres" where
  "messageQueuePut a fd sent closed mq_nm buffer =
     cbind (c_check Null_deref (a \<noteq> NULL)) (\<lambda>_.
     cbind (c_strcpy (replicate (length mq_nm + 2) nul) 1 mq_nm) (\<lambda>str0.
     cbind (mem_write str0 0 ''/'') (\<lambda>full_name.
       if fd = - 1 then Inr (- 1, [])
       else cbind (c_strlen buffer) (\<lambda>n. cbind (c_assert (closed \<noteq> - 1)) (\<lambda>_.
              Inr (0, if sent = - 1 then [] else [(c_str full_name, take n buffer)]))))))"

section \<open>The list of queues\<close>

interpretation mq: linked_node mq_next "\<lambda>a. mq_next_update (\<lambda>_. a)"
  by unfold_locales simp

definition mq_list :: "mq_server \<Rightarrow> addr list \<Rightarrow> bool" where
  "mq_list s as \<longleftrightarrow> chain mq_next (mqs_nodes s) mq_head (mq_head # as)"

lemma mq_list_zero: "mq_list mqs_zero []"
  by (simp add: mq_list_def mqs_zero_def chain_Cons mq_head_def zero_mq_def)

lemma strcpy_fill: "c_strcpy (replicate (length s + 1) nul) 0 s = Inr (s @ [nul])"
  by (simp add: c_strcpy_def mem_simps)

text \<open>Closing a non-empty list reads through the first node after freeing it.\<close>

lemma close_loop_uaf:
  assumes "mq_list s (a # as)" and "map_option mq_name (mqs_nodes s a) = Some b" and "str_at s b = Inr name"
  shows "close_loop threads mq_head s = Some (Inl Bad_pointer)"
proof -
  from assms(2) obtain d where d: "mqs_nodes s a = Some d" "mq_name d = b" by auto
  from assms(1) obtain h where h: "mqs_nodes s mq_head = Some h" "mq_next h = a" "a \<noteq> NULL" "mq_head \<noteq> NULL"
    by (auto simp: mq_list_def chain_Cons)
  show ?thesis
    by (subst close_loop.simps, cases threads) (simp_all add: h d assms(3) close_loop.simps [of _ a])
qed

section \<open>Properties\<close>

text \<open>
  C10. Client and server together: given lines that do not start with \<open>exit\<close> and fit the client's buffer, a line that
  does, and any further input, the client ends and sends one message of \<open>MAX_SIZE\<close> bytes per line, up to and
  including the stop line; a server that receives these messages prints exactly the lines before
  the stop line, in order, and ends, whatever follows. No buffer is overrun.
\<close>

theorem mq_conversation:
  assumes "\<forall>l\<in>set ls. talk_line l" and "stop_line e" and "\<forall>n. 0 \<le> ret n"
    and "fd \<noteq> - 1" and "closed \<noteq> - 1" and "unlinked \<noteq> - 1"
    and "length junk = MAX_SIZE" and "length junk' = MAX_SIZE + 1"
  shows "\<exists>sent. client_main fd closed ret junk (unlines (ls @ [e]) @ rest) = Some (Inr sent) \<and>
    (\<forall>(q, m)\<in>set sent. q = QUEUE_NAME \<and> length m = MAX_SIZE) \<and>
    server_main fd closed unlinked junk' (map (\<lambda>(q, m). Some m) sent @ later) =
      Some (Inr (map (\<lambda>l. l @ [CHR 0x0A]) ls))"
proof -
  let ?sent = "map (\<lambda>l. (QUEUE_NAME, msg_of l)) (ls @ [e])"
  have "concat (map (\<lambda>l. map (\<lambda>q. (q, msg_of l)) [QUEUE_NAME]) (ls @ [e])) = ?sent"
    by (induction ls) auto
  then have "client_main fd closed ret junk (unlines (ls @ [e]) @ rest) = Some (Inr ?sent)"
    using client_loop_talk [OF assms(1,2,7), of ret "[QUEUE_NAME]" rest "[]"] assms(3-5)
    by (simp add: client_main_def)
  moreover have "server_main fd closed unlinked junk' (map (\<lambda>(q, m). Some m) ?sent @ later) =
      Some (Inr (map (\<lambda>l. l @ [CHR 0x0A]) ls))"
    using server_loop_talk [OF assms(1,2,8), of later "[]"] assms(4-6)
    by (simp add: server_main_def comp_def)
  moreover have "\<forall>(q, m)\<in>set ?sent. q = QUEUE_NAME \<and> length m = MAX_SIZE"
    using assms(1,2) msg_length by (auto simp: talk_line_def stop_line_def)
  ultimately show ?thesis by blast
qed

theorem mq_conversation_witness:
  "\<exists>sent. client_main 3 0 (\<lambda>_. 0) (replicate 1024 nul) (unlines ([''hi''] @ [''exit'']) @ []) = Some (Inr sent) \<and>
    server_main 3 0 0 (replicate 1025 nul) (map (\<lambda>(q, m). Some m) sent @ []) = Some (Inr [''hi'' @ [CHR 0x0A]])"
proof -
  have "talk_line ''hi''" "stop_line ''exit''"
    by (simp_all add: talk_line_def stop_line_def plain_line_def is_cstring_def nul_def is_stop_take)
  then show ?thesis
    using mq_conversation [of "[''hi'']" "''exit''" "\<lambda>_. 0" 3 0 0 "replicate 1024 nul" "replicate 1025 nul" "[]" "[]"]
    by (auto simp: MAX_SIZE_def)
qed

end
