(* ===== verification/MQ_Notification.thy ===== *)
theory MQ_Notification
  imports Message_Queues Thread_Runs "HOL-Library.Sublist"
begin

text \<open>
  The client of \<open>async_posix_message_queues\<close> against the handler of its server, under every schedule. The
  kernel notifies a process at most once per registration, and only when a message arrives in an
  empty queue; the handler receives one message and registers again. A message that arrives before
  the handler has emptied the queue is therefore never announced, and nor is any later one.
\<close>

section \<open>The program\<close>

text \<open>
  The queue in the kernel, with the registration of the server (\<open>qw_registered\<close>) and a notification that is
  on its way (\<open>qw_pending\<close>); what the client has yet to send; the next statement of the handler; what
  the handler has printed.
\<close>

datatype nh_pc = NH_idle | NH_receive | NH_notify

record mq_world =
  qw_unsent :: "char list list"
  qw_queue :: "char list list"
  qw_registered :: bool
  qw_pending :: bool
  qw_pc :: nh_pc
  qw_out :: "string list"
  qw_fault :: "c_fault option"

definition notify_init :: "char list list \<Rightarrow> mq_world" where
  "notify_init ms = \<lparr>qw_unsent = ms, qw_queue = [], qw_registered = True, qw_pending = False,
     qw_pc = NH_idle, qw_out = [], qw_fault = None\<rparr>"

text \<open>The capacity with which \<open>main\<close> opens its queues.\<close>

definition max_msg_num :: nat where
  "max_msg_num = 10"

text \<open>\<open>mq_send\<close> waits while the queue is full.\<close>

definition send_step :: "mq_world \<Rightarrow> mq_world option" where
  "send_step s = (case qw_unsent s of
       [] \<Rightarrow> None
     | m # ms \<Rightarrow>
         if length (qw_queue s) < max_msg_num
         then (let arrives = (qw_queue s = [] \<and> qw_registered s) in
           Some (s\<lparr>qw_unsent := ms, qw_queue := qw_queue s @ [m], qw_registered := qw_registered s \<and> \<not> arrives,
                   qw_pending := qw_pending s \<or> arrives\<rparr>))
         else None)"

text \<open>
  \<open>sigHandler\<close>: \<open>mq_receive\<close> does not wait (the queue is opened with \<open>O_NONBLOCK\<close>), and its result is not
  checked; \<open>junk\<close> is what the local array holds. \<open>mq_notify\<close> succeeds: no other process is registered.
\<close>

definition handler_step :: "char list \<Rightarrow> mq_world \<Rightarrow> mq_world option" where
  "handler_step junk s = (case qw_pc s of
       NH_idle \<Rightarrow> if qw_pending s then Some (s\<lparr>qw_pending := False, qw_pc := NH_receive\<rparr>) else None
     | NH_receive \<Rightarrow>
         let m = (case qw_queue s of [] \<Rightarrow> [] | m # _ \<Rightarrow> m) in
         (case cbind (mem_write junk 0 m) (\<lambda>buf. cbind (c_strlen buf) (\<lambda>k. Inr (take k buf))) of
            Inl e \<Rightarrow> Some (s\<lparr>qw_fault := Some e\<rparr>)
          | Inr txt \<Rightarrow> Some (s\<lparr>qw_queue := tl (qw_queue s), qw_out := qw_out s @ [txt], qw_pc := NH_notify\<rparr>))
     | NH_notify \<Rightarrow> Some (s\<lparr>qw_registered := True, qw_pc := NH_idle\<rparr>))"

inductive notify_step :: "char list \<Rightarrow> mq_world \<Rightarrow> mq_world \<Rightarrow> bool" for junk where
  notify_client: "qw_fault s = None \<Longrightarrow> send_step s = Some t \<Longrightarrow> notify_step junk s t"
| notify_server: "qw_fault s = None \<Longrightarrow> handler_step junk s = Some t \<Longrightarrow> notify_step junk s t"

text \<open>A client that sends only when the server has handled everything and has registered again.\<close>

inductive patient_step :: "char list \<Rightarrow> mq_world \<Rightarrow> mq_world \<Rightarrow> bool" for junk where
  patient_client: "qw_fault s = None \<Longrightarrow> qw_registered s \<Longrightarrow> qw_queue s = [] \<Longrightarrow> send_step s = Some t \<Longrightarrow>
    patient_step junk s t"
| patient_server: "qw_fault s = None \<Longrightarrow> handler_step junk s = Some t \<Longrightarrow> patient_step junk s t"

section \<open>What is received\<close>

lemma handler_prints:
  assumes "plain_line l" and "length junk = MAX_SIZE + 1"
  shows "cbind (mem_write junk 0 (msg_of l)) (\<lambda>buf. cbind (c_strlen buf) (\<lambda>k. Inr (take k buf))) =
    Inr (l @ [CHR 0x0A])"
proof -
  have len: "length (msg_of l) = MAX_SIZE" using assms(1) by (rule msg_length)
  have c: "is_cstring (l @ [CHR 0x0A])" using assms(1) by (simp add: plain_line_def is_cstring_def nul_def)
  have "length l + 2 \<le> MAX_SIZE" using plain_line_fits [OF assms(1)] by simp
  then obtain rest where "msg_of l = (l @ [CHR 0x0A]) @ nul # rest"
    by (cases "MAX_SIZE - length (l @ [CHR 0x0A])") (auto simp: padded_def)
  with c_strlen_append [OF c, of "rest @ drop MAX_SIZE junk"] len assms(2) show ?thesis
    by (simp add: mem_write_def)
qed

text \<open>
  The messages are those of the lines \<open>ls\<close>: the first of them are printed, the next are in the queue, the
  last are not sent.
\<close>

definition shares :: "string list \<Rightarrow> mq_world \<Rightarrow> bool" where
  "shares ls s \<longleftrightarrow> (\<exists>as bs cs. ls = as @ bs @ cs \<and> qw_out s = map (\<lambda>l. l @ [CHR 0x0A]) as \<and>
     qw_queue s = map msg_of bs \<and> qw_unsent s = map msg_of cs)"

text \<open>
  A notification is on its way, or being handled, only while there is a message, and only when the server
  is not registered.
\<close>

definition flags_ok :: "mq_world \<Rightarrow> bool" where
  "flags_ok s \<longleftrightarrow> qw_fault s = None \<and>
     (qw_pending s \<or> qw_pc s = NH_receive \<longrightarrow> qw_queue s \<noteq> []) \<and>
     (qw_registered s \<longrightarrow> \<not> qw_pending s \<and> qw_pc s = NH_idle) \<and>
     (qw_pending s \<longrightarrow> qw_pc s = NH_idle)"

definition notify_inv :: "string list \<Rightarrow> mq_world \<Rightarrow> bool" where
  "notify_inv ls s \<longleftrightarrow> shares ls s \<and> flags_ok s"

lemma notify_inv_init: "notify_inv ls (notify_init (map msg_of ls))"
  by (simp add: notify_inv_def shares_def flags_ok_def notify_init_def)

lemma shares_flags [simp]:
  "shares ls (s\<lparr>qw_pending := p\<rparr>) = shares ls s" "shares ls (s\<lparr>qw_registered := r\<rparr>) = shares ls s"
  "shares ls (s\<lparr>qw_pc := pc\<rparr>) = shares ls s"
  by (simp_all add: shares_def)

lemma shares_prefix: "shares ls s \<Longrightarrow> prefix (qw_out s) (map (\<lambda>l. l @ [CHR 0x0A]) ls)"
  by (auto simp: shares_def)

lemma shares_end: "shares ls s \<Longrightarrow> qw_queue s = [] \<Longrightarrow> qw_unsent s = [] \<Longrightarrow> qw_out s = map (\<lambda>l. l @ [CHR 0x0A]) ls"
  by (auto simp: shares_def)

lemma shares_unsent: "shares ls s \<Longrightarrow> length (qw_unsent s) \<le> length ls"
  by (auto simp: shares_def)

lemma send_cases:
  assumes "send_step s = Some t"
  obtains m ms where "qw_unsent s = m # ms" "t = s\<lparr>qw_unsent := ms, qw_queue := qw_queue s @ [m],
    qw_registered := qw_registered s \<and> (qw_queue s = [] \<longrightarrow> \<not> qw_registered s), qw_pending := qw_pending s \<or> qw_queue s = [] \<and> qw_registered s\<rparr>"
  using assms by (auto simp: send_step_def Let_def split: list.splits if_splits)

lemma shares_send:
  assumes "shares ls s" and "send_step s = Some t"
  shows "shares ls t"
proof -
  from assms(1) obtain as bs cs where w: "ls = as @ bs @ cs" "qw_out s = map (\<lambda>l. l @ [CHR 0x0A]) as"
    "qw_queue s = map msg_of bs" "qw_unsent s = map msg_of cs" unfolding shares_def by blast
  from assms(2) show ?thesis
  proof (rule send_cases)
    fix m ms assume m: "qw_unsent s = m # ms" and t: "t = s\<lparr>qw_unsent := ms, qw_queue := qw_queue s @ [m],
      qw_registered := qw_registered s \<and> (qw_queue s = [] \<longrightarrow> \<not> qw_registered s), qw_pending := qw_pending s \<or> qw_queue s = [] \<and> qw_registered s\<rparr>"
    then obtain c cs' where "cs = c # cs'" "m = msg_of c" "ms = map msg_of cs'" using w(4) by (cases cs) auto
    then show ?thesis unfolding shares_def
      using w t by (intro exI [of _ as] exI [of _ "bs @ [c]"] exI [of _ cs']) simp
  qed
qed

lemma flags_send: "flags_ok s \<Longrightarrow> send_step s = Some t \<Longrightarrow> flags_ok t"
  by (auto simp: flags_ok_def elim!: send_cases)

lemma receive_eq:
  assumes "notify_inv ls s" and "qw_pc s = NH_receive" and "\<forall>l\<in>set ls. plain_line l" and "length junk = MAX_SIZE + 1"
  obtains l where "handler_step junk s =
      Some (s\<lparr>qw_queue := tl (qw_queue s), qw_out := qw_out s @ [l @ [CHR 0x0A]], qw_pc := NH_notify\<rparr>)"
    "shares ls (s\<lparr>qw_queue := tl (qw_queue s), qw_out := qw_out s @ [l @ [CHR 0x0A]], qw_pc := NH_notify\<rparr>)"
proof -
  from assms(1) obtain as bs cs where w: "ls = as @ bs @ cs" "qw_out s = map (\<lambda>l. l @ [CHR 0x0A]) as"
    "qw_queue s = map msg_of bs" "qw_unsent s = map msg_of cs" unfolding notify_inv_def shares_def by blast
  from assms(1,2) w(3) obtain b bs' where b: "bs = b # bs'" by (cases bs) (auto simp: notify_inv_def flags_ok_def)
  have "plain_line b" using assms(3) w(1) b by simp
  then have "handler_step junk s =
      Some (s\<lparr>qw_queue := tl (qw_queue s), qw_out := qw_out s @ [b @ [CHR 0x0A]], qw_pc := NH_notify\<rparr>)"
    using assms(2) w(3) b handler_prints [OF _ assms(4)] by (simp add: handler_step_def)
  moreover have "shares ls (s\<lparr>qw_queue := tl (qw_queue s), qw_out := qw_out s @ [b @ [CHR 0x0A]], qw_pc := NH_notify\<rparr>)"
    unfolding shares_def using w b by (intro exI [of _ "as @ [b]"] exI [of _ bs'] exI [of _ cs]) simp
  ultimately show thesis by (rule that)
qed

text \<open>The steps of the handler outside \<open>mq_receive\<close> only move the flags.\<close>

lemma handler_other:
  assumes "handler_step junk s = Some t" and "qw_pc s \<noteq> NH_receive"
  shows "qw_pc s = NH_idle \<and> qw_pending s \<and> t = s\<lparr>qw_pending := False, qw_pc := NH_receive\<rparr> \<or>
    qw_pc s = NH_notify \<and> t = s\<lparr>qw_registered := True, qw_pc := NH_idle\<rparr>"
  using assms by (cases "qw_pc s") (auto simp: handler_step_def split: if_splits)

lemma notify_inv_step:
  assumes "notify_inv ls s" and "notify_step junk s t" and "\<forall>l\<in>set ls. plain_line l" and "length junk = MAX_SIZE + 1"
  shows "notify_inv ls t"
  using assms(2)
proof cases
  case notify_client
  then show ?thesis using assms(1) shares_send flags_send by (auto simp: notify_inv_def)
next
  case notify_server
  show ?thesis
  proof (cases "qw_pc s = NH_receive")
    case True
    from receive_eq [OF assms(1) True assms(3,4)] notify_server(2) obtain l where
      t: "t = s\<lparr>qw_queue := tl (qw_queue s), qw_out := qw_out s @ [l @ [CHR 0x0A]], qw_pc := NH_notify\<rparr>" and "shares ls t"
      by auto
    moreover have "flags_ok t" using assms(1) True by (simp add: t notify_inv_def flags_ok_def)
    ultimately show ?thesis by (simp add: notify_inv_def)
  next
    case False
    from handler_other [OF notify_server(2) this] assms(1) show ?thesis
      by (auto simp: notify_inv_def flags_ok_def)
  qed
qed

lemma notify_inv_reaches:
  assumes "reaches (notify_step junk) (\<lambda>_ _. False) (notify_init (map msg_of ls)) s"
    and "\<forall>l\<in>set ls. plain_line l" and "length junk = MAX_SIZE + 1"
  shows "notify_inv ls s"
  using assms(1)
proof induction
  case (reaches_prog t u)
  then show ?case using notify_inv_step [OF _ _ assms(2,3)] by blast
qed (simp_all add: notify_inv_init)

text \<open>A queue that is not empty, with nothing on its way, stays so: the handler never runs again.\<close>

definition stalled :: "string list \<Rightarrow> mq_world \<Rightarrow> bool" where
  "stalled out s \<longleftrightarrow> qw_pc s = NH_idle \<and> \<not> qw_pending s \<and> qw_queue s \<noteq> [] \<and> qw_out s = out"

lemma stalled_step: "stalled out s \<Longrightarrow> notify_step junk s t \<Longrightarrow> stalled out t"
  by (auto simp: stalled_def send_step_def handler_step_def Let_def
      elim!: notify_step.cases split: list.splits if_splits)

lemma stalled_reaches:
  assumes "reaches (notify_step junk) (\<lambda>_ _. False) s t" and "stalled out s"
  shows "stalled out t"
  using assms by (induction rule: reaches.induct) (auto intro: stalled_step)

lemma two_messages_stall:
  assumes "plain_line l" and "length junk = MAX_SIZE + 1"
  shows "\<exists>s. reaches (notify_step junk) (\<lambda>_ _. False) (notify_init (msg_of l # m # ms)) s \<and>
    stalled [l @ [CHR 0x0A]] s"
proof -
  let ?w = "\<lambda>us q r p pc out. \<lparr>qw_unsent = us, qw_queue = q, qw_registered = r, qw_pending = p,
     qw_pc = pc, qw_out = out, qw_fault = None\<rparr>"
  let ?R = "reaches (notify_step junk) (\<lambda>_ _. False) (notify_init (msg_of l # m # ms))"
  have 0: "?R (?w (msg_of l # m # ms) [] True False NH_idle [])" by (simp add: notify_init_def reaches_start)
  have 1: "?R (?w (m # ms) [msg_of l] False True NH_idle [])"
    by (rule reaches_prog [OF 0 notify_client]) (simp_all add: send_step_def max_msg_num_def)
  have 2: "?R (?w ms [msg_of l, m] False True NH_idle [])"
    by (rule reaches_prog [OF 1 notify_client]) (simp_all add: send_step_def max_msg_num_def)
  have 3: "?R (?w ms [msg_of l, m] False False NH_receive [])"
    by (rule reaches_prog [OF 2 notify_server]) (simp_all add: handler_step_def)
  have 4: "?R (?w ms [m] False False NH_notify [l @ [CHR 0x0A]])"
    by (rule reaches_prog [OF 3 notify_server]) (simp_all add: handler_step_def handler_prints [OF assms])
  have "?R (?w ms [m] True False NH_idle [l @ [CHR 0x0A]])"
    by (rule reaches_prog [OF 4 notify_server]) (simp_all add: handler_step_def)
  then show ?thesis by (auto simp: stalled_def)
qed

section \<open>The patient client\<close>

definition patient_rank :: "mq_world \<Rightarrow> nat" where
  "patient_rank s = 4 * length (qw_unsent s) + (if qw_pending s then 3 else 0) +
     (case qw_pc s of NH_idle \<Rightarrow> 0 | NH_receive \<Rightarrow> 2 | NH_notify \<Rightarrow> 1)"

definition patient_inv :: "string list \<Rightarrow> mq_world \<Rightarrow> bool" where
  "patient_inv ls s \<longleftrightarrow> notify_inv ls s \<and>
     (if qw_pending s \<or> qw_pc s = NH_receive then length (qw_queue s) = 1 else qw_queue s = []) \<and>
     (qw_pc s = NH_idle \<and> \<not> qw_pending s \<longrightarrow> qw_registered s)"

definition patient_ended :: "string list \<Rightarrow> mq_world \<Rightarrow> bool" where
  "patient_ended ls s \<longleftrightarrow> qw_unsent s = [] \<and> qw_pc s = NH_idle \<and> \<not> qw_pending s"

lemma patient_rank_bound: "notify_inv ls s \<Longrightarrow> patient_rank s \<le> 4 * length ls + 3"
  using shares_unsent [of ls s] by (cases "qw_pc s") (auto simp: patient_rank_def notify_inv_def flags_ok_def)

lemma handler_step_defined: "qw_pc s \<noteq> NH_idle \<or> qw_pending s \<Longrightarrow> \<exists>t. handler_step junk s = Some t"
  by (auto simp: handler_step_def Let_def split: nh_pc.splits sum.splits)

lemma patient_server_step:
  assumes "patient_inv ls s" and "handler_step junk s = Some t" and "notify_inv ls t"
    and "\<forall>l\<in>set ls. plain_line l" and "length junk = MAX_SIZE + 1"
  shows "patient_inv ls t \<and> patient_rank t < patient_rank s"
proof (cases "qw_pc s = NH_receive")
  case True
  have n: "notify_inv ls s" using assms(1) by (simp add: patient_inv_def)
  then have p: "\<not> qw_pending s" using True by (auto simp: notify_inv_def flags_ok_def)
  from receive_eq [OF n True assms(4,5)] assms(2) obtain l where
    "t = s\<lparr>qw_queue := tl (qw_queue s), qw_out := qw_out s @ [l @ [CHR 0x0A]], qw_pc := NH_notify\<rparr>" by auto
  then show ?thesis using assms(1,3) True p by (auto simp: patient_inv_def patient_rank_def length_Suc_conv)
next
  case False
  have "\<not> qw_pending s" if "qw_pc s = NH_notify"
    using assms(1) that by (auto simp: patient_inv_def notify_inv_def flags_ok_def)
  with handler_other [OF assms(2) False] assms(1,3) show ?thesis
    by (auto simp: patient_inv_def patient_rank_def)
qed

lemma patient_client_step:
  assumes "patient_inv ls s" and "qw_registered s" and "qw_queue s = []" and "send_step s = Some t" and "notify_inv ls t"
  shows "patient_inv ls t \<and> patient_rank t < patient_rank s"
proof -
  have "\<not> qw_pending s" "qw_pc s = NH_idle" using assms(1,2) by (auto simp: patient_inv_def notify_inv_def flags_ok_def)
  with assms show ?thesis by (auto simp: patient_inv_def patient_rank_def elim!: send_cases)
qed

lemma patient_thread_program:
  assumes "\<forall>l\<in>set ls. plain_line l" and "length junk = MAX_SIZE + 1"
  shows "thread_program (notify_init (map msg_of ls)) (patient_step junk) (\<lambda>_ _. False)
    (patient_inv ls) patient_rank (patient_ended ls)"
proof
  show "patient_inv ls (notify_init (map msg_of ls))"
    by (simp add: patient_inv_def notify_inv_init) (simp add: notify_init_def)
next
  fix s t assume s: "patient_inv ls s" and st: "patient_step junk s t"
  have "notify_step junk s t" using st by (auto elim!: patient_step.cases intro: notify_client notify_server)
  then have "notify_inv ls t" using s notify_inv_step [OF _ _ assms] unfolding patient_inv_def by blast
  with st s have "patient_inv ls t \<and> patient_rank t < patient_rank s"
    using patient_client_step patient_server_step [OF _ _ _ assms] by (elim patient_step.cases) blast+
  then show "patient_inv ls t" "patient_rank t < patient_rank s" by blast+
next
  fix s assume s: "patient_inv ls s" "\<not> patient_ended ls s"
  then have f: "qw_fault s = None" by (simp add: patient_inv_def notify_inv_def flags_ok_def)
  show "\<exists>t. patient_step junk s t"
  proof (cases "qw_pc s \<noteq> NH_idle \<or> qw_pending s")
    case True
    then show ?thesis using handler_step_defined f by (blast intro: patient_server)
  next
    case False
    with s obtain m ms where "qw_unsent s = m # ms" "qw_registered s" "qw_queue s = []"
      by (cases "qw_unsent s") (auto simp: patient_inv_def patient_ended_def)
    then have "\<exists>t. send_step s = Some t" by (simp add: send_step_def max_msg_num_def)
    with f \<open>qw_registered s\<close> \<open>qw_queue s = []\<close> show ?thesis by (blast intro: patient_client)
  qed
qed simp

section \<open>Properties\<close>

text \<open>
  C25. The client and the handler of the asynchronous server under every schedule. The client sends the
  message of every line twice, both times to the first queue. What the handler prints is always a
  beginning of what was sent, each message in full, in order, and nothing twice; no access faults. But
  there is a schedule, whatever is typed, in which the handler prints the first message and then
  nothing ever again: it is the one in which the second message arrives before the handler has
  received the first.
\<close>

theorem mq_notification_lost:
  assumes "\<forall>l\<in>set ls. talk_line l" and "stop_line e" and "\<forall>n. 0 \<le> ret n"
    and "- 1 \<notin> set [fd, fd2, closed, closed2]" and "length junk = MAX_SIZE" and "length junk' = MAX_SIZE + 1"
  shows "\<exists>sent. async_client_main fd fd2 closed closed2 ret junk (unlines (ls @ [e]) @ rest) = Some (Inr sent) \<and>
    (\<forall>(q, m)\<in>set sent. q = ASYNC_QUEUE_NAME) \<and>
    (\<forall>s. reaches (notify_step junk') (\<lambda>_ _. False) (notify_init (map snd sent)) s \<longrightarrow>
       qw_fault s = None \<and> prefix (qw_out s) (concat (map (\<lambda>l. replicate 2 (l @ [CHR 0x0A])) (ls @ [e])))) \<and>
    (\<exists>s. reaches (notify_step junk') (\<lambda>_ _. False) (notify_init (map snd sent)) s \<and>
       qw_out s = [hd (ls @ [e]) @ [CHR 0x0A]] \<and>
       (\<forall>t. reaches (notify_step junk') (\<lambda>_ _. False) s t \<longrightarrow> qw_out t = qw_out s))"
proof -
  let ?two = "concat (map (\<lambda>l. replicate 2 l) (ls @ [e]))"
  let ?sent = "concat (map (\<lambda>l. map (\<lambda>q. (q, msg_of l)) [ASYNC_QUEUE_NAME, ASYNC_QUEUE_NAME]) (ls @ [e]))"
  have plain: "\<forall>l\<in>set (ls @ [e]). plain_line l" using assms(1,2) by (auto simp: talk_line_def stop_line_def)
  then have plain2: "\<forall>l\<in>set ?two. plain_line l" by auto
  have client: "async_client_main fd fd2 closed closed2 ret junk (unlines (ls @ [e]) @ rest) = Some (Inr ?sent)"
    using client_loop_talk [OF assms(1,2,5), of ret "[ASYNC_QUEUE_NAME, ASYNC_QUEUE_NAME]" rest "[]"] assms(3,4)
    by (simp add: async_client_main_def)
  have msgs: "map snd ?sent = map msg_of ?two"
    by (simp add: map_concat comp_def numeral_2_eq_2)
  have out: "map (\<lambda>l. l @ [CHR 0x0A]) ?two = concat (map (\<lambda>l. replicate 2 (l @ [CHR 0x0A])) (ls @ [e]))"
    by (simp add: map_concat comp_def numeral_2_eq_2)
  have safe: "qw_fault s = None \<and> prefix (qw_out s) (concat (map (\<lambda>l. replicate 2 (l @ [CHR 0x0A])) (ls @ [e])))"
    if "reaches (notify_step junk') (\<lambda>_ _. False) (notify_init (map msg_of ?two)) s" for s
    using notify_inv_reaches [OF that plain2 assms(6)] shares_prefix [of ?two s]
    unfolding notify_inv_def flags_ok_def out by blast
  obtain l r where lr: "ls @ [e] = l # r" by (cases ls) auto
  then have hd: "map msg_of ?two = msg_of l # msg_of l # map msg_of (concat (map (\<lambda>l. [l, l]) r))"
    by (simp add: numeral_2_eq_2)
  have "plain_line l" using plain lr by simp
  from two_messages_stall [OF this assms(6), folded hd] obtain s where
    s: "reaches (notify_step junk') (\<lambda>_ _. False) (notify_init (map msg_of ?two)) s" "stalled [l @ [CHR 0x0A]] s"
    unfolding hd by blast
  have "qw_out t = [l @ [CHR 0x0A]]" if "stalled [l @ [CHR 0x0A]] t" for t using that by (simp add: stalled_def)
  then have "\<exists>s. reaches (notify_step junk') (\<lambda>_ _. False) (notify_init (map msg_of ?two)) s \<and>
       qw_out s = [hd (ls @ [e]) @ [CHR 0x0A]] \<and>
       (\<forall>t. reaches (notify_step junk') (\<lambda>_ _. False) s t \<longrightarrow> qw_out t = qw_out s)"
    using s stalled_reaches [OF _ s(2)] lr by (intro exI [of _ s]) simp
  moreover have "\<forall>(q, m)\<in>set ?sent. q = ASYNC_QUEUE_NAME" by auto
  ultimately show ?thesis
    by (intro exI [of _ ?sent] conjI) (use client safe in \<open>simp_all only: msgs, blast\<close>)
qed

theorem mq_notification_lost_witness:
  "\<exists>sent. async_client_main 3 4 0 0 (\<lambda>_. 0) (replicate 1024 nul) (unlines ([''hi''] @ [''exit'']) @ []) = Some (Inr sent) \<and>
    (\<exists>s. reaches (notify_step (replicate 1025 nul)) (\<lambda>_ _. False) (notify_init (map snd sent)) s \<and>
       qw_out s = [''hi'' @ [CHR 0x0A]])"
proof -
  have "talk_line ''hi''" "stop_line ''exit''"
    by (simp_all add: talk_line_def stop_line_def plain_line_def is_cstring_def nul_def is_stop_take)
  then have "\<forall>l\<in>set [''hi'']. talk_line l" "stop_line ''exit''" by simp_all
  note w = mq_notification_lost [OF this, of "\<lambda>_. 0" 3 4 0 0 "replicate 1024 nul" "replicate 1025 nul" "[]"]
  have h: "hd ([''hi''] @ [''exit'']) = ''hi''" "length (replicate 1024 nul) = MAX_SIZE"
    "length (replicate 1025 nul) = MAX_SIZE + 1" "\<forall>n :: nat. 0 \<le> (0 :: int)" "- 1 \<notin> set [3, 4, 0, 0 :: int]"
    by (simp_all only: length_replicate MAX_SIZE_def append.simps list.sel list.set) auto
  from w [OF h(4,5,2,3)] show ?thesis unfolding h(1) by (elim exE conjE) blast
qed

text \<open>
  When the client waits for the server before it sends the next message, all is well: under every
  schedule that has this property the run ends, after at most four steps per message, and then
  every message has been printed, in order.
\<close>

theorem mq_patient_delivers:
  assumes "\<forall>l\<in>set ls. plain_line l" and "length junk = MAX_SIZE + 1"
    and "reaches (patient_step junk) (\<lambda>_ _. False) (notify_init (map msg_of ls)) s" and "steps (patient_step junk) n s t"
  shows "n \<le> 4 * length ls + 3 \<and>
    (stuck (patient_step junk) t \<longrightarrow> qw_unsent t = [] \<and> qw_out t = map (\<lambda>l. l @ [CHR 0x0A]) ls) \<and>
    (\<exists>k u. steps (patient_step junk) k t u \<and> stuck (patient_step junk) u)"
proof -
  note tp = patient_thread_program [OF assms(1,2)]
  have inv: "patient_inv ls s" by (rule thread_program.reaches_inv [OF tp assms(3)])
  have t: "patient_inv ls t" using thread_program.steps_inv_rank [OF tp assms(4) inv] by blast
  have "n \<le> patient_rank s" by (rule thread_program.steps_bounded [OF tp assms(3,4)])
  also have "patient_rank s \<le> 4 * length ls + 3" using inv patient_rank_bound by (simp add: patient_inv_def)
  finally have "n \<le> 4 * length ls + 3" .
  moreover have "qw_unsent t = [] \<and> qw_out t = map (\<lambda>l. l @ [CHR 0x0A]) ls" if "stuck (patient_step junk) t"
  proof -
    have "patient_ended ls t" using thread_program.stuck_ended [OF tp assms(3,4) that] by blast
    then have "qw_unsent t = []" "qw_queue t = []" using t by (auto simp: patient_ended_def patient_inv_def)
    with t show ?thesis using shares_end by (simp add: patient_inv_def notify_inv_def)
  qed
  moreover have "\<exists>k u. steps (patient_step junk) k t u \<and> stuck (patient_step junk) u"
    using thread_program.runs_to_end [OF tp t] by blast
  ultimately show ?thesis by blast
qed

theorem mq_patient_delivers_witness:
  "\<exists>k u. steps (patient_step (replicate 1025 nul)) k (notify_init (map msg_of [''hi'', ''hi''])) u \<and>
    qw_out u = [''hi'' @ [CHR 0x0A], ''hi'' @ [CHR 0x0A]]"
proof -
  let ?i = "notify_init (map msg_of [''hi'', ''hi''])" and ?j = "replicate 1025 nul"
  have p: "\<forall>l\<in>set [''hi'', ''hi'']. plain_line l" "length ?j = MAX_SIZE + 1"
    by (simp_all add: plain_line_def is_cstring_def nul_def MAX_SIZE_def)
  from mq_patient_delivers [OF p reaches_start steps_none] obtain k u
    where u: "steps (patient_step ?j) k ?i u" "stuck (patient_step ?j) u" by blast
  from mq_patient_delivers [OF p reaches_start u(1)] u show ?thesis by auto
qed

end
