(* ===== verification/Signal_IO.thy ===== *)
theory Signal_IO
  imports C_Prelude
begin

text \<open>
  Signals, descriptors that announce input by a signal, and terminal settings, as the programs
  \<open>sigaction\<close>, \<open>tty_serial\<close>, \<open>async_TCP\<close>, \<open>async_TCP_multithread\<close> and \<open>async_UDP\<close> use them. The system
  calls act on a record of what the kernel keeps for the process; whether a call succeeds is a
  parameter, what it does when it succeeds is modelled. The constants are those of Linux on x86.
\<close>

unbundle bit_operations_syntax

section \<open>Signal actions\<close>

definition SIGIO :: int where "SIGIO = 29"
definition SIGTSTP :: int where "SIGTSTP = 20"
definition SA_SIGINFO :: "32 word" where "SA_SIGINFO = 4"
definition SA_NODEFER :: "32 word" where "SA_NODEFER = 0x40000000"

text \<open>\<open>struct sigaction\<close>; a handler is named by its function.\<close>

record sigaction =
  sa_handler :: string
  sa_mask :: "int set"
  sa_flags :: "32 word"

definition sigfillset :: "int set" where
  "sigfillset = {1..64}"

definition sigdelset :: "int \<Rightarrow> int set \<Rightarrow> int set" where
  "sigdelset sig m = m - {sig}"

text \<open>
  The action the programs build: \<open>SA_SIGINFO\<close>, their handler, and every signal but one in the mask.
\<close>

definition siginfo_action :: "string \<Rightarrow> int \<Rightarrow> sigaction" where
  "siginfo_action h sig = \<lparr>sa_handler = h, sa_mask = sigdelset sig sigfillset, sa_flags = SA_SIGINFO\<rparr>"

text \<open>
  What is blocked while a handler runs: its mask, and also the signal it handles unless
  \<open>SA_NODEFER\<close> is set. \<open>SIGKILL\<close> (9) and \<open>SIGSTOP\<close> (19) cannot be blocked.
\<close>

definition blocked_in_handler :: "int \<Rightarrow> sigaction \<Rightarrow> int set" where
  "blocked_in_handler sig a =
     (sa_mask a \<union> (if sa_flags a AND SA_NODEFER = 0 then {sig} else {})) - {9, 19}"

section \<open>The process\<close>

definition O_RDWR :: "32 word" where "O_RDWR = 0x2"
definition O_NOCTTY :: "32 word" where "O_NOCTTY = 0x100"
definition O_NONBLOCK :: "32 word" where "O_NONBLOCK = 0x800"
definition O_ASYNC :: "32 word" where "O_ASYNC = 0x2000"

text \<open>
  The handlers installed, and for every descriptor whether it is open, its status flags, the signal it
  sends, the process that gets it and the port it is bound to.
\<close>

record process =
  p_pid :: int
  p_actions :: "int \<rightharpoonup> sigaction"
  p_open :: "int list"
  p_flags :: "int \<Rightarrow> 32 word"
  p_signal :: "int \<Rightarrow> int"
  p_owner :: "int \<Rightarrow> int"
  p_port :: "int \<rightharpoonup> 16 word"

definition p_start :: "int \<Rightarrow> process" where
  "p_start pid = \<lparr>p_pid = pid, p_actions = Map.empty, p_open = [], p_flags = (\<lambda>_. 0), p_signal = (\<lambda>_. 0),
     p_owner = (\<lambda>_. 0), p_port = Map.empty\<rparr>"

definition sys_open :: "int \<Rightarrow> 32 word \<Rightarrow> process \<Rightarrow> process" where
  "sys_open fd fl p = p\<lparr>p_open := fd # p_open p, p_flags := (p_flags p)(fd := fl)\<rparr>"

definition sys_close :: "int \<Rightarrow> process \<Rightarrow> process" where
  "sys_close fd p = p\<lparr>p_open := removeAll fd (p_open p)\<rparr>"

definition sys_bind :: "int \<Rightarrow> int \<Rightarrow> 16 word \<Rightarrow> process \<Rightarrow> process" where
  "sys_bind ret fd port p = (if ret = 0 then p\<lparr>p_port := (p_port p)(fd \<mapsto> port)\<rparr> else p)"

definition sys_sigaction :: "int \<Rightarrow> int \<Rightarrow> sigaction \<Rightarrow> process \<Rightarrow> process" where
  "sys_sigaction ret sig act p = (if ret = 0 then p\<lparr>p_actions := (p_actions p)(sig \<mapsto> act)\<rparr> else p)"

text \<open>Which of the four \<open>fcntl\<close> calls fail (with -1).\<close>

record fcntl_results =
  fr_getfl_fails :: bool
  fr_setfl_fails :: bool
  fr_setsig_fails :: bool
  fr_setown_fails :: bool

text \<open>
  \<open>file_status = fcntl(fd, F_GETFL); file_status |= O_ASYNC | O_NONBLOCK; fcntl(fd, F_SETFL,
  file_status); fcntl(fd, F_SETSIG, SIGIO); fcntl(fd, F_SETOWN, getpid());\<close> The results are not
  checked.
\<close>

definition make_async :: "fcntl_results \<Rightarrow> int \<Rightarrow> process \<Rightarrow> process" where
  "make_async fr fd p =
     (let file_status = (if fr_getfl_fails fr then - 1 else p_flags p fd);
          file_status' = file_status OR (O_ASYNC OR O_NONBLOCK);
          p1 = (if fr_setfl_fails fr then p else p\<lparr>p_flags := (p_flags p)(fd := file_status')\<rparr>);
          p2 = (if fr_setsig_fails fr then p1 else p1\<lparr>p_signal := (p_signal p1)(fd := SIGIO)\<rparr>) in
      if fr_setown_fails fr then p2 else p2\<lparr>p_owner := (p_owner p2)(fd := p_pid p2)\<rparr>)"

abbreviation no_failures :: fcntl_results where
  "no_failures \<equiv> \<lparr>fr_getfl_fails = False, fr_setfl_fails = False, fr_setsig_fails = False, fr_setown_fails = False\<rparr>"

text \<open>A descriptor that announces input to this process by \<open>SIGIO\<close>.\<close>

definition announces :: "int \<Rightarrow> process \<Rightarrow> bool" where
  "announces fd p \<longleftrightarrow> fd \<in> set (p_open p) \<and> p_flags p fd AND O_ASYNC = O_ASYNC \<and>
     p_flags p fd AND O_NONBLOCK = O_NONBLOCK \<and> p_signal p fd = SIGIO \<and> p_owner p fd = p_pid p"

section \<open>The programs\<close>

text \<open>
  The programs end with a status or, when they wait for signals forever, with \<open>None\<close>. \<open>sigaction\<close>: \<open>act\<close> is
  what \<open>sigaction\<close> returns.
\<close>

definition sigaction_main :: "int \<Rightarrow> process \<Rightarrow> int option \<times> process" where
  "sigaction_main act p =
     (let p1 = sys_sigaction act SIGTSTP (siginfo_action ''action_handler'' SIGTSTP) p in
      if act < 0 then (Some 1, p1) else (None, p1))"

text \<open>
  \<open>main\<close> of \<open>async_TCP\<close> and \<open>async_TCP_multithread\<close>, which only differ in the port; \<open>sock\<close>, \<open>bound\<close>, \<open>act\<close>
  and \<open>lis\<close> are what \<open>socket\<close>, \<open>bind\<close>, \<open>sigaction\<close> and \<open>listen\<close> return.
\<close>

definition async_server ::
    "16 word \<Rightarrow> fcntl_results \<Rightarrow> int \<Rightarrow> int \<Rightarrow> int \<Rightarrow> int \<Rightarrow> process \<Rightarrow> int option \<times> process" where
  "async_server port fr sock bound act lis p =
     (if sock < 0 then (Some 1, p)
      else let p1 = sys_bind bound sock port (sys_open sock O_RDWR p) in
      if bound < 0 then (Some 1, sys_close sock p1)
      else let p2 = sys_sigaction act SIGIO (siginfo_action ''action_handler'' SIGIO) p1 in
      if act < 0 then (Some 1, sys_close sock p2)
      else let p3 = make_async fr sock p2 in
      if lis < 0 then (Some 1, sys_close sock p3)
      else (None, p3))"

definition async_tcp_main ::
    "fcntl_results \<Rightarrow> int \<Rightarrow> int \<Rightarrow> int \<Rightarrow> int \<Rightarrow> process \<Rightarrow> int option \<times> process" where
  "async_tcp_main = async_server 3333"

definition async_tcp_multithread_main ::
    "fcntl_results \<Rightarrow> int \<Rightarrow> int \<Rightarrow> int \<Rightarrow> int \<Rightarrow> process \<Rightarrow> int option \<times> process" where
  "async_tcp_multithread_main = async_server 3336"

text \<open>
  \<open>async_UDP\<close>: failing calls are reported and otherwise ignored; \<open>act\<close> is what \<open>sigaction\<close> returns.
\<close>

definition registerSignalHandler :: "fcntl_results \<Rightarrow> int \<Rightarrow> int \<Rightarrow> process \<Rightarrow> process" where
  "registerSignalHandler fr act fd p =
     sys_sigaction act SIGIO (siginfo_action ''signalHandler'' SIGIO) (make_async fr fd p)"

record async_IO_callback =
  cb_file_desc :: int
  cb_callback :: "string option"
  cb_args :: addr

definition cb_zero :: async_IO_callback where
  "cb_zero = \<lparr>cb_file_desc = 0, cb_callback = None, cb_args = NULL\<rparr>"

text \<open>The call the signal handler makes, if any: the function, the socket and the arguments.\<close>

definition signalHandler :: "int \<Rightarrow> int \<Rightarrow> async_IO_callback \<Rightarrow> (string \<times> int \<times> addr) option" where
  "signalHandler signal si_fd cb =
     (if signal = SIGIO \<and> si_fd = cb_file_desc cb
      then (case cb_callback cb of None \<Rightarrow> None | Some f \<Rightarrow> Some (f, si_fd, cb_args cb))
      else None)"

definition registerIOCallback :: "fcntl_results \<Rightarrow> int \<Rightarrow> int \<Rightarrow> string option \<Rightarrow> addr \<Rightarrow>
    async_IO_callback \<times> process \<Rightarrow> async_IO_callback \<times> process" where
  "registerIOCallback fr act socket_fd callback args = (\<lambda>(cb, p).
     (cb\<lparr>cb_file_desc := socket_fd, cb_callback := callback, cb_args := args\<rparr>,
      registerSignalHandler fr act socket_fd p))"

definition socketOpenUDP :: "fcntl_results \<Rightarrow> int \<Rightarrow> int \<Rightarrow> int \<Rightarrow> string option \<Rightarrow> addr \<Rightarrow> 16 word \<Rightarrow>
    async_IO_callback \<times> process \<Rightarrow> int \<times> async_IO_callback \<times> process" where
  "socketOpenUDP fr sock act bound callback args port = (\<lambda>(cb, p).
     if sock < 0 then (1, cb, p)
     else let (cb', p1) = registerIOCallback fr act sock callback args (cb, sys_open sock O_RDWR p);
              p2 = sys_bind bound sock port p1 in
          if bound \<noteq> 0 then (- 1, cb', p2) else (sock, cb', p2))"

text \<open>\<open>main\<close> waits forever whatever the result, which it only tests to print a line.\<close>

definition async_udp_main :: "fcntl_results \<Rightarrow> int \<Rightarrow> int \<Rightarrow> int \<Rightarrow> process \<Rightarrow>
    bool \<times> async_IO_callback \<times> process" where
  "async_udp_main fr sock act bound p =
     (let (socket_fd, cb, p') = socketOpenUDP fr sock act bound (Some ''socketCallback'') NULL 3333 (cb_zero, p) in
      (socket_fd < 0, cb, p'))"

text \<open>
  The terminal settings of \<open>tty_serial\<close>. \<open>cfmakeraw\<close> clears the flags that interpret input and output
  and selects characters of eight bits without parity; \<open>cfsetspeed\<close> sets both speeds.
\<close>

record termios =
  c_iflag :: "32 word"
  c_oflag :: "32 word"
  c_cflag :: "32 word"
  c_lflag :: "32 word"
  c_ispeed :: "32 word"
  c_ospeed :: "32 word"

definition cfmakeraw :: "termios \<Rightarrow> termios" where
  "cfmakeraw t = t\<lparr>c_iflag := c_iflag t AND NOT 0x5EB, c_oflag := c_oflag t AND NOT 0x1,
     c_lflag := c_lflag t AND NOT 0x804B, c_cflag := (c_cflag t AND NOT 0x130) OR 0x30\<rparr>"

definition cfsetspeed :: "32 word \<Rightarrow> termios \<Rightarrow> termios" where
  "cfsetspeed v t = t\<lparr>c_ispeed := v, c_ospeed := v\<rparr>"

definition PORT_SPEED :: "32 word" where
  "PORT_SPEED = 0xF"

text \<open>
  \<open>fd\<close>, \<open>got\<close>, \<open>put\<close> and \<open>act\<close> are what \<open>open\<close>, \<open>tcgetattr\<close>, \<open>tcsetattr\<close> and \<open>sigaction\<close> return; \<open>t\<close> the
  settings the terminal has. The result has the settings the program leaves.
\<close>

definition tty_main :: "fcntl_results \<Rightarrow> int \<Rightarrow> int \<Rightarrow> int \<Rightarrow> int \<Rightarrow> termios \<Rightarrow> process \<Rightarrow>
    int option \<times> termios \<times> process" where
  "tty_main fr fd got put act t p =
     (if fd < 0 then (Some (- 1), t, p)
      else let p1 = sys_open fd (O_RDWR OR O_NOCTTY OR O_NONBLOCK) p in
      if got < 0 then (Some (- 1), t, sys_close fd p1)
      else let t1 = cfsetspeed PORT_SPEED (cfmakeraw t) in
      if put < 0 then (Some (- 1), t, sys_close fd p1)
      else let p2 = sys_sigaction act SIGIO (siginfo_action ''serial_handler'' SIGIO) p1 in
      if act < 0 then (Some (- 1), t1, sys_close fd p2)
      else (None, t1, make_async fr fd p2))"

text \<open>The handler prints the byte when \<open>read\<close> got one.\<close>

definition serial_handler :: "int \<Rightarrow> char \<Rightarrow> string option" where
  "serial_handler read_len recv =
     (if read_len = 1 then Some (''Byte received: '' @ [recv, CHR 0x0A]) else None)"

section \<open>Lemmas\<close>

lemma or_and_absorb: "(v OR w) AND (w :: 'a::len word) = w"
  by (simp add: bit_eq_iff bit_simps)

lemma async_flags:
  "(v OR (O_ASYNC OR O_NONBLOCK)) AND O_ASYNC = O_ASYNC"
  "(v OR (O_ASYNC OR O_NONBLOCK)) AND O_NONBLOCK = O_NONBLOCK"
  by (metis or.assoc or.commute or_and_absorb)+

text \<open>All \<open>fcntl\<close> calls succeed.\<close>

definition fcntl_ok :: "fcntl_results \<Rightarrow> bool" where
  "fcntl_ok fr \<longleftrightarrow> \<not> fr_getfl_fails fr \<and> \<not> fr_setfl_fails fr \<and> \<not> fr_setsig_fails fr \<and> \<not> fr_setown_fails fr"

lemma make_async_announces: "fcntl_ok fr \<Longrightarrow> fd \<in> set (p_open p) \<Longrightarrow> announces fd (make_async fr fd p)"
  by (simp add: fcntl_ok_def make_async_def announces_def Let_def async_flags)

lemma make_async_keeps:
  "p_actions (make_async fr fd p) = p_actions p" "p_open (make_async fr fd p) = p_open p"
  "p_pid (make_async fr fd p) = p_pid p" "f \<noteq> fd \<Longrightarrow> p_flags (make_async fr fd p) f = p_flags p f"
  by (simp_all add: make_async_def Let_def)

lemma blocked_siginfo:
  "blocked_in_handler sig (siginfo_action h sig') = (insert sig (sigfillset - {sig'})) - {9, 19}"
  by (auto simp: blocked_in_handler_def siginfo_action_def SA_SIGINFO_def SA_NODEFER_def sigdelset_def)

lemma close_opened: "fd \<notin> set (p_open p) \<Longrightarrow> removeAll fd (fd # p_open p) = p_open p"
  by simp

lemmas sys_defs = sys_open_def sys_close_def sys_bind_def sys_sigaction_def

lemma announces_frame:
  "announces fd (p\<lparr>p_actions := A\<rparr>) = announces fd p" "announces fd (p\<lparr>p_port := P\<rparr>) = announces fd p"
  by (simp_all add: announces_def)

lemma async_server_ok:
  assumes "fcntl_ok fr" and "0 \<le> sock"
  shows "\<exists>p'. async_server port fr sock 0 0 0 p = (None, p') \<and> announces sock p' \<and>
    p_port p' sock = Some port \<and> p_actions p' SIGIO = Some (siginfo_action ''action_handler'' SIGIO)"
  using assms make_async_announces [OF assms(1)]
  by (auto simp: async_server_def Let_def sys_defs make_async_keeps) (simp add: make_async_def Let_def)

lemma async_server_failed:
  assumes "sock < 0 \<or> bound < 0 \<or> act < 0 \<or> lis < 0" and "sock \<notin> set (p_open p)"
  shows "\<exists>p'. async_server port fr sock bound act lis p = (Some 1, p') \<and> p_open p' = p_open p"
  using assms by (auto simp: async_server_def Let_def sys_defs make_async_keeps)

section \<open>Properties\<close>

text \<open>
  The start of the asynchronous TCP servers (\<open>async_TCP\<close> on port 3333, \<open>async_TCP_multithread\<close> on
  port 3336). When the system calls succeed, the server waits forever with its socket bound to the port,
  in asynchronous and non-blocking mode, announcing input to this very process by \<open>SIGIO\<close>, and with
  \<open>action_handler\<close> installed for that signal. When any of the checked calls fails, the program returns
  1 and leaves no descriptor open.
\<close>

theorem async_tcp_starts:
  assumes "fcntl_ok fr" and "0 \<le> sock" and "(port, start) \<in> {(3333, async_tcp_main), (3336, async_tcp_multithread_main)}"
    and "sock' < 0 \<or> bound < 0 \<or> act < 0 \<or> lis < 0" and "sock' \<notin> set (p_open p)"
  shows "(\<exists>p'. start fr sock 0 0 0 p = (None, p') \<and> announces sock p' \<and> p_port p' sock = Some port \<and>
      p_actions p' SIGIO = Some (siginfo_action ''action_handler'' SIGIO)) \<and>
    (\<exists>p'. start fr' sock' bound act lis p = (Some 1, p') \<and> p_open p' = p_open p)"
proof -
  have "start = async_server port"
    using assms(3) by (auto simp: async_tcp_main_def async_tcp_multithread_main_def)
  then show ?thesis using async_server_ok [OF assms(1,2)] async_server_failed [OF assms(4,5)] by simp
qed

theorem async_tcp_starts_witness:
  "\<exists>p'. async_tcp_main no_failures 3 0 0 0 (p_start 77) = (None, p') \<and> announces 3 p' \<and> p_port p' 3 = Some 3333"
  using async_tcp_starts [of no_failures 3 3333 async_tcp_main 4 "- 1" 0 0 "p_start 77"]
  by (auto simp: fcntl_ok_def p_start_def)

text \<open>
  The serial terminal. When all calls succeed, \<open>tty_serial\<close> waits forever with the port announcing
  input by \<open>SIGIO\<close> and its handler installed, and the terminal is raw: no echo, no line editing, no
  signals from the keyboard, no output processing, no translation of newlines and carriage returns,
  eight bits without parity, 38400 baud. When a checked call fails, the program returns -1 and the
  port is closed; the terminal keeps its settings unless only \<open>sigaction\<close> failed.
\<close>

theorem tty_main_sets_up:
  assumes "fcntl_ok fr" and "0 \<le> fd" and "fd \<notin> set (p_open p)"
    and "got < 0 \<or> put < 0 \<or> act < 0"
  shows "(\<exists>t' p'. tty_main fr fd 0 0 0 t p = (None, t', p') \<and> announces fd p' \<and>
      p_actions p' SIGIO = Some (siginfo_action ''serial_handler'' SIGIO) \<and>
      c_lflag t' AND 0x804B = 0 \<and> c_oflag t' AND 0x1 = 0 \<and> c_iflag t' AND 0x1C0 = 0 \<and>
      c_cflag t' AND 0x130 = 0x30 \<and> c_ispeed t' = 0xF \<and> c_ospeed t' = 0xF) \<and>
    (\<exists>t' p'. tty_main fr' fd got put act t p = (Some (- 1), t', p') \<and> p_open p' = p_open p \<and>
      (got < 0 \<or> put < 0 \<longrightarrow> t' = t))"
proof -
  let ?t = "cfsetspeed PORT_SPEED (cfmakeraw t)"
  have "c_lflag ?t AND 0x804B = 0" "c_oflag ?t AND 0x1 = 0" "c_iflag ?t AND 0x1C0 = 0"
    by (simp_all add: cfsetspeed_def cfmakeraw_def and.assoc)
  moreover have "c_cflag ?t AND 0x130 = 0x30"
  proof -
    have "((c_cflag t AND NOT 0x130) OR 0x30) AND 0x130 = ((c_cflag t AND NOT 0x130) AND 0x130) OR (0x30 AND 0x130)"
      by (simp only: bit.conj_disj_distrib2)
    then show ?thesis by (simp add: cfsetspeed_def cfmakeraw_def and.assoc)
  qed
  moreover have "c_ispeed ?t = 0xF" "c_ospeed ?t = 0xF" by (simp_all add: cfsetspeed_def PORT_SPEED_def)
  moreover have "\<exists>p'. tty_main fr fd 0 0 0 t p = (None, ?t, p') \<and> announces fd p' \<and>
      p_actions p' SIGIO = Some (siginfo_action ''serial_handler'' SIGIO)"
    using assms(2) make_async_announces [OF assms(1)]
    by (simp add: tty_main_def Let_def sys_defs make_async_keeps)
  moreover have "\<exists>t' p'. tty_main fr' fd got put act t p = (Some (- 1), t', p') \<and> p_open p' = p_open p \<and>
      (got < 0 \<or> put < 0 \<longrightarrow> t' = t)"
    using assms(2-4) by (auto simp: tty_main_def Let_def sys_defs)
  ultimately show ?thesis by blast
qed

theorem tty_main_sets_up_witness:
  "\<exists>t' p'. tty_main no_failures 3 0 0 0 \<lparr>c_iflag = 0x500, c_oflag = 5, c_cflag = 0xBF, c_lflag = 0x8A3B,
      c_ispeed = 0xF, c_ospeed = 0xF\<rparr> (p_start 77) = (None, t', p') \<and>
    announces 3 p' \<and> c_lflag t' AND 0x804B = 0"
  using tty_main_sets_up [of no_failures 3 "p_start 77" "- 1" 0 0 "\<lparr>c_iflag = 0x500, c_oflag = 5, c_cflag = 0xBF,
      c_lflag = 0x8A3B, c_ispeed = 0xF, c_ospeed = 0xF\<rparr>" no_failures]
  by (simp add: fcntl_ok_def p_start_def) blast

text \<open>
  The masks. The handlers of \<open>sigaction\<close>, \<open>tty_serial\<close> and the asynchronous servers are installed with
  every signal but their own in the mask. Their own is blocked all the same while they run, since
  \<open>SA_NODEFER\<close> is not set: a handler is never interrupted, by its own signal either, and leaving that
  signal out of the mask has no effect. \<open>sigaction\<close> waits forever when its handler is installed and returns
  1 otherwise.
\<close>

theorem handlers_never_interrupted:
  assumes "sig \<in> {SIGIO, SIGTSTP}" and "act < 0"
  shows "sa_mask (siginfo_action h sig) = {1..64} - {sig} \<and>
    blocked_in_handler sig (siginfo_action h sig) = {1..64} - {9, 19} \<and>
    blocked_in_handler sig (siginfo_action h sig) =
      blocked_in_handler sig ((siginfo_action h sig)\<lparr>sa_mask := sigfillset\<rparr>) \<and>
    sigaction_main 0 p = (None, p\<lparr>p_actions := (p_actions p)(SIGTSTP \<mapsto> siginfo_action ''action_handler'' SIGTSTP)\<rparr>) \<and>
    sigaction_main act p = (Some 1, p)"
proof -
  have "sig \<in> {1..64}" using assms(1) by (auto simp: SIGIO_def SIGTSTP_def)
  then have "insert sig (sigfillset - {sig}) = {1..64}" by (auto simp: sigfillset_def)
  then have b: "blocked_in_handler sig (siginfo_action h sig) = {1..64} - {9, 19}"
    by (simp only: blocked_siginfo)
  have "blocked_in_handler sig ((siginfo_action h sig)\<lparr>sa_mask := sigfillset\<rparr>) = {1..64} - {9, 19}"
    using \<open>sig \<in> {1..64}\<close> by (auto simp: blocked_in_handler_def siginfo_action_def SA_SIGINFO_def SA_NODEFER_def sigfillset_def)
  with b assms(2) show ?thesis
    by (simp add: siginfo_action_def sigdelset_def sigfillset_def sigaction_main_def Let_def sys_sigaction_def)
qed

theorem handlers_never_interrupted_witness:
  "SIGIO \<in> blocked_in_handler SIGIO (siginfo_action ''action_handler'' SIGIO)"
  using handlers_never_interrupted [of SIGIO "- 1" "''action_handler''" "p_start 1"] by (simp add: SIGIO_def)

text \<open>
  C32. \<open>async_UDP\<close>. After a successful start, input on the socket is announced by \<open>SIGIO\<close>, whose handler calls
  \<open>socketCallback\<close> with that socket, and does nothing for other descriptors and signals. A failed
  \<open>socket\<close> call goes unnoticed (the open function returns 1): nothing is registered and the program waits
  forever. A failed \<open>bind\<close> is reported, but the socket stays open and the handler installed.
\<close>

theorem async_udp_dispatches:
  assumes "fcntl_ok fr" and "0 \<le> sock" and "sock' < 0" and "bound \<noteq> 0"
  shows "(\<exists>cb p'. async_udp_main fr sock 0 0 p = (False, cb, p') \<and> announces sock p' \<and>
      p_port p' sock = Some 3333 \<and> p_actions p' SIGIO = Some (siginfo_action ''signalHandler'' SIGIO) \<and>
      (\<forall>sig fd. signalHandler sig fd cb =
        (if sig = SIGIO \<and> fd = sock then Some (''socketCallback'', sock, NULL) else None))) \<and>
    async_udp_main fr' sock' act bound' p = (False, cb_zero, p) \<and>
    (\<exists>cb p'. async_udp_main fr sock 0 bound p = (True, cb, p') \<and> announces sock p' \<and>
      p_actions p' SIGIO = Some (siginfo_action ''signalHandler'' SIGIO))"
proof -
  note defs = async_udp_main_def socketOpenUDP_def registerIOCallback_def registerSignalHandler_def Let_def
    sys_defs make_async_keeps announces_frame signalHandler_def
  have "announces sock (make_async fr sock (sys_open sock O_RDWR p))"
    using assms(1) by (rule make_async_announces) (simp add: sys_open_def)
  then show ?thesis using assms(2-4) by (auto simp: defs)
qed

theorem async_udp_dispatches_witness:
  "\<exists>cb p'. async_udp_main no_failures 3 0 0 (p_start 77) = (False, cb, p') \<and> announces 3 p' \<and>
    signalHandler SIGIO 3 cb = Some (''socketCallback'', 3, NULL) \<and> signalHandler SIGIO 4 cb = None"
  using async_udp_dispatches [of no_failures 3 "- 1" 1 "p_start 77" no_failures 0 0]
  by (simp add: fcntl_ok_def) fastforce

end
