(* ===== verification/MQ_Threads.thy ===== *)
theory MQ_Threads
  imports Message_Queues Signal_IO
begin

text \<open>
  The program of \<open>async_posix_message_queues_SIGEV_THREAD\<close> as a whole: \<open>main\<close> opens two queues and
  starts a sender, which puts a message into each queue over and over; a message in a queue starts a
  thread with the handler, which calls the queue's callback. The definitions of the queue operations
  are in \<open>Message_Queues\<close>.
\<close>

section \<open>The program\<close>

definition QUEUE_NAME_ONE :: string where
  "QUEUE_NAME_ONE = ''async_test_queue''"

definition QUEUE_NAME_TWO :: string where
  "QUEUE_NAME_TWO = ''async_test_queue_2''"

text \<open>
  \<open>initMsgQueues\<close> of both servers: \<open>sa\<close> is not initialised, so the mask and the flags of the action are
  whatever was on the stack (\<open>junk\<close>); \<open>ret\<close> is what \<open>sigaction\<close> returns. \<open>SIGINT\<close> is 2.
\<close>

definition initMsgQueues :: "sigaction \<Rightarrow> int \<Rightarrow> process \<Rightarrow> process" where
  "initMsgQueues junk ret p = sys_sigaction ret 2 (junk\<lparr>sa_handler := ''closeMsgQueues''\<rparr>) p"

text \<open>The callbacks print the buffer; the line is told by its number.\<close>

definition MQCallbackOne :: "nat \<Rightarrow> string \<Rightarrow> (nat \<times> string) list" where
  "MQCallbackOne read_size buffer = (if read_size > 0 then [(1, buffer)] else [])"

definition MQCallbackTwo :: "nat \<Rightarrow> string \<Rightarrow> (nat \<times> string) list" where
  "MQCallbackTwo read_size buffer = (if read_size > 0 then [(2, buffer)] else [])"

text \<open>
  One round of the endless loop of \<open>sender\<close>; the arguments are what the calls in the two
  \<open>messageQueuePut\<close> return.
\<close>

definition sender_tick :: "addr \<times> int \<times> int \<times> int \<Rightarrow> addr \<times> int \<times> int \<times> int \<Rightarrow> (string \<times> string) list cres" where
  "sender_tick = (\<lambda>(a, fd, sent, closed) (a', fd', sent', closed').
     cbind (messageQueuePut a fd sent closed QUEUE_NAME_ONE (''Hello MQ one'' @ [nul])) (\<lambda>(_, out).
     cbind (messageQueuePut a' fd' sent' closed' QUEUE_NAME_TWO (''Hello MQ two'' @ [nul])) (\<lambda>(_, out').
       Inr (out @ out'))))"

text \<open>
  \<open>main\<close> up to its endless loop; the arguments are those of \<open>initMsgQueues\<close>, those of the two
  \<open>openMessageQueue\<close> calls and what \<open>pthread_create\<close> returns. The callbacks are numbered 1 and 2.
\<close>

definition mq_thread_main ::
    "sigaction \<Rightarrow> int \<Rightarrow> addr \<times> addr \<times> addr \<times> int \<times> int \<Rightarrow> addr \<times> addr \<times> addr \<times> int \<times> int \<Rightarrow> int \<Rightarrow>
     process \<Rightarrow> (mq_server \<times> process) crun" where
  "mq_thread_main = (\<lambda>junk ret (a, b, c, fd, nt) (a', b', c', fd', nt') create p.
     let p1 = initMsgQueues junk ret p in
     lbind (openMessageQueue_thread a b c fd nt QUEUE_NAME_ONE (Some 1) mqs_zero) (\<lambda>(r, s1).
     lbind (Some (c_assert (r = 0))) (\<lambda>_.
     lbind (openMessageQueue_thread a' b' c' fd' nt' QUEUE_NAME_TWO (Some 2) s1) (\<lambda>(r', s2).
     lbind (Some (c_assert (r' = 0))) (\<lambda>_.
     lbind (Some (c_assert (create = 0))) (\<lambda>_. Some (Inr (s2, p1))))))))"

section \<open>Opening\<close>

text \<open>The node of an open queue.\<close>

definition open_mq :: "addr \<Rightarrow> addr \<Rightarrow> int \<Rightarrow> nat option \<Rightarrow> mq_info" where
  "open_mq b c fd cb = zero_mq\<lparr>mq_name := b, mq_buffer := c, mq_callback := cb, mq_fd := fd, mq_ev_set := True\<rparr>"

lemma open_thread_eq:
  assumes "mq_list s as" and "a \<notin> set (mq_head # as)" and "NULL \<notin> set [a, b, c]" and "fd \<noteq> 0" and "0 \<le> nt"
    and "mqs_nodes s (last (mq_head # as)) = Some n"
  shows "openMessageQueue_thread a b c fd nt name cb s = Some (Inr (0, mq_did [Notified fd]
    (s\<lparr>mqs_nodes := (mqs_nodes s)(a \<mapsto> open_mq b c fd cb, last (mq_head # as) \<mapsto> n\<lparr>mq_next := a\<rparr>),
       mqs_strs := (mqs_strs s)(b \<mapsto> CHR ''/'' # name @ [nul], c \<mapsto> replicate (MAX_SIZE + 1) nul)\<rparr>)))"
proof -
  let ?it = "last (mq_head # as)"
  have ch: "chain mq_next (mqs_nodes s) mq_head (mq_head # as)" using assms(1) by (simp add: mq_list_def)
  have it: "?it \<noteq> NULL" "?it \<noteq> a" using chain_last [OF ch] assms(2) by metis+
  have ln: "last_node mq_next (mqs_nodes s) mq_head = Some (Inr ?it)" using ch by (rule last_node_chain)
  have "c_strcpy (replicate (length name + 2) nul) 1 name = Inr (nul # name @ [nul])"
    by (simp add: c_strcpy_def mem_write_def)
  moreover have "mem_write (nul # name @ [nul]) 0 ''/'' = Inr (CHR ''/'' # name @ [nul])"
    by (simp add: mem_write_def)
  ultimately show ?thesis
    using it assms(3-6)
    by (simp add: openMessageQueue_thread_def ln Let_def fun_upd_twist open_mq_def del: last.simps)
qed

lemma put_name:
  assumes "is_cstring nm" and "is_cstring msg" and "a \<noteq> NULL" and "fd \<noteq> - 1" and "sent \<noteq> - 1" and "closed \<noteq> - 1"
  shows "messageQueuePut a fd sent closed nm (msg @ [nul]) = Inr (0, [(CHR ''/'' # nm, msg)])"
proof -
  have w: "c_strcpy (replicate (length nm + 2) nul) 1 nm = Inr (nul # nm @ [nul])"
    "mem_write (nul # nm @ [nul]) 0 ''/'' = Inr (CHR ''/'' # nm @ [nul])"
    by (simp_all add: c_strcpy_def mem_write_def)
  have "c_str (CHR ''/'' # nm @ [nul]) = CHR ''/'' # nm"
    using c_str_append [of "CHR ''/'' # nm" "[]"] assms(1) by (simp add: is_cstring_def nul_def)
  with w assms(2-6) c_strlen_append [OF assms(2), of "[]"] show ?thesis by (simp add: messageQueuePut_def)
qed

section \<open>Delivery\<close>

text \<open>
  What the callback sees: the message, and after it whatever the buffer held there, up to the first
  NUL.
\<close>

lemma threadHandler_calls:
  assumes "mqs_nodes s p = Some n" and "p \<noteq> NULL" and "mq_buffer n \<noteq> NULL" and "mqs_strs s (mq_buffer n) = Some buf"
    and "mq_callback n = Some f" and "m \<noteq> []" and "is_cstring m" and "length m < length buf" and "last buf = nul"
  shows "mq_threadHandler p (Some m) 0 s = Some (Inr (mq_did [Called f (length m) (m @ c_str (drop (length m) buf)),
    Notified (mq_fd n)] (s\<lparr>mqs_strs := (mqs_strs s)(mq_buffer n \<mapsto> m @ drop (length m) buf)\<rparr>)))"
proof -
  let ?b = "m @ drop (length m) buf"
  have w: "mem_write buf 0 m = Inr ?b" using assms(8) by (simp add: mem_write_def)
  have "nul \<in> set (drop (length m) buf)"
    using assms(8,9) last_in_set [of "drop (length m) buf"] by (simp add: last_drop)
  then have l: "c_strlen ?b = Inr (length (c_str ?b))" by (intro c_strlen_c_str) simp
  have "c_str ?b = m @ c_str (drop (length m) buf)" using assms(7) by (rule c_str_prefix)
  with take_c_str [of ?b] have "take (length (c_str ?b)) ?b = m @ c_str (drop (length m) buf)" by simp
  with w l assms(1-6) show ?thesis by (simp add: mq_threadHandler_def)
qed

text \<open>The buffer holds the last message and zeros.\<close>

definition after_message :: "char list \<Rightarrow> char list" where
  "after_message m = m @ replicate (MAX_SIZE + 1 - length m) nul"

lemma after_message_props:
  assumes "length m \<le> MAX_SIZE" and "length m \<le> length m'" and "length m' \<le> MAX_SIZE"
  shows "length (after_message m) = MAX_SIZE + 1" "last (after_message m) = nul"
    "m' @ drop (length m') (after_message m) = after_message m'" "c_str (drop (length m') (after_message m)) = []"
proof -
  have d: "drop (length m') (after_message m) = replicate (MAX_SIZE + 1 - length m') nul"
    using assms by (simp add: after_message_def)
  show "length (after_message m) = MAX_SIZE + 1" "last (after_message m) = nul"
    using assms(1) by (simp_all add: after_message_def)
  show "m' @ drop (length m') (after_message m) = after_message m'" unfolding d by (simp add: after_message_def)
  show "c_str (drop (length m') (after_message m)) = []"
    unfolding d using assms(3) by (simp add: c_str_def takeWhile_replicate)
qed

lemma after_message_next:
  assumes "length m0 \<le> MAX_SIZE" and "length m \<le> MAX_SIZE" and "is_cstring m0"
  shows "m @ drop (length m) (after_message m0) = after_message (m @ drop (length m) m0)"
    and "c_str (drop (length m) (after_message m0)) = drop (length m) m0"
    and "length (m @ drop (length m) m0) \<le> MAX_SIZE"
proof -
  let ?k = "MAX_SIZE + 1 - length m0"
  show "length (m @ drop (length m) m0) \<le> MAX_SIZE" using assms(1,2) by simp
  have cs: "is_cstring (drop (length m) m0)" using assms(3) by (auto simp: is_cstring_def dest: in_set_dropD)
  have d: "drop (length m) (after_message m0) = drop (length m) m0 @ replicate (?k - (length m - length m0)) nul"
    by (simp add: after_message_def)
  have "?k - (length m - length m0) = MAX_SIZE + 1 - length (m @ drop (length m) m0)" using assms(1,2) by simp
  with d show "m @ drop (length m) (after_message m0) = after_message (m @ drop (length m) m0)"
    by (simp only: after_message_def append_assoc)
  obtain r where "?k - (length m - length m0) = Suc r" using assms(1,2) by (cases "?k - (length m - length m0)") auto
  with d cs show "c_str (drop (length m) (after_message m0)) = drop (length m) m0" by (simp add: c_str_append)
qed

text \<open>
  Successive runs of the handler of the queue at \<open>p\<close>, given by what \<open>mq_receive\<close> returns in each (\<open>None\<close>: it
  fails); \<open>mq_notify\<close> succeeds. When the kernel starts such a run is not described here, but in
  \<open>MQ_Handlers\<close>.
\<close>

fun handler_runs :: "addr \<Rightarrow> char list option list \<Rightarrow> mq_server \<Rightarrow> mq_server crun" where
  "handler_runs p [] s = Some (Inr s)"
| "handler_runs p (r # rs) s = lbind (mq_threadHandler p r 0 s) (handler_runs p rs)"

text \<open>What they do, when the buffer holds \<open>t\<close> and zeros behind it: what a message does not cover of the text before stays.\<close>

fun runs_log :: "nat \<Rightarrow> int \<Rightarrow> string \<Rightarrow> char list option list \<Rightarrow> mq_event list" where
  "runs_log f fd t [] = []"
| "runs_log f fd t (None # rs) = Notified fd # runs_log f fd t rs"
| "runs_log f fd t (Some m # rs) =
     (let t' = m @ drop (length m) t in Called f (length m) t' # Notified fd # runs_log f fd t' rs)"

lemma handler_runs_log:
  assumes "mqs_nodes s p = Some n" and "p \<noteq> NULL" and "mq_buffer n \<noteq> NULL" and "mq_callback n = Some f"
    and "mqs_strs s (mq_buffer n) = Some (after_message t)" and "is_cstring t" and "length t \<le> MAX_SIZE"
    and "\<forall>m. Some m \<in> set rs \<longrightarrow> m \<noteq> [] \<and> is_cstring m \<and> length m \<le> MAX_SIZE"
  shows "\<exists>s'. handler_runs p rs s = Some (Inr s') \<and> mqs_log s' = mqs_log s @ runs_log f (mq_fd n) t rs"
  using assms(1,5-8)
proof (induction rs arbitrary: s t)
  case (Cons r rs)
  show ?case
  proof (cases r)
    case None
    let ?s = "mq_did [Notified (mq_fd n)] s"
    have h: "mq_threadHandler p None 0 s = Some (Inr ?s)"
      using Cons.prems(1,2) assms(2,3) by (simp add: mq_threadHandler_def)
    have "\<exists>s'. handler_runs p rs ?s = Some (Inr s') \<and> mqs_log s' = mqs_log ?s @ runs_log f (mq_fd n) t rs"
      by (rule Cons.IH) (use Cons.prems in auto)
    with h None show ?thesis by auto
  next
    case (Some m)
    have m: "m \<noteq> []" "is_cstring m" "length m \<le> MAX_SIZE" using Cons.prems(5) Some by auto
    let ?t = "m @ drop (length m) t"
    note next_t = after_message_next [OF Cons.prems(4) m(3) Cons.prems(3)]
    let ?s = "mq_did [Called f (length m) ?t, Notified (mq_fd n)]
      (s\<lparr>mqs_strs := (mqs_strs s)(mq_buffer n \<mapsto> after_message ?t)\<rparr>)"
    have "length m < length (after_message t)" "last (after_message t) = nul"
      using after_message_props(1,2) [of t t] Cons.prems(4) m(3) by simp_all
    from threadHandler_calls [OF Cons.prems(1) assms(2,3) Cons.prems(2) assms(4) m(1,2) this] next_t
    have h: "mq_threadHandler p (Some m) 0 s = Some (Inr ?s)" by simp
    have "is_cstring ?t" using m(2) Cons.prems(3) by (auto simp: is_cstring_def dest: in_set_dropD)
    then have "\<exists>s'. handler_runs p rs ?s = Some (Inr s') \<and> mqs_log s' = mqs_log ?s @ runs_log f (mq_fd n) ?t rs"
      by (intro Cons.IH) (use Cons.prems next_t(3) in auto)
    with h Some show ?thesis by (auto simp: Let_def)
  qed
qed simp

text \<open>Messages that never get shorter arrive as they are.\<close>

lemma runs_log_growing:
  "sorted (map length (t # ms)) \<Longrightarrow>
    runs_log f fd t (map Some ms) = concat (map (\<lambda>m. [Called f (length m) m, Notified fd]) ms)"
  by (induction ms arbitrary: t) (auto simp: Let_def)

text \<open>The state in which \<open>main\<close> waits.\<close>

lemma mq_thread_main_state:
  assumes "distinct [mq_head, a, a']" and "distinct [b, c, b', c']" and "NULL \<notin> set [a, b, c, a', b', c']"
    and "0 \<notin> set [fd, fd']" and "0 \<le> nt" and "0 \<le> nt'"
  shows "\<exists>s n n'. mq_thread_main junk ret (a, b, c, fd, nt) (a', b', c', fd', nt') 0 pr =
      Some (Inr (s, initMsgQueues junk ret pr)) \<and>
    mq_list s [a, a'] \<and> mqs_log s = [Notified fd, Notified fd'] \<and>
    mqs_nodes s a = Some n \<and> mq_fd n = fd \<and> mq_name n = b \<and> mq_callback n = Some 1 \<and> mq_buffer n = c \<and>
    mqs_nodes s a' = Some n' \<and> mq_fd n' = fd' \<and> mq_callback n' = Some 2 \<and> mq_buffer n' = c' \<and>
    mqs_strs s c = Some (after_message []) \<and> mqs_strs s c' = Some (after_message []) \<and>
    mqs_strs s b = Some (CHR ''/'' # QUEUE_NAME_ONE @ [nul]) \<and>
    mqs_strs s b' = Some (CHR ''/'' # QUEUE_NAME_TWO @ [nul])"
proof -
  let ?n = "open_mq b c fd (Some 1)" and ?n' = "open_mq b' c' fd' (Some 2)"
  define s1 where "s1 = mq_did [Notified fd] (mqs_zero\<lparr>
      mqs_nodes := (mqs_nodes mqs_zero)(a \<mapsto> ?n, mq_head \<mapsto> zero_mq\<lparr>mq_next := a\<rparr>),
      mqs_strs := (mqs_strs mqs_zero)(b \<mapsto> CHR ''/'' # QUEUE_NAME_ONE @ [nul], c \<mapsto> replicate (MAX_SIZE + 1) nul)\<rparr>)"
  have o1: "openMessageQueue_thread a b c fd nt QUEUE_NAME_ONE (Some 1) mqs_zero = Some (Inr (0, s1))"
    using open_thread_eq [OF mq_list_zero, of a b c fd nt zero_mq QUEUE_NAME_ONE "Some 1"] assms
    by (auto simp: s1_def mqs_zero_def)
  have l1: "mq_list s1 [a]"
    using assms(1,3) by (simp add: s1_def mq_list_def chain_Cons mq_head_def open_mq_def zero_mq_def)
  have na: "mqs_nodes s1 (last [mq_head, a]) = Some ?n" using assms(1) by (auto simp: s1_def)
  define s2 where "s2 = mq_did [Notified fd'] (s1\<lparr>
      mqs_nodes := (mqs_nodes s1)(a' \<mapsto> ?n', a \<mapsto> ?n\<lparr>mq_next := a'\<rparr>),
      mqs_strs := (mqs_strs s1)(b' \<mapsto> CHR ''/'' # QUEUE_NAME_TWO @ [nul], c' \<mapsto> replicate (MAX_SIZE + 1) nul)\<rparr>)"
  have o2: "openMessageQueue_thread a' b' c' fd' nt' QUEUE_NAME_TWO (Some 2) s1 = Some (Inr (0, s2))"
    using open_thread_eq [OF l1 _ _ _ _ na, of a' b' c' fd' nt' QUEUE_NAME_TWO "Some 2"] assms
    by (auto simp: s2_def)
  have "mq_list s2 [a, a']"
    using assms(1,3) by (auto simp: s2_def s1_def mq_list_def chain_Cons mq_head_def open_mq_def zero_mq_def)
  moreover have "mq_thread_main junk ret (a, b, c, fd, nt) (a', b', c', fd', nt') 0 pr =
      Some (Inr (s2, initMsgQueues junk ret pr))"
    by (simp add: mq_thread_main_def Let_def o1 [unfolded One_nat_def] o2)
  moreover have "mqs_log s2 = [Notified fd, Notified fd']" by (simp add: s2_def s1_def mqs_zero_def)
  moreover have "mqs_nodes s2 a = Some (?n\<lparr>mq_next := a'\<rparr>)" "mqs_nodes s2 a' = Some ?n'"
    using assms(1) by (auto simp: s2_def)
  moreover have "mqs_strs s2 c = Some (after_message [])" "mqs_strs s2 c' = Some (after_message [])"
    "mqs_strs s2 b = Some (CHR ''/'' # QUEUE_NAME_ONE @ [nul])"
    "mqs_strs s2 b' = Some (CHR ''/'' # QUEUE_NAME_TWO @ [nul])"
    using assms(2) by (auto simp: s2_def s1_def after_message_def)
  ultimately show ?thesis
    by (intro exI [of _ s2] exI [of _ "?n\<lparr>mq_next := a'\<rparr>"] exI [of _ ?n']) (simp add: open_mq_def)
qed

section \<open>The property\<close>

text \<open>
  C22. The message-queue program with threads. When its library calls succeed, \<open>main\<close> ends up with both queues in
  its list and \<open>closeMsgQueues\<close> installed for the interrupt, which will read a node after freeing it. A round of
  the sender makes one call of \<open>mq_send\<close> for each queue, under the names with which they were opened. Of the runs of a
  queue's handler this is an account of what they hand to the callback, whatever messages without a NUL (the sender's
  have none) \<open>mq_receive\<close> returns in them; which messages get a run is decided by the kernel's notification rule (\<open>MQ_Handlers\<close>), and \<open>mq_notify\<close> succeeds.
  A run that receives a message calls the queue's callback once, with the length of the message and a text that is the message with what it does not cover of the text before,
  since the buffer is not cleared; a run that receives none calls nothing. Messages that never get shorter (as the sender's, which are all the same) arrive as they are.
\<close>

theorem mq_thread_program:
  assumes "distinct [mq_head, a, a']" and "distinct [b, c, b', c']" and "NULL \<notin> set [a, b, c, a', b', c']"
    and "0 \<notin> set [fd, fd']" and "0 \<le> nt" and "0 \<le> nt'"
    and "x \<noteq> NULL" and "x' \<noteq> NULL" and "- 1 \<notin> set [w, sent, closed, w', sent', closed']"
    and "\<forall>m. Some m \<in> set rs \<longrightarrow> m \<noteq> [] \<and> is_cstring m \<and> length m \<le> MAX_SIZE"
  shows "\<exists>s pr'. mq_thread_main junk 0 (a, b, c, fd, nt) (a', b', c', fd', nt') 0 pr = Some (Inr (s, pr')) \<and>
    map_option sa_handler (p_actions pr' 2) = Some ''closeMsgQueues'' \<and>
    closeMsgQueues_thread 2 s = Some (Inl Bad_pointer) \<and> mq_list s [a, a'] \<and>
    sender_tick (x, w, sent, closed) (x', w', sent', closed') =
      Inr [(CHR ''/'' # QUEUE_NAME_ONE, ''Hello MQ one''), (CHR ''/'' # QUEUE_NAME_TWO, ''Hello MQ two'')] \<and>
    str_at s b = Inr (CHR ''/'' # QUEUE_NAME_ONE) \<and> str_at s b' = Inr (CHR ''/'' # QUEUE_NAME_TWO) \<and>
    (\<forall>(p, f, d)\<in>{(a, 1, fd), (a', 2, fd')}.
      (\<exists>s'. handler_runs p rs s = Some (Inr s') \<and> mqs_log s' = mqs_log s @ runs_log f d [] rs) \<and>
      (\<forall>ms. rs = map Some ms \<longrightarrow> sorted (map length ms) \<longrightarrow>
        runs_log f d [] rs = concat (map (\<lambda>m. [Called f (length m) m, Notified d]) ms)))"
proof -
  from mq_thread_main_state [OF assms(1-6), of junk 0 pr] obtain s n n' where
    s: "mq_thread_main junk 0 (a, b, c, fd, nt) (a', b', c', fd', nt') 0 pr = Some (Inr (s, initMsgQueues junk 0 pr))"
      "mq_list s [a, a']"
    and n: "mqs_nodes s a = Some n" "mq_fd n = fd" "mq_name n = b" "mq_callback n = Some 1" "mq_buffer n = c"
    and n': "mqs_nodes s a' = Some n'" "mq_fd n' = fd'" "mq_callback n' = Some 2" "mq_buffer n' = c'"
    and bufs: "mqs_strs s c = Some (after_message [])" "mqs_strs s c' = Some (after_message [])"
    and names: "mqs_strs s b = Some (CHR ''/'' # QUEUE_NAME_ONE @ [nul])"
      "mqs_strs s b' = Some (CHR ''/'' # QUEUE_NAME_TWO @ [nul])" by blast
  have cs: "is_cstring QUEUE_NAME_ONE" "is_cstring QUEUE_NAME_TWO" "is_cstring ''Hello MQ one''"
    "is_cstring ''Hello MQ two''" "is_cstring (CHR ''/'' # QUEUE_NAME_ONE)" "is_cstring (CHR ''/'' # QUEUE_NAME_TWO)"
    by (simp_all add: is_cstring_def nul_def QUEUE_NAME_ONE_def QUEUE_NAME_TWO_def)
  have str: "str_at s b = Inr (CHR ''/'' # QUEUE_NAME_ONE)" "str_at s b' = Inr (CHR ''/'' # QUEUE_NAME_TWO)"
    using assms(3) names c_strlen_append [OF cs(5), of "[]"] c_strlen_append [OF cs(6), of "[]"]
    by (simp_all add: str_at_def)
  have close: "closeMsgQueues_thread 2 s = Some (Inl Bad_pointer)"
    using close_loop_uaf [OF s(2) _ str(1)] n(1,3) by (simp add: closeMsgQueues_thread_def closeMsgQueues_def)
  have tick: "sender_tick (x, w, sent, closed) (x', w', sent', closed') =
      Inr [(CHR ''/'' # QUEUE_NAME_ONE, ''Hello MQ one''), (CHR ''/'' # QUEUE_NAME_TWO, ''Hello MQ two'')]"
    using assms(7-9) put_name [OF cs(1,3), of x w sent closed] put_name [OF cs(2,4), of x' w' sent' closed']
    by (simp add: sender_tick_def)
  have runs: "\<exists>s'. handler_runs p rs s = Some (Inr s') \<and> mqs_log s' = mqs_log s @ runs_log f (mq_fd k) [] rs"
    if "mqs_nodes s p = Some k" "p \<noteq> NULL" "mq_buffer k \<noteq> NULL" "mq_callback k = Some f"
      "mqs_strs s (mq_buffer k) = Some (after_message [])" for p f k
    using handler_runs_log [OF that, of rs] assms(10) by (simp add: is_cstring_def)
  have grow: "runs_log f d [] rs = concat (map (\<lambda>m. [Called f (length m) m, Notified d]) ms)"
    if "rs = map Some ms" "sorted (map length ms)" for f d ms
    using runs_log_growing [of "[]" ms f d] that by simp
  show ?thesis
    using s str tick close runs [OF n(1) _ _ n(4)] runs [OF n'(1) _ _ n'(3)] n(2,5) n'(2,4) bufs assms(3) grow
    by (intro exI [of _ s]) (auto simp: initMsgQueues_def sys_sigaction_def)
qed

theorem mq_thread_program_witness:
  "\<exists>s s' pr'. mq_thread_main (siginfo_action [] 2) 0 (64, 128, 192, 3, 0) (96, 160, 224, 4, 0) 0 (p_start 1) =
      Some (Inr (s, pr')) \<and>
    handler_runs 96 [Some ''first'', None, Some ''2nd''] s = Some (Inr s') \<and>
    mqs_log s' = mqs_log s @ [Called 2 5 ''first'', Notified 4, Notified 4, Called 2 3 ''2ndst'', Notified 4]"
proof -
  let ?rs = "[Some ''first'', None, Some ''2nd'']"
  have "\<forall>m. Some m \<in> set ?rs \<longrightarrow> m \<noteq> [] \<and> is_cstring m \<and> length m \<le> MAX_SIZE"
    by (auto simp: is_cstring_def nul_def MAX_SIZE_def)
  from mq_thread_program [OF _ _ _ _ _ _ _ _ _ this, of 64 96 128 192 160 224 3 4 0 0 16 32 5 0 0 6 0 0
      "siginfo_action [] 2" "p_start 1"]
  show ?thesis by (auto simp: mq_head_def)
qed

end
