(* ===== verification/MQ_Handlers.thy ===== *)
theory MQ_Handlers
  imports MQ_Threads Thread_Runs
begin

text \<open>
  The threads of \<open>async_posix_message_queues_SIGEV_THREAD\<close> under every schedule: the sender, which puts a
  message into each of the two queues in turn, and the handler threads the kernel starts. A thread is
  started when a message arrives in an empty queue for which the process is registered, and the
  registration is gone until the thread has called \<open>mq_notify\<close> again. All handler threads of a queue
  would share the queue's one receive buffer; that there is never more than one is what makes the
  program safe, and that no notification is kept is what makes it hang.
\<close>

section \<open>The program\<close>

text \<open>The next statement of \<open>sigHandler\<close>; \<open>TH_callback n\<close> after \<open>mq_receive\<close> has returned \<open>n\<close>.\<close>

datatype th_pc = TH_receive | TH_callback int | TH_notify

text \<open>A queue: its messages, the registration, \<open>mq_i->buffer\<close> and the handler threads that run for it.\<close>

record mq_chan =
  ch_msgs :: "char list list"
  ch_registered :: bool
  ch_buffer :: "char list"
  ch_threads :: "th_pc list"

text \<open>
  The two queues have the numbers 1 and 2 of their callbacks. \<open>tw_next\<close> is the queue the sender writes
  to next and \<open>tw_ticks\<close> how many rounds of its endless loop are considered. \<open>tw_closing\<close> is set when an
  \<open>mq_notify\<close> fails, which makes the handler close the queues and end the program.
\<close>

record th_world =
  tw_chan :: "nat \<Rightarrow> mq_chan"
  tw_next :: nat
  tw_ticks :: nat
  tw_out :: "(nat \<times> string) list"
  tw_closing :: bool
  tw_fault :: "c_fault option"

definition th_init :: "nat \<Rightarrow> th_world" where
  "th_init ticks = \<lparr>tw_chan = (\<lambda>_. \<lparr>ch_msgs = [], ch_registered = True,
       ch_buffer = replicate (MAX_SIZE + 1) nul, ch_threads = []\<rparr>),
     tw_next = 1, tw_ticks = ticks, tw_out = [], tw_closing = False, tw_fault = None\<rparr>"

definition sender_message :: "nat \<Rightarrow> string" where
  "sender_message q = (if q = 1 then ''Hello MQ one'' else ''Hello MQ two'')"

text \<open>The capacity \<open>main\<close> gives its queues.\<close>

definition queue_capacity :: nat where
  "queue_capacity = 10"

text \<open>\<open>mq_send\<close>: it waits while the queue is full. A notification starts a handler thread.\<close>

definition chan_send :: "string \<Rightarrow> mq_chan \<Rightarrow> mq_chan option" where
  "chan_send m c =
     (if length (ch_msgs c) < queue_capacity
      then (let c' = c\<lparr>ch_msgs := ch_msgs c @ [m]\<rparr> in
        Some (if ch_msgs c = [] \<and> ch_registered c
              then c'\<lparr>ch_registered := False, ch_threads := ch_threads c @ [TH_receive]\<rparr> else c'))
      else None)"

definition sender_step :: "th_world \<Rightarrow> th_world option" where
  "sender_step w =
     (if tw_ticks w = 0 then None
      else map_option (\<lambda>c. w\<lparr>tw_chan := (tw_chan w)(tw_next w := c),
          tw_next := (if tw_next w = 1 then 2 else 1),
          tw_ticks := (if tw_next w = 1 then tw_ticks w else tw_ticks w - 1)\<rparr>)
        (chan_send (sender_message (tw_next w)) (tw_chan w (tw_next w))))"

text \<open>
  A statement of the handler thread at position \<open>i\<close> of queue \<open>q\<close>. The queue is opened with \<open>O_NONBLOCK\<close>, so
  \<open>mq_receive\<close> returns -1 when there is no message; \<open>mq_notify\<close> fails when the process is registered.
\<close>

definition thread_step :: "nat \<Rightarrow> nat \<Rightarrow> th_world \<Rightarrow> th_world" where
  "thread_step q i w =
     (let c = tw_chan w q; put = (\<lambda>c'. w\<lparr>tw_chan := (tw_chan w)(q := c')\<rparr>) in
      case ch_threads c ! i of
        TH_receive \<Rightarrow> (case ch_msgs c of
            [] \<Rightarrow> put (c\<lparr>ch_threads := (ch_threads c)[i := TH_callback (- 1)]\<rparr>)
          | m # ms \<Rightarrow> (case mem_write (ch_buffer c) 0 m of
                Inl e \<Rightarrow> w\<lparr>tw_fault := Some e\<rparr>
              | Inr b \<Rightarrow> put (c\<lparr>ch_msgs := ms, ch_buffer := b,
                  ch_threads := (ch_threads c)[i := TH_callback (int (length m))]\<rparr>)))
      | TH_callback n \<Rightarrow>
          let w' = put (c\<lparr>ch_threads := (ch_threads c)[i := TH_notify]\<rparr>) in
          if n > 0 then (case cbind (c_strlen (ch_buffer c)) (\<lambda>k. Inr (take k (ch_buffer c))) of
                Inl e \<Rightarrow> w\<lparr>tw_fault := Some e\<rparr>
              | Inr txt \<Rightarrow> w'\<lparr>tw_out := tw_out w @
                  (if q = 1 then MQCallbackOne (nat n) txt else MQCallbackTwo (nat n) txt)\<rparr>)
          else w'
      | TH_notify \<Rightarrow>
          if ch_registered c then w\<lparr>tw_closing := True\<rparr>
          else put (c\<lparr>ch_registered := True, ch_threads := take i (ch_threads c) @ drop (Suc i) (ch_threads c)\<rparr>))"

definition running :: "th_world \<Rightarrow> bool" where
  "running w \<longleftrightarrow> \<not> tw_closing w \<and> tw_fault w = None"

inductive th_step :: "th_world \<Rightarrow> th_world \<Rightarrow> bool" where
  th_sender: "running w \<Longrightarrow> sender_step w = Some w' \<Longrightarrow> th_step w w'"
| th_handler: "running w \<Longrightarrow> q \<in> {1, 2} \<Longrightarrow> i < length (ch_threads (tw_chan w q)) \<Longrightarrow> th_step w (thread_step q i w)"

text \<open>
  The sender as its \<open>sleep(1)\<close> intends it: it writes to a queue only when the handler of the previous
  message has finished.
\<close>

inductive rested_step :: "th_world \<Rightarrow> th_world \<Rightarrow> bool" where
  rested_sender: "running w \<Longrightarrow> ch_msgs (tw_chan w (tw_next w)) = [] \<Longrightarrow> ch_registered (tw_chan w (tw_next w)) \<Longrightarrow>
    sender_step w = Some w' \<Longrightarrow> rested_step w w'"
| rested_handler: "running w \<Longrightarrow> q \<in> {1, 2} \<Longrightarrow> i < length (ch_threads (tw_chan w q)) \<Longrightarrow>
    rested_step w (thread_step q i w)"

section \<open>One handler at a time\<close>

text \<open>
  A queue whose messages all are \<open>m\<close>: it has a registration or exactly one thread, never both, and the
  buffer holds what the thread has received.
\<close>

definition chan_ok :: "string \<Rightarrow> mq_chan \<Rightarrow> bool" where
  "chan_ok m c \<longleftrightarrow> set (ch_msgs c) \<subseteq> {m} \<and> length (ch_msgs c) \<le> queue_capacity \<and> ch_buffer c \<in> {after_message [], after_message m} \<and>
     (if ch_registered c then ch_threads c = []
      else ch_threads c = [TH_receive] \<and> ch_msgs c \<noteq> [] \<or>
        ch_threads c = [TH_callback (int (length m))] \<and> ch_buffer c = after_message m \<or> ch_threads c = [TH_notify])"

definition printed :: "nat \<Rightarrow> th_world \<Rightarrow> nat" where
  "printed q w = length (filter (\<lambda>l. fst l = q) (tw_out w))"

definition in_hand :: "mq_chan \<Rightarrow> nat" where
  "in_hand c = (case ch_threads c of [TH_callback n] \<Rightarrow> 1 | _ \<Rightarrow> 0)"

text \<open>What the sender has still to put into queue \<open>q\<close> in the rounds considered.\<close>

definition remaining :: "nat \<Rightarrow> th_world \<Rightarrow> nat" where
  "remaining q w = (if q = 1 \<and> tw_next w = 2 then tw_ticks w - 1 else tw_ticks w)"

definition queue_inv :: "nat \<Rightarrow> nat \<Rightarrow> th_world \<Rightarrow> bool" where
  "queue_inv N q w \<longleftrightarrow> chan_ok (sender_message q) (tw_chan w q) \<and>
     printed q w + in_hand (tw_chan w q) + length (ch_msgs (tw_chan w q)) + remaining q w = N"

definition th_inv :: "nat \<Rightarrow> th_world \<Rightarrow> bool" where
  "th_inv N w \<longleftrightarrow> running w \<and> tw_next w \<in> {1, 2} \<and> (tw_next w = 2 \<longrightarrow> 0 < tw_ticks w) \<and>
     (\<forall>(q, txt) \<in> set (tw_out w). q \<in> {1, 2} \<and> txt = sender_message q) \<and> queue_inv N 1 w \<and> queue_inv N 2 w"

lemma sender_message_props:
  "sender_message q \<noteq> []" "is_cstring (sender_message q)" "length (sender_message q) \<le> MAX_SIZE"
  by (simp_all add: sender_message_def is_cstring_def nul_def MAX_SIZE_def)

lemma th_inv_init: "th_inv N (th_init N)"
  by (simp add: th_inv_def queue_inv_def th_init_def running_def chan_ok_def printed_def in_hand_def remaining_def
      after_message_def del: replicate.simps)

lemma th_invD: "th_inv N w \<Longrightarrow> q \<in> {1, 2} \<Longrightarrow> queue_inv N q w"
  by (auto simp: th_inv_def)

text \<open>The three steps of the one thread.\<close>

lemma one_thread_cases:
  assumes "chan_ok m (tw_chan w q)" and "m = sender_message q" and "q \<in> {1, 2}" and "i < length (ch_threads (tw_chan w q))"
  obtains (receive) "ch_threads (tw_chan w q) = [TH_receive]" "ch_msgs (tw_chan w q) \<noteq> []" "\<not> ch_registered (tw_chan w q)"
      "thread_step q i w = w\<lparr>tw_chan := (tw_chan w)(q := (tw_chan w q)\<lparr>ch_msgs := tl (ch_msgs (tw_chan w q)),
         ch_buffer := after_message m, ch_threads := [TH_callback (int (length m))]\<rparr>)\<rparr>"
  | (callback) "ch_threads (tw_chan w q) = [TH_callback (int (length m))]" "\<not> ch_registered (tw_chan w q)"
      "thread_step q i w = w\<lparr>tw_chan := (tw_chan w)(q := (tw_chan w q)\<lparr>ch_threads := [TH_notify]\<rparr>),
         tw_out := tw_out w @ [(q, m)]\<rparr>"
  | (renew) "ch_threads (tw_chan w q) = [TH_notify]" "\<not> ch_registered (tw_chan w q)"
      "thread_step q i w = w\<lparr>tw_chan := (tw_chan w)(q := (tw_chan w q)\<lparr>ch_registered := True, ch_threads := []\<rparr>)\<rparr>"
proof -
  let ?c = "tw_chan w q"
  have m: "m \<noteq> []" "is_cstring m" "length m \<le> MAX_SIZE" using assms(2) sender_message_props by simp_all
  have r: "\<not> ch_registered ?c" using assms(1,4) by (auto simp: chan_ok_def)
  with assms(1) consider (a) "ch_threads ?c = [TH_receive]" "ch_msgs ?c \<noteq> []"
    | (b) "ch_threads ?c = [TH_callback (int (length m))]" "ch_buffer ?c = after_message m"
    | (c) "ch_threads ?c = [TH_notify]" by (auto simp: chan_ok_def)
  then show thesis
  proof cases
    case a
    then obtain ms where ms: "ch_msgs ?c = m # ms" using assms(1) by (cases "ch_msgs ?c") (auto simp: chan_ok_def)
    have "mem_write (ch_buffer ?c) 0 m = Inr (after_message m)"
      using assms(1) after_message_props [of "[]" m] after_message_props [of m m] m
      by (auto simp: chan_ok_def mem_write_def)
    then show thesis using a assms(4) r ms by (intro receive) (simp_all add: thread_step_def Let_def)
  next
    case b
    have am: "after_message m = m @ nul # replicate (MAX_SIZE - length m) nul"
      using m(3) by (simp add: after_message_def Suc_diff_le)
    have "cbind (c_strlen (ch_buffer ?c)) (\<lambda>k. Inr (take k (ch_buffer ?c))) = Inr m"
      using c_strlen_append [OF m(2), of "replicate (MAX_SIZE - length m) nul"] by (simp add: b am)
    then show thesis using b assms(3,4) r m(1)
      by (intro callback) (auto simp: thread_step_def Let_def MQCallbackOne_def MQCallbackTwo_def)
  next
    case c
    then show thesis using assms(4) r by (intro renew) (simp_all add: thread_step_def Let_def)
  qed
qed

lemma queue_inv_put:
  assumes "queue_inv N q' w" and "chan_ok (sender_message q) c"
    and "in_hand c + length (ch_msgs c) + k = in_hand (tw_chan w q) + length (ch_msgs (tw_chan w q))"
  shows "queue_inv N q' (w\<lparr>tw_chan := (tw_chan w)(q := c), tw_out := tw_out w @ replicate k (q, sender_message q)\<rparr>)"
proof -
  let ?w = "w\<lparr>tw_chan := (tw_chan w)(q := c), tw_out := tw_out w @ replicate k (q, sender_message q)\<rparr>"
  have "remaining q' ?w = remaining q' w" by (simp add: remaining_def)
  moreover have "printed q' ?w = printed q' w + (if q' = q then k else 0)" by (simp add: printed_def)
  ultimately show ?thesis using assms by (cases "q' = q") (simp_all add: queue_inv_def)
qed

lemma th_inv_put:
  assumes "th_inv N w" and "q \<in> {1, 2}" and "chan_ok (sender_message q) c"
    and "in_hand c + length (ch_msgs c) + k = in_hand (tw_chan w q) + length (ch_msgs (tw_chan w q))"
  shows "th_inv N (w\<lparr>tw_chan := (tw_chan w)(q := c), tw_out := tw_out w @ replicate k (q, sender_message q)\<rparr>)"
proof -
  have "\<forall>(q', txt) \<in> set (tw_out w @ replicate k (q, sender_message q)). q' \<in> {1, 2} \<and> txt = sender_message q'"
    using assms(1,2) by (auto simp: th_inv_def)
  with assms(1) queue_inv_put [OF _ assms(3,4)] show ?thesis by (simp add: th_inv_def running_def)
qed

lemma thread_inv:
  assumes "th_inv N w" and "q \<in> {1, 2}" and "i < length (ch_threads (tw_chan w q))"
  shows "th_inv N (thread_step q i w)"
proof -
  have "queue_inv N q w" using assms(1,2) by (rule th_invD)
  then have ok: "chan_ok (sender_message q) (tw_chan w q)" by (simp add: queue_inv_def)
  note put = th_inv_put [OF assms(1,2)]
  from ok refl assms(2,3) show ?thesis
  proof (cases rule: one_thread_cases)
    case receive
    have "set (tl (ch_msgs (tw_chan w q))) \<subseteq> {sender_message q} \<and> length (tl (ch_msgs (tw_chan w q))) \<le> queue_capacity"
      using ok receive(2) by (cases "ch_msgs (tw_chan w q)") (auto simp: chan_ok_def)
    then show ?thesis unfolding receive(4) using receive put [where k = 0]
      by (auto simp: chan_ok_def in_hand_def)
  next
    case callback
    then show ?thesis unfolding callback(3) using ok put [of "(tw_chan w q)\<lparr>ch_threads := [TH_notify]\<rparr>" 1]
      by (auto simp: chan_ok_def in_hand_def)
  next
    case renew
    then show ?thesis unfolding renew(3) using ok put [of "(tw_chan w q)\<lparr>ch_registered := True, ch_threads := []\<rparr>" 0]
      by (auto simp: chan_ok_def in_hand_def)
  qed
qed

lemma sender_cases:
  assumes "sender_step w = Some w'"
  obtains c where "chan_send (sender_message (tw_next w)) (tw_chan w (tw_next w)) = Some c" "0 < tw_ticks w"
    "w' = w\<lparr>tw_chan := (tw_chan w)(tw_next w := c), tw_next := (if tw_next w = 1 then 2 else 1),
       tw_ticks := (if tw_next w = 1 then tw_ticks w else tw_ticks w - 1)\<rparr>"
  using assms by (auto simp: sender_step_def split: if_splits)

lemma chan_send_ok:
  assumes "chan_ok m c" and "chan_send m c = Some c'"
  shows "chan_ok m c'" and "in_hand c' = in_hand c" and "length (ch_msgs c') = Suc (length (ch_msgs c))"
  using assms by (auto simp: chan_ok_def chan_send_def Let_def in_hand_def split: if_splits)

lemma sender_inv:
  assumes "th_inv N w" and "sender_step w = Some w'"
  shows "th_inv N w'"
  using assms(2)
proof (rule sender_cases)
  fix c assume c: "chan_send (sender_message (tw_next w)) (tw_chan w (tw_next w)) = Some c" "0 < tw_ticks w"
    and w': "w' = w\<lparr>tw_chan := (tw_chan w)(tw_next w := c), tw_next := (if tw_next w = 1 then 2 else 1),
       tw_ticks := (if tw_next w = 1 then tw_ticks w else tw_ticks w - 1)\<rparr>"
  have nx: "tw_next w \<in> {1, 2}" using assms(1) by (simp add: th_inv_def)
  then have "chan_ok (sender_message (tw_next w)) (tw_chan w (tw_next w))"
    using th_invD [OF assms(1)] by (simp add: queue_inv_def)
  note ok = chan_send_ok [OF this c(1)]
  show ?thesis
  proof (cases "tw_next w = 1")
    case True
    with assms(1) ok c(2) show ?thesis
      by (auto simp: w' th_inv_def queue_inv_def printed_def remaining_def running_def)
  next
    case False
    with nx have "tw_next w = 2" by simp
    with assms(1) ok c(2) show ?thesis
      by (auto simp: w' th_inv_def queue_inv_def printed_def remaining_def running_def)
  qed
qed

lemma th_inv_step: "th_inv N w \<Longrightarrow> th_step w w' \<Longrightarrow> th_inv N w'"
  by (erule th_step.cases) (auto intro: sender_inv thread_inv)

section \<open>Every run ends\<close>

fun pc_rank :: "th_pc \<Rightarrow> nat" where
  "pc_rank TH_receive = 3"
| "pc_rank (TH_callback n) = 2"
| "pc_rank TH_notify = 1"

definition chan_rank :: "mq_chan \<Rightarrow> nat" where
  "chan_rank c = sum_list (map pc_rank (ch_threads c))"

definition th_rank :: "th_world \<Rightarrow> nat" where
  "th_rank w = 4 * (remaining 1 w + remaining 2 w) + chan_rank (tw_chan w 1) + chan_rank (tw_chan w 2)"

definition th_ended :: "th_world \<Rightarrow> bool" where
  "th_ended w \<longleftrightarrow> ch_threads (tw_chan w 1) = [] \<and> ch_threads (tw_chan w 2) = [] \<and>
     (tw_ticks w = 0 \<or> length (ch_msgs (tw_chan w (tw_next w))) = queue_capacity)"

lemma thread_rank:
  assumes "th_inv N w" and "q \<in> {1, 2}" and "i < length (ch_threads (tw_chan w q))"
  shows "th_rank (thread_step q i w) < th_rank w"
proof -
  have "queue_inv N q w" using assms(1,2) by (rule th_invD)
  then have ok: "chan_ok (sender_message q) (tw_chan w q)" by (simp add: queue_inv_def)
  have put: "th_rank (w\<lparr>tw_chan := (tw_chan w)(q := c), tw_out := out\<rparr>) < th_rank w"
    if "chan_rank c < chan_rank (tw_chan w q)" for c out
    using that assms(2) by (auto simp: th_rank_def remaining_def)
  from ok refl assms(2,3) show ?thesis
  proof (cases rule: one_thread_cases)
    case receive
    then show ?thesis using put [where out = "tw_out w"] by (simp add: chan_rank_def)
  next
    case callback
    then show ?thesis using put by (simp add: chan_rank_def)
  next
    case renew
    then show ?thesis using put [where out = "tw_out w"] by (simp add: chan_rank_def)
  qed
qed

lemma sender_rank:
  assumes "th_inv N w" and "sender_step w = Some w'"
  shows "th_rank w' < th_rank w"
  using assms(2)
proof (rule sender_cases)
  fix c assume c: "chan_send (sender_message (tw_next w)) (tw_chan w (tw_next w)) = Some c" "0 < tw_ticks w"
    and w': "w' = w\<lparr>tw_chan := (tw_chan w)(tw_next w := c), tw_next := (if tw_next w = 1 then 2 else 1),
       tw_ticks := (if tw_next w = 1 then tw_ticks w else tw_ticks w - 1)\<rparr>"
  have r: "chan_rank c \<le> chan_rank (tw_chan w (tw_next w)) + 3"
    using c(1) by (auto simp: chan_send_def chan_rank_def Let_def split: if_splits)
  consider (one) "tw_next w = 1" | (two) "tw_next w = 2" using assms(1) by (auto simp: th_inv_def)
  then show ?thesis
  proof cases
    case one
    then have "remaining 1 w' + 1 = remaining 1 w" "remaining 2 w' = remaining 2 w"
      "chan_rank (tw_chan w' 1) \<le> chan_rank (tw_chan w 1) + 3" "tw_chan w' 2 = tw_chan w 2"
      using r c(2) by (simp_all add: w' remaining_def)
    then show ?thesis by (simp add: th_rank_def)
  next
    case two
    then have "remaining 1 w' = remaining 1 w" "remaining 2 w' + 1 = remaining 2 w"
      "chan_rank (tw_chan w' 2) \<le> chan_rank (tw_chan w 2) + 3" "tw_chan w' 1 = tw_chan w 1"
      using r c(2) by (simp_all add: w' remaining_def)
    then show ?thesis by (simp add: th_rank_def)
  qed
qed

lemma th_rank_step: "th_inv N w \<Longrightarrow> th_step w w' \<Longrightarrow> th_rank w' < th_rank w"
  by (erule th_step.cases) (auto intro: sender_rank thread_rank)

lemma th_rank_init: "th_rank (th_init N) = 8 * N"
  by (simp add: th_rank_def remaining_def chan_rank_def th_init_def)

lemma th_progress:
  assumes "th_inv N w" and "\<not> th_ended w"
  shows "\<exists>t. th_step w t"
proof -
  have run: "running w" and nx: "tw_next w \<in> {1, 2}" using assms(1) by (simp_all add: th_inv_def)
  show ?thesis
  proof (cases "ch_threads (tw_chan w 1) = [] \<and> ch_threads (tw_chan w 2) = []")
    case False
    then have "0 < length (ch_threads (tw_chan w 1)) \<or> 0 < length (ch_threads (tw_chan w 2))" by simp
    with th_handler [OF run, of 1 0] th_handler [OF run, of 2 0] show ?thesis by auto
  next
    case True
    from nx have "queue_inv N (tw_next w) w" by (rule th_invD [OF assms(1)])
    then have "length (ch_msgs (tw_chan w (tw_next w))) \<le> queue_capacity" by (simp add: queue_inv_def chan_ok_def)
    moreover have "tw_ticks w \<noteq> 0" "length (ch_msgs (tw_chan w (tw_next w))) \<noteq> queue_capacity"
      using True assms(2) by (simp_all add: th_ended_def)
    ultimately have "\<exists>t. sender_step w = Some t" by (simp add: sender_step_def chan_send_def Let_def)
    with th_sender [OF run] show ?thesis by blast
  qed
qed

lemma handlers_thread_program:
  "thread_program (th_init N) th_step (\<lambda>_ _. False) (th_inv N) th_rank th_ended"
  by unfold_locales (auto intro: th_inv_init th_inv_step th_rank_step th_progress)

lemma th_run:
  assumes "steps th_step n w t" and "th_inv N w"
  shows "th_inv N t" and "stuck th_step t \<Longrightarrow> th_ended t" and "n + th_rank t \<le> th_rank w"
    and "\<exists>k u. steps th_step k t u \<and> stuck th_step u"
proof -
  note tp = handlers_thread_program [of N]
  show inv: "th_inv N t" and "n + th_rank t \<le> th_rank w"
    using thread_program.steps_inv_rank [OF tp assms] by simp_all
  show "stuck th_step t \<Longrightarrow> th_ended t" using thread_program.progress [OF tp inv] by (auto simp: stuck_def)
  show "\<exists>k u. steps th_step k t u \<and> stuck th_step u" using thread_program.runs_to_end [OF tp inv] by blast
qed

section \<open>The lost notification\<close>

text \<open>The first queue holds a message nobody will be told of.\<close>

definition deaf :: "th_world \<Rightarrow> bool" where
  "deaf w \<longleftrightarrow> ch_threads (tw_chan w 1) = [] \<and> ch_msgs (tw_chan w 1) \<noteq> [] \<and> printed 1 w = 1"

lemma deaf_sender:
  assumes "deaf w" and "sender_step w = Some w'"
  shows "deaf w'"
  using assms(2)
proof (rule sender_cases)
  fix c assume c: "chan_send (sender_message (tw_next w)) (tw_chan w (tw_next w)) = Some c"
    and w': "w' = w\<lparr>tw_chan := (tw_chan w)(tw_next w := c), tw_next := (if tw_next w = 1 then 2 else 1),
       tw_ticks := (if tw_next w = 1 then tw_ticks w else tw_ticks w - 1)\<rparr>"
  have "printed 1 w' = printed 1 w" by (simp add: w' printed_def)
  moreover have "ch_threads (tw_chan w' 1) = [] \<and> ch_msgs (tw_chan w' 1) \<noteq> []"
    using assms(1) c by (auto simp: w' deaf_def chan_send_def Let_def split: if_splits)
  ultimately show ?thesis using assms(1) by (simp add: deaf_def)
qed

lemma deaf_handler:
  assumes "deaf w" and "th_inv N w" and "q \<in> {1, 2}" and "i < length (ch_threads (tw_chan w q))"
  shows "deaf (thread_step q i w)"
proof -
  have q: "q = 2" using assms(1,3,4) by (auto simp: deaf_def)
  have "queue_inv N q w" using assms(2,3) by (rule th_invD)
  then have ok: "chan_ok (sender_message q) (tw_chan w q)" by (simp add: queue_inv_def)
  from ok refl assms(3,4) show ?thesis
  proof (cases rule: one_thread_cases)
    case receive
    then show ?thesis using assms(1) q by (simp add: deaf_def printed_def)
  next
    case callback
    then show ?thesis using assms(1) q by (simp add: deaf_def printed_def)
  next
    case renew
    then show ?thesis using assms(1) q by (simp add: deaf_def printed_def)
  qed
qed

lemma deaf_steps: "steps th_step n w t \<Longrightarrow> th_inv N w \<Longrightarrow> deaf w \<Longrightarrow> deaf t"
proof (induction rule: steps.induct)
  case (steps_more w w' n t)
  then have "deaf w'" using deaf_sender deaf_handler by (auto elim!: th_step.cases)
  with steps_more th_inv_step show ?case by blast
qed

lemma deaf_blocks:
  assumes "th_inv N t" and "deaf t" and "queue_capacity + 2 \<le> N"
  shows "0 < tw_ticks t" and "printed 2 t \<le> queue_capacity + 1"
proof -
  have "queue_inv N 1 t" "queue_inv N 2 t" using assms(1) by (simp_all add: th_inv_def)
  then have q1: "1 + in_hand (tw_chan t 1) + length (ch_msgs (tw_chan t 1)) + remaining 1 t = N"
    "length (ch_msgs (tw_chan t 1)) \<le> queue_capacity" "printed 2 t + remaining 2 t \<le> N"
    using assms(2) by (auto simp: queue_inv_def chan_ok_def deaf_def)
  have "in_hand (tw_chan t 1) = 0" using assms(2) by (simp add: deaf_def in_hand_def)
  moreover have "remaining 1 t \<le> tw_ticks t" "remaining 1 t \<le> remaining 2 t" by (simp_all add: remaining_def)
  ultimately show "0 < tw_ticks t" "printed 2 t \<le> queue_capacity + 1" using q1 assms(3) by linarith+
qed

text \<open>A handler thread on its own receives one message, prints it and registers again.\<close>

lemma handler_run:
  assumes "th_inv N w" and "q \<in> {1, 2}" and "ch_threads (tw_chan w q) = [TH_receive]"
  shows "\<exists>t. steps th_step 3 w t \<and> ch_threads (tw_chan t q) = [] \<and> ch_msgs (tw_chan t q) = tl (ch_msgs (tw_chan w q)) \<and>
    printed q t = Suc (printed q w)"
proof -
  have step: "th_step v (thread_step q 0 v) \<and> th_inv N (thread_step q 0 v) \<and> chan_ok (sender_message q) (tw_chan v q)"
    if "th_inv N v" "ch_threads (tw_chan v q) = [pc]" for v pc
    using that assms(2) th_handler [of v q 0] thread_inv [of N v q 0] th_invD [of N v q]
    by (simp add: th_inv_def queue_inv_def)
  let ?n = "length (sender_message q)"
  let ?t1 = "thread_step q 0 w" let ?t2 = "thread_step q 0 ?t1" let ?t3 = "thread_step q 0 ?t2"
  note 1 = step [OF assms(1,3)]
  have t1: "ch_threads (tw_chan ?t1 q) = [TH_callback (int ?n)]" "ch_msgs (tw_chan ?t1 q) = tl (ch_msgs (tw_chan w q))"
    "printed q ?t1 = printed q w"
    by (rule one_thread_cases [of "sender_message q" w q 0]; use 1 assms(2,3) in \<open>simp add: printed_def\<close>)+
  then have 2: "th_step ?t1 ?t2 \<and> th_inv N ?t2 \<and> chan_ok (sender_message q) (tw_chan ?t1 q)"
    using step [of ?t1] 1 by simp
  have t2: "ch_threads (tw_chan ?t2 q) = [TH_notify]" "ch_msgs (tw_chan ?t2 q) = ch_msgs (tw_chan ?t1 q)"
    "printed q ?t2 = Suc (printed q ?t1)"
    by (rule one_thread_cases [of "sender_message q" ?t1 q 0]; use 2 t1(1) assms(2) in \<open>simp add: printed_def\<close>)+
  then have 3: "th_step ?t2 ?t3 \<and> chan_ok (sender_message q) (tw_chan ?t2 q)"
    using step [of ?t2] 2 by simp
  have t3: "ch_threads (tw_chan ?t3 q) = []" "ch_msgs (tw_chan ?t3 q) = ch_msgs (tw_chan ?t2 q)"
    "printed q ?t3 = printed q ?t2"
    by (rule one_thread_cases [of "sender_message q" ?t2 q 0]; use 3 t2(1) assms(2) in \<open>simp add: printed_def\<close>)+
  have "steps th_step 3 w ?t3" unfolding numeral_3_eq_3
    using 1 2 3 by (blast intro: steps.intros)
  with t1 t2 t3 show ?thesis by metis
qed

text \<open>Two messages arrive in the first queue before its handler has received the first.\<close>

lemma deaf_reachable:
  assumes "2 \<le> N"
  shows "\<exists>n s. steps th_step n (th_init N) s \<and> deaf s"
proof -
  let ?m1 = "sender_message 1" and ?m2 = "sender_message 2" and ?b = "replicate (MAX_SIZE + 1) nul"
  let ?w = "\<lambda>ms1 f1 ms2 f2 nx k. (th_init N)\<lparr>tw_chan := (\<lambda>q.
     if q = 1 then \<lparr>ch_msgs = ms1, ch_registered = f1, ch_buffer = ?b, ch_threads = if f1 then [] else [TH_receive]\<rparr>
     else if q = 2 then \<lparr>ch_msgs = ms2, ch_registered = f2, ch_buffer = ?b, ch_threads = if f2 then [] else [TH_receive]\<rparr>
     else tw_chan (th_init N) q), tw_next := nx, tw_ticks := k\<rparr>"
  note replicate.simps [simp del] and st = sender_step_def chan_send_def queue_capacity_def running_def th_init_def fun_eq_iff
  obtain k where k: "N = Suc (Suc k)" using assms by (metis add_2_eq_Suc le_Suc_ex)
  have "?w [] True [] True 1 N = th_init N" by (simp add: th_init_def fun_eq_iff)
  then have 0: "steps th_step 0 (th_init N) (?w [] True [] True 1 N)" using steps_none by metis
  have 1: "steps th_step (Suc 0) (th_init N) (?w [?m1] False [] True 2 N)"
    by (rule steps_snoc [OF 0], rule th_sender) (simp_all add: st k)
  have 2: "steps th_step (Suc (Suc 0)) (th_init N) (?w [?m1] False [?m2] False 1 (N - 1))"
    by (rule steps_snoc [OF 1], rule th_sender) (simp_all add: st k)
  have 3: "steps th_step (Suc (Suc (Suc 0))) (th_init N) (?w [?m1, ?m1] False [?m2] False 2 (N - 1))"
    by (rule steps_snoc [OF 2], rule th_sender) (simp_all add: st k)
  have inv: "th_inv N (?w [?m1, ?m1] False [?m2] False 2 (N - 1))" by (rule th_run(1) [OF 3 th_inv_init])
  from handler_run [OF inv, of 1] obtain s where s: "steps th_step 3 (?w [?m1, ?m1] False [?m2] False 2 (N - 1)) s"
    "ch_threads (tw_chan s 1) = []" "ch_msgs (tw_chan s 1) = [?m1]" "printed 1 s = 1"
    by (auto simp: printed_def th_init_def)
  have "deaf s" unfolding deaf_def using s by simp
  with steps_append [OF 3 s(1)] show ?thesis by blast
qed

section \<open>The rested sender\<close>

definition rested_chan :: "mq_chan \<Rightarrow> bool" where
  "rested_chan c \<longleftrightarrow> (if ch_threads c = [TH_receive] then length (ch_msgs c) = 1 else ch_msgs c = [])"

definition rested_inv :: "nat \<Rightarrow> th_world \<Rightarrow> bool" where
  "rested_inv N w \<longleftrightarrow> th_inv N w \<and> rested_chan (tw_chan w 1) \<and> rested_chan (tw_chan w 2)"

definition rested_ended :: "th_world \<Rightarrow> bool" where
  "rested_ended w \<longleftrightarrow> ch_threads (tw_chan w 1) = [] \<and> ch_threads (tw_chan w 2) = [] \<and> tw_ticks w = 0"

lemma rested_th_step: "rested_step w t \<Longrightarrow> th_step w t"
  by (auto elim!: rested_step.cases intro: th_sender th_handler)

lemma rested_handler_chan:
  assumes "rested_inv N w" and "q \<in> {1, 2}" and "i < length (ch_threads (tw_chan w q))" and "q' \<in> {1, 2}"
  shows "rested_chan (tw_chan (thread_step q i w) q')"
proof -
  have "queue_inv N q w" using assms(1,2) by (auto simp: rested_inv_def th_inv_def)
  then have ok: "chan_ok (sender_message q) (tw_chan w q)" by (simp add: queue_inv_def)
  have r: "rested_chan (tw_chan w q)" "rested_chan (tw_chan w q')" using assms(1,2,4) by (auto simp: rested_inv_def)
  from ok refl assms(2,3) show ?thesis
  proof (cases rule: one_thread_cases)
    case receive
    have "tl (ch_msgs (tw_chan w q)) = []" using r(1) receive(1) by (cases "ch_msgs (tw_chan w q)") (auto simp: rested_chan_def)
    with r receive show ?thesis by (simp add: rested_chan_def)
  next
    case callback
    with r show ?thesis by (simp add: rested_chan_def)
  next
    case renew
    with r show ?thesis by (simp add: rested_chan_def)
  qed
qed

lemma rested_sender_chan:
  assumes "rested_inv N w" and "ch_msgs (tw_chan w (tw_next w)) = []" and "ch_registered (tw_chan w (tw_next w))"
    and "sender_step w = Some w'" and "q \<in> {1, 2}"
  shows "rested_chan (tw_chan w' q)"
  using assms(4)
proof (rule sender_cases)
  fix c assume c: "chan_send (sender_message (tw_next w)) (tw_chan w (tw_next w)) = Some c"
    and w': "w' = w\<lparr>tw_chan := (tw_chan w)(tw_next w := c), tw_next := (if tw_next w = 1 then 2 else 1),
       tw_ticks := (if tw_next w = 1 then tw_ticks w else tw_ticks w - 1)\<rparr>"
  have "tw_next w \<in> {1, 2}" and inv: "th_inv N w" using assms(1) by (simp_all add: rested_inv_def th_inv_def)
  then have "chan_ok (sender_message (tw_next w)) (tw_chan w (tw_next w))"
    using th_invD [OF inv] by (simp add: queue_inv_def)
  then have "ch_threads (tw_chan w (tw_next w)) = []" using assms(3) by (simp add: chan_ok_def)
  then have "rested_chan c" using c assms(2,3) by (auto simp: chan_send_def Let_def rested_chan_def split: if_splits)
  moreover have "rested_chan (tw_chan w q)" using assms(1,5) by (auto simp: rested_inv_def)
  ultimately show ?thesis by (simp add: w')
qed

lemma rested_inv_step:
  assumes "rested_inv N w" and "rested_step w t"
  shows "rested_inv N t"
proof -
  have "th_inv N t" using assms rested_th_step th_inv_step by (auto simp: rested_inv_def)
  moreover from assms(2) have "rested_chan (tw_chan t q)" if "q \<in> {1, 2}" for q
    by cases (use rested_sender_chan [OF assms(1)] rested_handler_chan [OF assms(1)] that in blast)+
  ultimately show ?thesis by (simp add: rested_inv_def)
qed

lemma rested_progress:
  assumes "rested_inv N w" and "\<not> rested_ended w"
  shows "\<exists>t. rested_step w t"
proof -
  have run: "running w" and nx: "tw_next w \<in> {1, 2}" and inv: "th_inv N w"
    using assms(1) by (simp_all add: rested_inv_def th_inv_def)
  show ?thesis
  proof (cases "ch_threads (tw_chan w 1) = [] \<and> ch_threads (tw_chan w 2) = []")
    case False
    then have "0 < length (ch_threads (tw_chan w 1)) \<or> 0 < length (ch_threads (tw_chan w 2))" by simp
    with rested_handler [OF run, of 1 0] rested_handler [OF run, of 2 0] show ?thesis by auto
  next
    case True
    then have th: "ch_threads (tw_chan w (tw_next w)) = []" using nx by auto
    have "queue_inv N (tw_next w) w" by (rule th_invD [OF inv nx])
    then have reg: "ch_registered (tw_chan w (tw_next w))" using th by (auto simp: queue_inv_def chan_ok_def split: if_splits)
    have "rested_chan (tw_chan w (tw_next w))" using assms(1) nx by (auto simp: rested_inv_def)
    then have ms: "ch_msgs (tw_chan w (tw_next w)) = []" using th by (simp add: rested_chan_def)
    have "tw_ticks w \<noteq> 0" using True assms(2) by (simp add: rested_ended_def)
    then have "\<exists>t. sender_step w = Some t" by (simp add: sender_step_def chan_send_def Let_def ms queue_capacity_def)
    with rested_sender [OF run ms reg] show ?thesis by blast
  qed
qed

lemma rested_thread_program:
  "thread_program (th_init N) rested_step (\<lambda>_ _. False) (rested_inv N) th_rank rested_ended"
proof
  show "rested_inv N (th_init N)"
    by (simp add: rested_inv_def th_inv_init) (simp add: rested_chan_def th_init_def)
  show "th_rank t < th_rank w" if "rested_inv N w" "rested_step w t" for w t
    using that rested_th_step th_rank_step by (auto simp: rested_inv_def)
qed (auto intro: rested_inv_step rested_progress)

section \<open>Properties\<close>

text \<open>
  C13. The threads of the message-queue program under every schedule, for any number \<open>N\<close> of rounds of
  the sender. At any time a queue has at most one handler thread, and none exactly when the process is
  registered; so no two threads share the buffer, a callback finds in it the message its thread
  received, and no \<open>mq_notify\<close> fails and closes the queues. Each queue's messages
  are printed in full by its own callback, each at most once: those printed, in hand, queued and still
  to be sent add up to \<open>N\<close>. Every run of the rounds takes at most \<open>8 * N\<close> steps, and can stop only
  when all handlers have finished and the sender is done or waits for a full queue.
\<close>

theorem mq_handlers_exclusive:
  assumes "steps th_step n (th_init N) w" and "q \<in> {1, 2}"
  shows "n \<le> 8 * N \<and> tw_fault w = None \<and> \<not> tw_closing w \<and>
    length (ch_threads (tw_chan w q)) \<le> 1 \<and>
    (ch_registered (tw_chan w q) \<longleftrightarrow> ch_threads (tw_chan w q) = []) \<and>
    (\<forall>k. ch_threads (tw_chan w q) = [TH_callback k] \<longrightarrow>
       k = int (length (sender_message q)) \<and> c_str (ch_buffer (tw_chan w q)) = sender_message q) \<and>
    set (tw_out w) \<subseteq> {(1, ''Hello MQ one''), (2, ''Hello MQ two'')} \<and>
    printed q w + in_hand (tw_chan w q) + length (ch_msgs (tw_chan w q)) + remaining q w = N \<and>
    (stuck th_step w \<longrightarrow> ch_threads (tw_chan w q) = [] \<and>
       (tw_ticks w = 0 \<or> length (ch_msgs (tw_chan w (tw_next w))) = queue_capacity))"
proof -
  note run = th_run [OF assms(1) th_inv_init]
  have inv: "th_inv N w" by (rule run(1))
  have n: "n \<le> 8 * N" using run(3) th_rank_init [of N] by linarith
  from th_invD [OF inv assms(2)] have ok: "chan_ok (sender_message q) (tw_chan w q)"
    and sum: "printed q w + in_hand (tw_chan w q) + length (ch_msgs (tw_chan w q)) + remaining q w = N"
    by (simp_all add: queue_inv_def)
  have one: "length (ch_threads (tw_chan w q)) \<le> 1" "ch_registered (tw_chan w q) \<longleftrightarrow> ch_threads (tw_chan w q) = []"
    using ok by (auto simp: chan_ok_def split: if_splits)
  have am: "c_str (after_message (sender_message q)) = sender_message q"
    using after_message_props(4) [of "sender_message q" "sender_message q"] sender_message_props [of q]
      c_str_prefix [of "sender_message q" "drop (length (sender_message q)) (after_message (sender_message q))"]
    by (simp add: after_message_def)
  have cb: "\<forall>k. ch_threads (tw_chan w q) = [TH_callback k] \<longrightarrow>
      k = int (length (sender_message q)) \<and> c_str (ch_buffer (tw_chan w q)) = sender_message q"
    using ok am by (auto simp: chan_ok_def split: if_splits)
  have out: "set (tw_out w) \<subseteq> {(1, ''Hello MQ one''), (2, ''Hello MQ two'')}"
    using inv by (auto simp: th_inv_def sender_message_def)
  have "tw_fault w = None \<and> \<not> tw_closing w" using inv by (simp add: th_inv_def running_def)
  moreover have "stuck th_step w \<longrightarrow> ch_threads (tw_chan w q) = [] \<and>
      (tw_ticks w = 0 \<or> length (ch_msgs (tw_chan w (tw_next w))) = queue_capacity)"
    using run(2) assms(2) by (auto simp: th_ended_def)
  ultimately show ?thesis using n one cb out sum by blast
qed

theorem mq_handlers_exclusive_witness:
  "\<exists>w. steps th_step 1 (th_init 3) w \<and> length (ch_threads (tw_chan w 1)) \<le> 1 \<and>
    printed 1 w + in_hand (tw_chan w 1) + length (ch_msgs (tw_chan w 1)) + remaining 1 w = 3"
proof -
  have "running (th_init 3)" "\<exists>w. sender_step (th_init 3) = Some w"
    by (simp_all add: running_def sender_step_def chan_send_def queue_capacity_def th_init_def del: replicate.simps)
  then obtain w where "th_step (th_init 3) w" by (blast intro: th_sender)
  then have st: "steps th_step 1 (th_init 3) w" by (simp add: steps.intros)
  from mq_handlers_exclusive [OF this, of 1] st show ?thesis by blast
qed

text \<open>
  C26. The program can hang for good. There is a schedule, the one in which the second message reaches the
  first queue before its handler has received the first, after which the first queue's callback never
  runs again; at most eleven messages of the second are printed, and however many rounds the sender is to
  make, it ends up waiting in \<open>mq_send\<close> for a full queue, with no thread left to empty it.
\<close>

theorem mq_sender_hangs:
  assumes "queue_capacity + 2 \<le> N"
  shows "\<exists>n s. steps th_step n (th_init N) s \<and>
    (\<forall>k t. steps th_step k s t \<longrightarrow> printed 1 t = 1 \<and> printed 2 t \<le> queue_capacity + 1 \<and> 0 < tw_ticks t \<and>
       (stuck th_step t \<longrightarrow> length (ch_msgs (tw_chan t (tw_next t))) = queue_capacity \<and>
          ch_threads (tw_chan t 1) = [] \<and> ch_threads (tw_chan t 2) = []) \<and>
       (\<exists>j u. steps th_step j t u \<and> stuck th_step u))"
proof -
  have "2 \<le> N" using assms by (simp add: queue_capacity_def)
  from deaf_reachable [OF this] obtain n s where s: "steps th_step n (th_init N) s" "deaf s" by blast
  have inv: "th_inv N s" by (rule th_run(1) [OF s(1) th_inv_init])
  have "printed 1 t = 1 \<and> printed 2 t \<le> queue_capacity + 1 \<and> 0 < tw_ticks t \<and>
       (stuck th_step t \<longrightarrow> length (ch_msgs (tw_chan t (tw_next t))) = queue_capacity \<and>
          ch_threads (tw_chan t 1) = [] \<and> ch_threads (tw_chan t 2) = []) \<and>
       (\<exists>j u. steps th_step j t u \<and> stuck th_step u)" if "steps th_step k s t" for k t
  proof -
    have d: "deaf t" by (rule deaf_steps [OF that inv s(2)])
    note b = deaf_blocks [OF th_run(1) [OF that inv] d assms]
    have "stuck th_step t \<longrightarrow> length (ch_msgs (tw_chan t (tw_next t))) = queue_capacity \<and>
        ch_threads (tw_chan t 1) = [] \<and> ch_threads (tw_chan t 2) = []"
      using th_run(2) [OF that inv] b(1) by (auto simp: th_ended_def)
    with b d th_run(4) [OF that inv] show ?thesis unfolding deaf_def by blast
  qed
  with s(1) show ?thesis by blast
qed

theorem mq_sender_hangs_witness:
  "\<exists>n t. steps th_step n (th_init 100) t \<and> stuck th_step t \<and> printed 1 t = 1 \<and> 0 < tw_ticks t"
proof -
  have "queue_capacity + 2 \<le> 100" by (simp add: queue_capacity_def)
  from mq_sender_hangs [OF this] steps_none steps_append show ?thesis by metis
qed

text \<open>
  C27. When the sender's sleep is long enough for the handlers to finish, so that it writes to a queue only
  when the previous message has been handled, every run of \<open>N\<close> rounds ends, within \<open>8 * N\<close> steps, and
  then each callback has printed its message \<open>N\<close> times and both queues are empty.
\<close>

theorem mq_rested_delivers:
  assumes "steps rested_step n (th_init N) w"
  shows "n \<le> 8 * N \<and> (\<exists>k u. steps rested_step k w u \<and> stuck rested_step u) \<and>
    (stuck rested_step w \<longrightarrow> tw_ticks w = 0 \<and> printed 1 w = N \<and> printed 2 w = N \<and>
       ch_msgs (tw_chan w 1) = [] \<and> ch_msgs (tw_chan w 2) = [] \<and>
       set (tw_out w) \<subseteq> {(1, ''Hello MQ one''), (2, ''Hello MQ two'')})"
proof -
  note tp = rested_thread_program [of N]
  have inv: "rested_inv N w" and rk: "n + th_rank w \<le> th_rank (th_init N)"
    using thread_program.steps_inv_rank [OF tp assms thread_program.inv_init [OF tp]] by simp_all
  have n: "n \<le> 8 * N" using rk th_rank_init [of N] by linarith
  have "tw_ticks w = 0 \<and> printed 1 w = N \<and> printed 2 w = N \<and> ch_msgs (tw_chan w 1) = [] \<and> ch_msgs (tw_chan w 2) = []"
    if "stuck rested_step w"
  proof -
    have e: "rested_ended w" using thread_program.progress [OF tp inv] that by (auto simp: stuck_def)
    then have "ch_msgs (tw_chan w 1) = []" "ch_msgs (tw_chan w 2) = []" "in_hand (tw_chan w 1) = 0" "in_hand (tw_chan w 2) = 0"
      using inv by (simp_all add: rested_inv_def rested_chan_def rested_ended_def in_hand_def)
    moreover have "queue_inv N 1 w" "queue_inv N 2 w" using inv by (simp_all add: rested_inv_def th_inv_def)
    moreover have "remaining 1 w = 0" "remaining 2 w = 0" using e by (simp_all add: rested_ended_def remaining_def)
    ultimately show ?thesis using e by (simp add: queue_inv_def rested_ended_def)
  qed
  moreover have "set (tw_out w) \<subseteq> {(1, ''Hello MQ one''), (2, ''Hello MQ two'')}"
    using inv by (auto simp: rested_inv_def th_inv_def sender_message_def)
  ultimately show ?thesis using n thread_program.runs_to_end [OF tp inv] by blast
qed

theorem mq_rested_delivers_witness:
  "\<exists>n w. steps rested_step n (th_init 2) w \<and> printed 1 w = 2 \<and> printed 2 w = 2"
proof -
  from mq_rested_delivers [OF steps_none] obtain k u where u: "steps rested_step k (th_init 2) u" "stuck rested_step u"
    by blast
  from mq_rested_delivers [OF u(1)] u show ?thesis by blast
qed

end
