(* ===== verification/Async_MQ_Server.thy ===== *)
theory Async_MQ_Server
  imports MQ_Threads
begin

text \<open>
  The server of \<open>async_posix_message_queues\<close> as a whole: what \<open>main\<close> leaves in the list of queues, in the process
  and in the system for every outcome of the calls it makes, and what its two handlers then do.
\<close>

section \<open>The program\<close>

definition initMsgQueues_signal :: "sigaction \<Rightarrow> int \<Rightarrow> process \<Rightarrow> process" where
  "initMsgQueues_signal = initMsgQueues"

text \<open>
  What \<open>openMessageQueue\<close> does to the process, when \<open>mq_open\<close>, \<open>sigaction\<close> and \<open>fcntl\<close> return \<open>fd\<close>, \<open>act\<close>
  and \<open>own\<close>. The queue is opened with \<open>O_RDONLY | O_NONBLOCK\<close>.
\<close>

definition open_effect :: "int \<Rightarrow> int \<Rightarrow> int \<Rightarrow> process \<Rightarrow> process" where
  "open_effect fd act own p =
     (if fd = - 1 then p
      else let p1 = sys_sigaction act SIGIO (siginfo_action ''sigHandler'' SIGIO) (sys_open fd O_NONBLOCK p) in
        if act \<noteq> 0 \<or> own = - 1 then p1
        else p1\<lparr>p_owner := (p_owner p1)(fd := p_pid p1)\<rparr>)"

text \<open>\<open>main\<close> up to its endless loop. \<open>junk\<close> and \<open>ret\<close> are those of \<open>initMsgQueues\<close>.\<close>

definition async_mq_main ::
    "sigaction \<Rightarrow> int \<Rightarrow> addr \<times> addr \<times> int \<times> int \<times> int \<times> int \<Rightarrow> addr \<times> addr \<times> int \<times> int \<times> int \<times> int \<Rightarrow>
     process \<Rightarrow> (mq_server \<times> process) crun" where
  "async_mq_main = (\<lambda>junk ret (a, b, fd, act, own, note) (a', b', fd', act', own', note') p.
     let p1 = initMsgQueues_signal junk ret p in
     lbind (async_server_setup (a, b, fd, act, own, note) (a', b', fd', act', own', note')) (\<lambda>s.
       Some (Inr (s, open_effect fd' act' own' (open_effect fd act own p1)))))"

section \<open>Opening, whatever the calls return\<close>

definition usable :: "int \<Rightarrow> int \<Rightarrow> bool" where
  "usable fd act \<longleftrightarrow> fd \<noteq> - 1 \<and> act = 0"

text \<open>The node that is left, and what the system was told.\<close>

definition left_node :: "addr \<Rightarrow> int \<Rightarrow> int \<Rightarrow> mq_info" where
  "left_node b fd act = zero_mq\<lparr>mq_name := b, mq_fd := fd, mq_ev_set := usable fd act\<rparr>"

definition open_event :: "int \<Rightarrow> int \<Rightarrow> int \<Rightarrow> string \<Rightarrow> mq_event" where
  "open_event fd act note name = (if usable fd act \<and> 0 \<le> note then Notified fd else Unlinked name)"

lemma open_any:
  assumes "mq_list s as" and "a \<notin> set (mq_head # as)" and "a \<noteq> NULL" and "b \<noteq> NULL" and "own \<noteq> - 1"
    and "mqs_nodes s (last (mq_head # as)) = Some n"
  shows "openMessageQueue a b fd act own note name s = Some (Inr
    (if usable fd act \<and> 0 \<le> note then 0 else - 1, mq_did [open_event fd act note name]
      (s\<lparr>mqs_nodes := (mqs_nodes s)(a \<mapsto> left_node b fd act, last (mq_head # as) \<mapsto> n\<lparr>mq_next := a\<rparr>),
         mqs_strs := (mqs_strs s)(b \<mapsto> name @ [nul])\<rparr>)))"
proof -
  let ?it = "last (mq_head # as)"
  have c: "chain mq_next (mqs_nodes s) mq_head (mq_head # as)" using assms(1) by (simp add: mq_list_def)
  have it: "?it \<noteq> NULL" "?it \<noteq> a" using chain_last [OF c] assms(2) by metis+
  have ln: "last_node mq_next (mqs_nodes s) mq_head = Some (Inr ?it)" using c by (rule last_node_chain)
  show ?thesis
    using it assms(3-6) strcpy_fill [of name]
    by (simp add: openMessageQueue_def ln Let_def fun_upd_twist left_node_def open_event_def usable_def zero_mq_def
        del: last.simps)
qed

text \<open>Every outcome appends a node; the earlier ones keep their descriptors and names.\<close>

abbreviation node_key :: "mq_server \<Rightarrow> addr \<Rightarrow> (int \<times> addr) option" where
  "node_key s p \<equiv> map_option (\<lambda>n. (mq_fd n, mq_name n)) (mqs_nodes s p)"

lemma open_any_list:
  assumes "mq_list s as" and "a \<notin> set (mq_head # as)" and "a \<noteq> NULL" and "b \<noteq> NULL" and "own \<noteq> - 1"
  obtains r s' where "openMessageQueue a b fd act own note name s = Some (Inr (r, s'))"
    "mq_list s' (as @ [a])" "mqs_log s' = mqs_log s @ [open_event fd act note name]"
    "mqs_strs s' = (mqs_strs s)(b \<mapsto> name @ [nul])" "node_key s' a = Some (fd, b)"
    "\<forall>p. p \<noteq> a \<longrightarrow> node_key s' p = node_key s p"
proof -
  have c: "chain mq_next (mqs_nodes s) mq_head (mq_head # as)" using assms(1) by (simp add: mq_list_def)
  then obtain n where n: "mqs_nodes s (last (mq_head # as)) = Some n" "last (mq_head # as) \<in> set (mq_head # as)"
    by (rule chain_last)
  define it where "it = last (mq_head # as)"
  have ne: "it \<noteq> a" using n(2) assms(2) unfolding it_def by metis
  define H where "H = (mqs_nodes s)(a \<mapsto> left_node b fd act, it \<mapsto> n\<lparr>mq_next := a\<rparr>)"
  have l: "chain mq_next H mq_head (mq_head # as @ [a])"
    unfolding H_def by (rule mq.chain_snoc [OF c assms(2,3)])
      (use ne assms(2) in \<open>auto simp: left_node_def zero_mq_def it_def [symmetric] simp del: last.simps\<close>)
  moreover have "map_option (\<lambda>n. (mq_fd n, mq_name n)) (H p) = node_key s p" if "p \<noteq> a" for p
    using that n(1) by (simp add: H_def it_def del: last.simps)
  moreover have "map_option (\<lambda>n. (mq_fd n, mq_name n)) (H a) = Some (fd, b)" using ne by (simp add: H_def left_node_def)
  ultimately show thesis
    using open_any [OF assms n(1), of fd act "note" name, folded it_def, folded H_def]
    by (intro that [of "if usable fd act \<and> 0 \<le> note then 0 else - 1" "mq_did [open_event fd act note name] (s\<lparr>mqs_nodes := H,
      mqs_strs := (mqs_strs s)(b \<mapsto> name @ [nul])\<rparr>)"]) (simp_all add: mq_list_def)
qed

lemma setup_any:
  assumes "distinct [mq_head, a, a']" and "NULL \<notin> set [a, b, a', b']" and "b \<noteq> b'" and "- 1 \<notin> {own, own'}"
  obtains s where "async_server_setup (a, b, fd, act, own, note) (a', b', fd', act', own', note') = Some (Inr s)"
    "mq_list s [a, a']" "node_key s a = Some (fd, b)" "node_key s a' = Some (fd', b')"
    "mqs_log s = [open_event fd act note ASYNC_QUEUE_NAME, open_event fd' act' note' ASYNC_QUEUE_NAME_TWO]"
    "str_at s b = Inr ASYNC_QUEUE_NAME"
proof -
  have ok1: "a \<notin> set [mq_head]" "a \<noteq> NULL" "b \<noteq> NULL" "own \<noteq> - 1"
    and ok2: "a' \<notin> set [mq_head, a]" "a' \<noteq> NULL" "b' \<noteq> NULL" "own' \<noteq> - 1" and ne: "a \<noteq> a'"
    using assms by auto
  obtain s1 r1 where s1: "openMessageQueue a b fd act own note ASYNC_QUEUE_NAME mqs_zero = Some (Inr (r1, s1))"
    "mq_list s1 ([] @ [a])" "mqs_log s1 = mqs_log mqs_zero @ [open_event fd act note ASYNC_QUEUE_NAME]"
    "mqs_strs s1 = (mqs_strs mqs_zero)(b \<mapsto> ASYNC_QUEUE_NAME @ [nul])" "node_key s1 a = Some (fd, b)"
    by (rule open_any_list [OF mq_list_zero ok1])
  have l1: "mq_list s1 [a]" using s1(2) by simp
  obtain s2 r2 where s2: "openMessageQueue a' b' fd' act' own' note' ASYNC_QUEUE_NAME_TWO s1 = Some (Inr (r2, s2))"
    "mq_list s2 ([a] @ [a'])" "mqs_log s2 = mqs_log s1 @ [open_event fd' act' note' ASYNC_QUEUE_NAME_TWO]"
    "mqs_strs s2 = (mqs_strs s1)(b' \<mapsto> ASYNC_QUEUE_NAME_TWO @ [nul])"
    "node_key s2 a' = Some (fd', b')" "\<forall>p. p \<noteq> a' \<longrightarrow> node_key s2 p = node_key s1 p"
    by (rule open_any_list [OF l1 ok2])
  have "is_cstring ASYNC_QUEUE_NAME" by (simp add: ASYNC_QUEUE_NAME_def is_cstring_def nul_def)
  then have "str_at s2 b = Inr ASYNC_QUEUE_NAME"
    using assms(2,3) s1(4) s2(4) by (simp add: str_at_def str_simps)
  moreover have "node_key s2 a = Some (fd, b)" by (rule trans [OF s2(6) [rule_format, OF ne] s1(5)])
  moreover have "async_server_setup (a, b, fd, act, own, note) (a', b', fd', act', own', note') = Some (Inr s2)"
    by (simp add: async_server_setup_def s1(1) s2(1))
  moreover have "mqs_log s2 = [open_event fd act note ASYNC_QUEUE_NAME, open_event fd' act' note' ASYNC_QUEUE_NAME_TWO]"
    by (simp add: s1(3) s2(3) mqs_zero_def)
  ultimately show thesis using s2(2,5) by (intro that [of s2]) simp_all
qed

text \<open>What the two openings do to the process.\<close>

lemma open_effect_sel [simp]:
  "p_actions (open_effect fd act own p) =
     (if usable fd act then (p_actions p)(SIGIO \<mapsto> siginfo_action ''sigHandler'' SIGIO) else p_actions p)"
  "p_open (open_effect fd act own p) = (if fd = - 1 then p_open p else fd # p_open p)"
  "p_pid (open_effect fd act own p) = p_pid p"
  "own \<noteq> - 1 \<Longrightarrow> p_owner (open_effect fd act own p) = (if usable fd act then (p_owner p)(fd := p_pid p) else p_owner p)"
  "p_flags (open_effect fd act own p) = (if fd = - 1 then p_flags p else (p_flags p)(fd := O_NONBLOCK))"
  by (simp_all add: open_effect_def usable_def sys_defs Let_def)

lemma initMsgQueues_sel [simp]:
  "p_actions (initMsgQueues_signal junk 0 p) = (p_actions p)(2 \<mapsto> junk\<lparr>sa_handler := ''closeMsgQueues''\<rparr>)"
  "p_open (initMsgQueues_signal junk ret p) = p_open p" "p_pid (initMsgQueues_signal junk ret p) = p_pid p"
  by (simp_all add: initMsgQueues_signal_def initMsgQueues_def sys_defs)

section \<open>The handlers\<close>

lemma close_faults:
  assumes "mq_list s (a # as)" and "node_key s a = Some (fd, b)" and "str_at s b = Inr name"
  shows "closeMsgQueues False 2 s = Some (Inl Bad_pointer)"
  using close_loop_uaf [OF assms(1) _ assms(3)] assms(2) by (auto simp: closeMsgQueues_def)

text \<open>
  The buffer of \<open>sigHandler\<close> is not initialised and not terminated after the message: what it prints goes up
  to the first NUL, in the message or in what was on the stack.
\<close>

lemma sigHandler_message:
  assumes "node_key s q = Some (fd, b)" and "q \<noteq> NULL" and "length junk = MAX_SIZE + 1" and "length msg \<le> MAX_SIZE"
    and "nul \<in> set (msg @ drop (length msg) junk)" and "0 \<le> note"
  shows "mq_sigHandler q junk msg note s =
    Some (Inr (mq_did [Got (c_str (msg @ drop (length msg) junk)), Notified fd] s))"
proof -
  let ?buf = "msg @ drop (length msg) junk"
  obtain n where n: "mqs_nodes s q = Some n" "mq_fd n = fd" using assms(1) by auto
  have w: "mem_write junk 0 msg = Inr ?buf" using assms(3,4) by (simp add: mem_write_def)
  have "take (length (c_str ?buf)) ?buf = c_str ?buf" unfolding c_str_def by (rule takeWhile_eq_take [symmetric])
  with c_strlen_c_str [OF assms(5)] show ?thesis using n assms(2,6) by (simp add: mq_sigHandler_def w)
qed

lemma sigHandler_unterminated:
  assumes "node_key s q = Some (fd, b)" and "q \<noteq> NULL" and "length junk = MAX_SIZE + 1" and "length msg \<le> MAX_SIZE"
    and "nul \<notin> set (msg @ drop (length msg) junk)"
  shows "mq_sigHandler q junk msg note s = Some (Inl Out_of_bounds)"
proof -
  have "mem_write junk 0 msg = Inr (msg @ drop (length msg) junk)" using assms(3,4) by (simp add: mem_write_def)
  then show ?thesis using assms(1,2) c_strlen_no_nul [OF assms(5)] by (auto simp: mq_sigHandler_def)
qed

lemma c_str_padded:
  assumes "plain_line l"
  shows "nul \<in> set (msg_of l)" and "c_str (msg_of l @ x) = l @ [CHR 0x0A]"
proof -
  have "0 < MAX_SIZE - length (l @ [CHR 0x0A])" using plain_line_fits [OF assms] by simp
  then obtain k where k: "MAX_SIZE - length (l @ [CHR 0x0A]) = Suc k" using gr0_implies_Suc by blast
  then have e: "msg_of l = (l @ [CHR 0x0A]) @ nul # replicate k nul" by (simp add: padded_def)
  then show "nul \<in> set (msg_of l)" by simp
  have "is_cstring (l @ [CHR 0x0A])" using assms by (simp add: plain_line_def is_cstring_def nul_def)
  then have "c_str ((l @ [CHR 0x0A]) @ nul # (replicate k nul @ x)) = l @ [CHR 0x0A]" by (rule c_str_append)
  then show "c_str (msg_of l @ x) = l @ [CHR 0x0A]" unfolding e by simp
qed

lemma sigHandler_closes:
  assumes "mq_list s (a # as)" and "node_key s a = Some k" and "str_at s (snd k) = Inr name"
    and "node_key s q = Some (fd, b)" and "q \<noteq> NULL" and "length junk = MAX_SIZE + 1" and "plain_line l" and "note < 0"
  shows "mq_sigHandler q junk (msg_of l) note s = Some (Inl Bad_pointer)"
proof -
  let ?buf = "msg_of l @ drop MAX_SIZE junk"
  obtain n where n: "mqs_nodes s q = Some n" using assms(4) by auto
  have w: "mem_write junk 0 (msg_of l) = Inr ?buf" using assms(6) msg_length [OF assms(7)] by (simp add: mem_write_def)
  have "c_strlen ?buf = Inr (length (c_str ?buf))" using c_str_padded(1) [OF assms(7)] by (intro c_strlen_c_str) simp
  moreover have "closeMsgQueues False 2 (mq_did evs s) = Some (Inl Bad_pointer)" for evs
    using assms(1-3) by (intro close_faults [of _ a as "fst k" "snd k" name]) (simp_all add: mq_list_def str_at_def)
  ultimately show ?thesis using n assms(5,8) by (simp add: mq_sigHandler_def w)
qed

section \<open>The property\<close>

text \<open>
  C38. The server of \<open>async_posix_message_queues\<close>, for every outcome of \<open>mq_open\<close>, \<open>sigaction\<close> and \<open>mq_notify\<close>
  in \<open>openMessageQueue\<close>; the allocations and the \<open>sigaction\<close> of \<open>initMsgQueues\<close> succeed.
  \<open>main\<close> ignores the results: it always ends up waiting with both queues in its list. A queue that
  failed has been unlinked, but its node stays, and its descriptor stays open when it was opened. \<open>SIGINT\<close> goes to
  \<open>closeMsgQueues\<close>, with the mask and the flags that happened to be on the stack; \<open>SIGIO\<close> to \<open>sigHandler\<close> unless
  neither queue got that far. The handler prints every line of the client and registers the queue again; it reads
  beyond its buffer for a message of the full size without a NUL when none follows on the stack. When it cannot register
  again, and on \<open>SIGINT\<close>, the queues are to be closed, and that reads a node after freeing it.
\<close>

theorem async_mq_main_effect:
  assumes "distinct [mq_head, a, a']" and "NULL \<notin> set [a, b, a', b']" and "b \<noteq> b'" and "- 1 \<notin> {own, own'}"
    and "length buf = MAX_SIZE + 1"
  shows "\<exists>s p'. async_mq_main junk 0 (a, b, fd, act, own, note) (a', b', fd', act', own', note') p = Some (Inr (s, p')) \<and>
    mq_list s [a, a'] \<and>
    mqs_log s = [open_event fd act note ASYNC_QUEUE_NAME, open_event fd' act' note' ASYNC_QUEUE_NAME_TWO] \<and>
    p_open p' = filter (\<lambda>d. d \<noteq> - 1) [fd', fd] @ p_open p \<and>
    p_actions p' 2 = Some (junk\<lparr>sa_handler := ''closeMsgQueues''\<rparr>) \<and>
    p_actions p' SIGIO = (if usable fd act \<or> usable fd' act' then Some (siginfo_action ''sigHandler'' SIGIO) else p_actions p SIGIO) \<and>
    (\<forall>(q, d)\<in>{(a, fd), (a', fd')}.
       (\<forall>l. plain_line l \<longrightarrow>
          mq_sigHandler q buf (msg_of l) 0 s = Some (Inr (mq_did [Got (l @ [CHR 0x0A]), Notified d] s)) \<and>
          mq_sigHandler q buf (msg_of l) (- 1) s = Some (Inl Bad_pointer)) \<and>
       (\<forall>m r. length m = MAX_SIZE \<longrightarrow> nul \<notin> set (m @ drop MAX_SIZE buf) \<longrightarrow> mq_sigHandler q buf m r s = Some (Inl Out_of_bounds))) \<and>
    closeMsgQueues False 2 s = Some (Inl Bad_pointer)"
proof -
  from setup_any [OF assms(1-4), of fd act "note" fd' act' note'] obtain s where
    s: "async_server_setup (a, b, fd, act, own, note) (a', b', fd', act', own', note') = Some (Inr s)"
    "mq_list s [a, a']" "node_key s a = Some (fd, b)" "node_key s a' = Some (fd', b')"
    "mqs_log s = [open_event fd act note ASYNC_QUEUE_NAME, open_event fd' act' note' ASYNC_QUEUE_NAME_TWO]"
    "str_at s b = Inr ASYNC_QUEUE_NAME" by blast
  let ?p = "open_effect fd' act' own' (open_effect fd act own (initMsgQueues_signal junk 0 p))"
  have main: "async_mq_main junk 0 (a, b, fd, act, own, note) (a', b', fd', act', own', note') p = Some (Inr (s, ?p))"
    by (simp add: async_mq_main_def s(1) Let_def)
  have handler: "(plain_line l \<longrightarrow>
        mq_sigHandler q buf (msg_of l) 0 s = Some (Inr (mq_did [Got (l @ [CHR 0x0A]), Notified d] s)) \<and>
        mq_sigHandler q buf (msg_of l) (- 1) s = Some (Inl Bad_pointer)) \<and>
      (length m = MAX_SIZE \<longrightarrow> nul \<notin> set (m @ drop MAX_SIZE buf) \<longrightarrow> mq_sigHandler q buf m r s = Some (Inl Out_of_bounds))"
    if q: "node_key s q = Some (d, c)" "q \<noteq> NULL" for q d c l m r
    using sigHandler_message [OF q assms(5), of "msg_of l" 0] c_str_padded [of l] msg_length [of l]
      sigHandler_closes [OF s(2,3) _ q assms(5), of ASYNC_QUEUE_NAME l "- 1"] s(6)
      sigHandler_unterminated [OF q assms(5), of m r]
    by simp
  have "a \<noteq> NULL" "a' \<noteq> NULL" using assms(2) by auto
  note handler' = handler [OF s(3) this(1)] handler [OF s(4) this(2)]
  have close: "closeMsgQueues False 2 s = Some (Inl Bad_pointer)" by (rule close_faults [OF s(2,3,6)])
  show ?thesis
    by (rule exI [of _ s], rule exI [of _ ?p]) (use main s(2,5) close handler' in \<open>simp add: SIGIO_def\<close>)
qed

theorem async_mq_main_effect_witness:
  "\<exists>s p'. async_mq_main \<lparr>sa_handler = [], sa_mask = {15}, sa_flags = 1\<rparr> 0 (64, 128, - 1, 0, 0, 0) (96, 160, 4, 0, 0, 0) (p_start 77) =
      Some (Inr (s, p')) \<and> mq_list s [64, 96] \<and> p_open p' = [4] \<and> mqs_log s = [Unlinked ASYNC_QUEUE_NAME, Notified 4] \<and>
    closeMsgQueues False 2 s = Some (Inl Bad_pointer)"
proof -
  have h: "distinct [mq_head, 64, 96]" "NULL \<notin> set [64, 128, 96, 160]" "(128 :: addr) \<noteq> 160" "- 1 \<notin> {0, 0 :: int}"
    "length (replicate (MAX_SIZE + 1) nul) = MAX_SIZE + 1" by (simp_all add: mq_head_def)
  show ?thesis
    using async_mq_main_effect [OF h, of "\<lparr>sa_handler = [], sa_mask = {15}, sa_flags = 1\<rparr>" "- 1" 0 0 4 0 0 "p_start 77"]
    by (auto simp: open_event_def usable_def p_start_def)
qed

end
