(* ===== verification/Sockets.thy ===== *)
theory Sockets
  imports Signal_IO
begin

text \<open>
  The receive loops of the socket programs: \<open>TCP_sockets\<close> (an echo server, a server with one thread
  per connection, a client), \<open>async_TCP\<close>, \<open>async_TCP_multithread\<close> and \<open>async_UDP\<close>. All read into an
  array of 2000 bytes that is not initialised and treat its contents as a string. What the socket
  calls return and what arrives are parameters; a loop that waits for more data forever is \<open>None\<close>.
\<close>

section \<open>The receive loop\<close>

definition BUFFER_LENGTH :: nat where
  "BUFFER_LENGTH = 2000"

text \<open>What \<open>recv\<close> returns: bytes, 0 at the end of the connection, or -1.\<close>

datatype recv_result = Data "char list" | Disconnected | Recv_failed

text \<open>What a program does with what it got.\<close>

datatype sock_event = Printed string | Wrote string | Ended recv_result | Closed

text \<open>
  \<open>while ((read_size = recv(\<dots>)) > 0) { printf(\<dots>); write(\<dots>); memset(client_message, 0,
  strlen(client_message)); }\<close>, with or without the \<open>printf\<close> and the \<open>write\<close>.
\<close>

fun recv_loop :: "bool \<Rightarrow> bool \<Rightarrow> recv_result list \<Rightarrow> char list \<Rightarrow> sock_event list \<Rightarrow> sock_event list crun" where
  "recv_loop prints echoes [] buf out = None"
| "recv_loop prints echoes (Disconnected # rs) buf out = Some (Inr (out @ [Ended Disconnected]))"
| "recv_loop prints echoes (Recv_failed # rs) buf out = Some (Inr (out @ [Ended Recv_failed]))"
| "recv_loop prints echoes (Data m # rs) buf out =
     (if m = [] then Some (Inr (out @ [Ended Disconnected]))
      else case cbind (mem_write buf 0 m) (\<lambda>buf1. cbind (c_strlen buf1) (\<lambda>n.
             cbind (c_memset0 buf1 n) (\<lambda>buf2. Inr (take n buf1, buf2)))) of
        Inl e \<Rightarrow> Some (Inl e)
      | Inr (s, buf2) \<Rightarrow>
          recv_loop prints echoes rs buf2
            (out @ (if prints then [Printed s] else []) @ (if echoes then [Wrote s] else [])))"

text \<open>
  \<open>server.c\<close>: the arguments are what \<open>socket\<close>, \<open>bind\<close> and \<open>accept\<close> return, what arrives, and the
  array's initial contents.
\<close>

definition tcp_server_main :: "int \<Rightarrow> int \<Rightarrow> int \<Rightarrow> recv_result list \<Rightarrow> char list \<Rightarrow> (int \<times> sock_event list) crun" where
  "tcp_server_main sock bound client rs junk =
     (if sock = - 1 then Some (Inl (Exit_status 1))
      else if bound < 0 then Some (Inr (1, []))
      else if client < 0 then Some (Inr (1, []))
      else lbind (recv_loop True True rs junk []) (\<lambda>out. Some (Inr (0, out))))"

text \<open>
  The connection handler of \<open>multi_server.c\<close>: a greeting, the loop, and then \<open>free\<close> of the pointer
  it was given, which \<open>main\<close> took from its own local variable: \<open>on_heap\<close> says whether the pointer
  came from an allocation.
\<close>

definition greeting :: string where
  "greeting = ''Hello I am your connection handler'' @ [CHR 0x0A]"

definition multi_connection_handler :: "bool \<Rightarrow> recv_result list \<Rightarrow> char list \<Rightarrow> sock_event list crun" where
  "multi_connection_handler on_heap rs junk =
     lbind (recv_loop True True rs junk [Wrote greeting]) (\<lambda>out.
       Some (if on_heap then Inr out else Inl Bad_pointer))"

definition multi_server_thread :: "recv_result list \<Rightarrow> char list \<Rightarrow> sock_event list crun" where
  "multi_server_thread rs junk = multi_connection_handler False rs junk"

text \<open>\<open>async_TCP\<close>: the signal handler accepts one connection and prints what arrives.\<close>

definition async_tcp_handler :: "int \<Rightarrow> recv_result list \<Rightarrow> char list \<Rightarrow> sock_event list crun" where
  "async_tcp_handler client_fd rs junk =
     (if client_fd < 0 then Some (Inr [])
      else lbind (recv_loop True False rs junk []) (\<lambda>out. Some (Inr (out @ [Closed]))))"

text \<open>\<open>async_TCP_multithread\<close>: one thread per connection, which echoes.\<close>

definition async_multi_handler :: "recv_result list \<Rightarrow> char list \<Rightarrow> sock_event list crun" where
  "async_multi_handler rs junk =
     lbind (recv_loop False True rs junk []) (\<lambda>out. Some (Inr (out @ [Closed])))"

text \<open>\<open>async_UDP\<close>: the callback that \<open>main\<close> registers prints what arrives.\<close>

definition socketCallback :: "recv_result list \<Rightarrow> char list \<Rightarrow> sock_event list crun" where
  "socketCallback rs junk = recv_loop True False rs junk []"

text \<open>
  \<open>client.c\<close>: each round reads a word of input without a bound into an array of 1999 bytes (at the
  end of the input the array keeps the previous word), sends it, and prints the reply. \<open>sent_ok\<close> is
  whether \<open>send\<close> succeeds in that round.
\<close>

fun client_rounds :: "string list \<Rightarrow> (bool \<times> recv_result) list \<Rightarrow> char list \<Rightarrow> char list \<Rightarrow>
    sock_event list \<Rightarrow> (int \<times> sock_event list) crun" where
  "client_rounds ws [] cbuf sbuf out = None"
| "client_rounds ws ((sent_ok, r) # rs) cbuf sbuf out =
     (case cbind (case ws of [] \<Rightarrow> Inr cbuf | w # _ \<Rightarrow> c_strcpy cbuf 0 w) (\<lambda>cbuf1.
             cbind (c_strlen cbuf1) (\<lambda>n. Inr (cbuf1, take n cbuf1))) of
        Inl e \<Rightarrow> Some (Inl e)
      | Inr (cbuf1, msg) \<Rightarrow>
          if \<not> sent_ok then Some (Inr (1, out))
          else if r = Recv_failed then Some (Inr (0, out @ [Wrote msg, Closed]))
          else (case cbind (mem_write sbuf 0 (case r of Data m \<Rightarrow> m | _ \<Rightarrow> [])) (\<lambda>sbuf1.
                      cbind (c_strlen sbuf1) (\<lambda>k. cbind (c_memset0 sbuf1 k) (\<lambda>sbuf2.
                        Inr (take k sbuf1, sbuf2)))) of
                  Inl e \<Rightarrow> Some (Inl e)
                | Inr (s, sbuf2) \<Rightarrow>
                    client_rounds (tl ws) rs cbuf1 sbuf2 (out @ [Wrote msg, Printed s])))"

text \<open>\<open>main\<close> of \<open>client.c\<close>; \<open>conn\<close> is what \<open>connect\<close> returns.\<close>

definition tcp_client_main :: "int \<Rightarrow> int \<Rightarrow> string list \<Rightarrow> (bool \<times> recv_result) list \<Rightarrow> char list \<Rightarrow>
    char list \<Rightarrow> (int \<times> sock_event list) crun" where
  "tcp_client_main sock conn ws rs cjunk sjunk =
     (if sock = - 1 then Some (Inl (Exit_status 1))
      else if conn < 0 then Some (Inr (1, []))
      else client_rounds ws rs cjunk sjunk [])"

end
