(* ===== verification/Echo_Replies.thy ===== *)
theory Echo_Replies
  imports Sockets "HOL-Library.Sublist"
begin

text \<open>
  What the receive loops of \<open>Sockets\<close> read: the array is not initialised and no message is terminated, so a
  program takes as the message whatever stands in the array up to the first NUL. This is the exact account of it, for
  every sequence of messages and all contents of the array.
\<close>

section \<open>The array between two messages\<close>

text \<open>
  One round of the loop. Its first \<open>z\<close> bytes have been cleared, by \<open>memset\<close> over the longest string so far; the
  others still have their initial contents.
\<close>

definition receive :: "char list \<Rightarrow> char list \<Rightarrow> (string \<times> char list) cres" where
  "receive buf m = cbind (mem_write buf 0 m) (\<lambda>buf1. cbind (c_strlen buf1) (\<lambda>n.
     cbind (c_memset0 buf1 n) (\<lambda>buf2. Inr (take n buf1, buf2))))"

definition cleared :: "char list \<Rightarrow> nat \<Rightarrow> char list" where
  "cleared junk z = replicate z nul @ drop z junk"

lemma cleared_0 [simp]: "cleared junk 0 = junk"
  by (simp add: cleared_def)

lemma cleared_length [simp]: "z \<le> length junk \<Longrightarrow> length (cleared junk z) = length junk"
  by (simp add: cleared_def)

lemma drop_cleared: "drop k (cleared junk z) = (if k < z then replicate (z - k) nul @ drop z junk else drop k junk)"
  by (simp add: cleared_def)

text \<open>The string that a message is taken for.\<close>

definition taken_for :: "char list \<Rightarrow> nat \<Rightarrow> char list \<Rightarrow> string" where
  "taken_for junk z m = (if length m < z then m else m @ c_str (drop (length m) junk))"

lemma receive_short:
  assumes "is_cstring m" and "length m < z" and "z \<le> length junk"
  shows "receive (cleared junk z) m = Inr (m, cleared junk z)"
proof -
  from assms(2) obtain k where k: "z = length m + Suc k" using less_imp_Suc_add by fastforce
  have "mem_write (cleared junk z) 0 m = Inr (m @ nul # replicate k nul @ drop z junk)"
    using assms(2,3) by (simp add: mem_write_def drop_cleared k)
  moreover have "c_strlen (m @ nul # replicate k nul @ drop z junk) = Inr (length m)"
    using assms(1) by (rule c_strlen_append)
  moreover have "replicate (length m) nul @ nul # replicate k nul @ drop z junk = cleared junk z"
    by (simp add: cleared_def k replicate_add replicate_append_same)
  ultimately show ?thesis by (simp add: receive_def c_memset0_def mem_write_def)
qed

lemma receive_long:
  assumes "is_cstring m" and "z \<le> length m" and "length m \<le> length junk" and "nul \<in> set (drop (length m) junk)"
  shows "receive (cleared junk z) m =
    (let r = m @ c_str (drop (length m) junk) in Inr (r, cleared junk (length r)))"
proof -
  let ?b = "m @ drop (length m) junk"
  let ?r = "m @ c_str (drop (length m) junk)"
  have w: "mem_write (cleared junk z) 0 m = Inr ?b" using assms(2,3) by (simp add: mem_write_def drop_cleared)
  have r: "c_str ?b = ?r" using assms(1) by (rule c_str_prefix)
  then have n: "c_strlen ?b = Inr (length ?r)" using c_strlen_c_str [of ?b] assms(4) by simp
  have le: "length ?r \<le> length ?b" using length_takeWhile_le [of "\<lambda>c. c \<noteq> nul" ?b] r by (simp only: c_str_def)
  have "drop (length ?r) ?b = drop (length ?r) junk" by (simp add: add.commute)
  then have "c_memset0 ?b (length ?r) = Inr (cleared junk (length ?r))"
    using le by (simp add: c_memset0_def mem_write_def cleared_def)
  moreover have "take (length ?r) ?b = ?r" using take_c_str [of ?b] r by simp
  ultimately show ?thesis using w n by (simp add: receive_def Let_def)
qed

lemma receive_overrun:
  assumes "is_cstring m" and "z \<le> length m" and "length m \<le> length junk" and "nul \<notin> set (drop (length m) junk)"
  shows "receive (cleared junk z) m = Inl Out_of_bounds"
proof -
  have "mem_write (cleared junk z) 0 m = Inr (m @ drop (length m) junk)"
    using assms(2,3) by (simp add: mem_write_def drop_cleared)
  moreover have "nul \<notin> set (m @ drop (length m) junk)" using assms(1,4) by (simp add: is_cstring_def)
  ultimately show ?thesis by (simp add: receive_def c_strlen_no_nul)
qed

section \<open>A sequence of messages\<close>

text \<open>A reference for the loop: what the messages are taken for, when the first \<open>z\<close> bytes have been cleared.\<close>

fun strings_read :: "char list \<Rightarrow> nat \<Rightarrow> char list list \<Rightarrow> string list" where
  "strings_read junk z [] = []"
| "strings_read junk z (m # ms) =
     (let r = taken_for junk z m in r # strings_read junk (max z (length r)) ms)"

definition overruns :: "char list \<Rightarrow> char list list \<Rightarrow> bool" where
  "overruns junk ms \<longleftrightarrow> (\<exists>m\<in>set ms. nul \<notin> set (drop (length m) junk))"

text \<open>The clearing ends at a NUL of the initial contents.\<close>

definition ends_at_nul :: "char list \<Rightarrow> nat \<Rightarrow> bool" where
  "ends_at_nul junk z \<longleftrightarrow> z = 0 \<or> z < length junk \<and> junk ! z = nul"

lemma c_str_nth: "nul \<in> set b \<Longrightarrow> length (c_str b) < length b \<and> b ! length (c_str b) = nul"
  by (induction b) (auto simp: c_str_def)

lemma taken_for_ends:
  assumes "z \<le> length m" and "length m \<le> length junk" and "nul \<in> set (drop (length m) junk)"
  shows "ends_at_nul junk (length (taken_for junk z m))"
  using c_str_nth [OF assms(3)] assms(1,2) by (auto simp: ends_at_nul_def taken_for_def)

lemma ends_at_nul_after: "ends_at_nul junk z \<Longrightarrow> k < z \<Longrightarrow> nul \<in> set (drop k junk)"
  by (force simp: ends_at_nul_def in_set_conv_nth intro: exI [of _ "z - k"])

text \<open>The events of a round.\<close>

definition round_events :: "bool \<Rightarrow> bool \<Rightarrow> string \<Rightarrow> sock_event list" where
  "round_events pr ec s = (if pr then [Printed s] else []) @ (if ec then [Wrote s] else [])"

lemma recv_loop_Data:
  assumes "m \<noteq> []"
  shows "recv_loop pr ec (Data m # rs) buf out = (case receive buf m of
      Inl e \<Rightarrow> Some (Inl e) | Inr (s, buf2) \<Rightarrow> recv_loop pr ec rs buf2 (out @ round_events pr ec s))"
  using assms by (simp add: receive_def round_events_def split: sum.split)

lemma receive_cleared:
  assumes "is_cstring m" and "length m \<le> length junk" and "ends_at_nul junk z"
  shows "receive (cleared junk z) m = (if nul \<in> set (drop (length m) junk)
      then Inr (taken_for junk z m, cleared junk (max z (length (taken_for junk z m)))) else Inl Out_of_bounds)"
    and "nul \<in> set (drop (length m) junk) \<Longrightarrow> ends_at_nul junk (max z (length (taken_for junk z m)))"
proof -
  have z: "z \<le> length junk" using assms(3) by (auto simp: ends_at_nul_def)
  show "receive (cleared junk z) m = (if nul \<in> set (drop (length m) junk)
      then Inr (taken_for junk z m, cleared junk (max z (length (taken_for junk z m)))) else Inl Out_of_bounds)"
  proof (cases "length m < z")
    case True
    then show ?thesis
      using receive_short [OF assms(1) True z] ends_at_nul_after [OF assms(3) True] by (simp add: taken_for_def max_def)
  next
    case False
    then show ?thesis
      using receive_long [OF assms(1) _ assms(2)] receive_overrun [OF assms(1) _ assms(2)]
      by (simp add: taken_for_def Let_def max_def)
  qed
  show "ends_at_nul junk (max z (length (taken_for junk z m)))" if "nul \<in> set (drop (length m) junk)"
    using taken_for_ends [OF _ assms(2) that] assms(3)
    by (cases "length m < z") (auto simp: taken_for_def max_def)
qed

lemma recv_loop_reads:
  assumes "\<forall>m\<in>set ms. m \<noteq> [] \<and> is_cstring m \<and> length m \<le> length junk" and "ends_at_nul junk z"
  shows "recv_loop pr ec (map Data ms @ Disconnected # rs) (cleared junk z) out =
    (if overruns junk ms then Some (Inl Out_of_bounds)
     else Some (Inr (out @ concat (map (round_events pr ec) (strings_read junk z ms)) @ [Ended Disconnected])))"
  using assms
proof (induction ms arbitrary: z out)
  case (Cons m ms)
  have m: "m \<noteq> []" "is_cstring m" "length m \<le> length junk" using Cons.prems(1) by auto
  note r = receive_cleared [OF m(2,3) Cons.prems(2)]
  show ?case
  proof (cases "nul \<in> set (drop (length m) junk)")
    case True
    with r Cons.IH [of "max z (length (taken_for junk z m))"] Cons.prems(1) show ?thesis
      by (simp add: recv_loop_Data [OF m(1)] overruns_def Let_def del: recv_loop.simps)
  next
    case False
    with r show ?thesis by (simp add: recv_loop_Data [OF m(1)] overruns_def del: recv_loop.simps)
  qed
qed (simp add: overruns_def)

text \<open>What each string is.\<close>

lemma strings_read_length [simp]: "length (strings_read junk z ms) = length ms"
  by (induction ms arbitrary: z) (simp_all add: Let_def)

lemma strings_read_nth:
  assumes "i < length ms"
  shows "\<exists>y. z \<le> y \<and> strings_read junk z ms ! i = taken_for junk y (ms ! i) \<and> (\<forall>j<i. length (ms ! j) \<le> y)"
  using assms
proof (induction ms arbitrary: z i)
  case (Cons m ms)
  let ?z = "max z (length (taken_for junk z m))"
  have m: "length m \<le> ?z" by (simp add: taken_for_def)
  show ?case
  proof (cases i)
    case 0
    then show ?thesis by (intro exI [of _ z]) (simp add: Let_def)
  next
    case (Suc k)
    with Cons.IH [of k ?z] Cons.prems obtain y where
      y: "?z \<le> y" "strings_read junk ?z ms ! k = taken_for junk y (ms ! k)" "\<forall>j<k. length (ms ! j) \<le> y" by auto
    have "length ((m # ms) ! j) \<le> y" if "j < i" for j
      using that y(1,3) m Suc by (cases j) auto
    then show ?thesis using y Suc by (intro exI [of _ y]) (simp add: Let_def)
  qed
qed simp

section \<open>A handler alone\<close>

text \<open>
  The same for any bytes, strings or not, and any contents of the array, round by round: what is sent back, and whether
  the array is never read beyond its end.
\<close>

fun answers :: "char list \<Rightarrow> char list list \<Rightarrow> string list" where
  "answers buf [] = []"
| "answers buf (m # ms) = (case receive buf m of Inl _ \<Rightarrow> [] | Inr (s, buf') \<Rightarrow> s # answers buf' ms)"

fun survives :: "char list \<Rightarrow> char list list \<Rightarrow> bool" where
  "survives buf [] = True"
| "survives buf (m # ms) = (case receive buf m of Inl _ \<Rightarrow> False | Inr (s, buf') \<Rightarrow> survives buf' ms)"

lemma receive_fault: "receive buf m = Inl e \<Longrightarrow> e = Out_of_bounds"
  by (cases "nul \<in> set (m @ drop (length m) buf)")
    (auto simp: receive_def mem_write_def c_memset0_def c_strlen_c_str c_strlen_no_nul split: if_splits)

text \<open>A round that does not fault: the parts the loop takes it in.\<close>

lemma receive_Inr:
  assumes "receive buf m = Inr (s, b)" and "length m \<le> length buf"
  shows "c_strlen (m @ drop (length m) buf) = Inr (length s)"
    and "c_memset0 (m @ drop (length m) buf) (length s) = Inr b"
    and "s = take (length s) (m @ drop (length m) buf)" and "length b = length buf"
proof -
  let ?b = "m @ drop (length m) buf"
  have nul: "nul \<in> set ?b"
    using assms by (cases "nul \<in> set ?b") (auto simp: receive_def mem_write_def c_strlen_no_nul split: if_splits)
  have le: "length (c_str ?b) < length ?b" using c_str_nth [OF nul] by simp
  have r: "s = c_str ?b" "c_memset0 ?b (length (c_str ?b)) = Inr b"
    using assms le take_c_str [of ?b]
    by (auto simp: receive_def mem_write_def c_memset0_def c_strlen_c_str [OF nul])
  show "c_strlen ?b = Inr (length s)" "c_memset0 ?b (length s) = Inr b" "s = take (length s) ?b"
    using r take_c_str [of ?b] by (simp_all add: c_strlen_c_str [OF nul])
  show "length b = length buf" using r(2) assms(2) le by (auto simp: c_memset0_def mem_write_def split: if_splits)
qed

lemma receive_Inl:
  assumes "receive buf m = Inl e" and "length m \<le> length buf"
  shows "c_strlen (m @ drop (length m) buf) = Inl Out_of_bounds"
proof -
  let ?b = "m @ drop (length m) buf"
  have "nul \<notin> set ?b"
  proof
    assume nul: "nul \<in> set ?b"
    from c_str_nth [OF nul] assms show False
      by (simp add: receive_def mem_write_def c_memset0_def c_strlen_c_str [OF nul])
  qed
  then show ?thesis by (rule c_strlen_no_nul)
qed

lemma recv_loop_alone:
  assumes "\<forall>m\<in>set ms. m \<noteq> []"
  shows "recv_loop pr ec (map Data ms @ Disconnected # rs) buf out = Some (if survives buf ms
    then Inr (out @ concat (map (round_events pr ec) (answers buf ms)) @ [Ended Disconnected]) else Inl Out_of_bounds)"
  using assms
proof (induction ms arbitrary: buf out)
  case (Cons m ms)
  then show ?case
    by (auto simp: recv_loop_Data simp del: recv_loop.simps split: sum.split dest: receive_fault)
qed simp

text \<open>Every message that gets an answer gets one that starts with it; without overrun every message gets one.\<close>

lemma receive_prefix:
  assumes "receive buf m = Inr (s, b)" and "is_cstring m"
  shows "prefix m s"
proof -
  have le: "length m \<le> length buf"
    using assms(1) by (auto simp: receive_def mem_write_def split: if_splits)
  have "nul \<in> set (m @ drop (length m) buf)"
    using receive_Inr(1) [OF assms(1) le] c_strlen_Inr_iff by blast
  then have "s = c_str (m @ drop (length m) buf)"
    using receive_Inr(1,3) [OF assms(1) le] take_c_str [of "m @ drop (length m) buf"] by (simp add: c_strlen_c_str)
  with c_str_prefix [OF assms(2)] show ?thesis by simp
qed

lemma answers_length: "survives buf ms \<Longrightarrow> length (answers buf ms) = length ms"
  by (induction ms arbitrary: buf) (auto split: sum.splits)

lemma answers_le: "length (answers buf ms) \<le> length ms"
  by (induction ms arbitrary: buf) (auto split: sum.splits)

lemma answers_prefix:
  "i < length (answers buf ms) \<Longrightarrow> is_cstring (ms ! i) \<Longrightarrow> prefix (ms ! i) (answers buf ms ! i)"
proof (induction ms arbitrary: buf i)
  case (Cons m ms)
  then show ?case by (cases i) (auto split: sum.splits dest: receive_prefix)
qed simp

text \<open>For strings this is the account above.\<close>

lemma one_event: "concat (map (\<lambda>s. [f s]) xs) = map f xs" for f :: "string \<Rightarrow> sock_event"
  by (induction xs) auto

lemma round_events_simps:
  "round_events True True = (\<lambda>s. [Printed s, Wrote s])" "round_events False True = (\<lambda>s. [Wrote s])"
  "round_events True False = (\<lambda>s. [Printed s])"
  by (simp_all add: round_events_def fun_eq_iff)

lemma alone_reads:
  assumes "\<forall>m\<in>set ms. m \<noteq> [] \<and> is_cstring m \<and> length m \<le> length junk"
  shows "survives junk ms \<longleftrightarrow> \<not> overruns junk ms"
    and "\<not> overruns junk ms \<Longrightarrow> answers junk ms = strings_read junk 0 ms"
proof -
  have ne: "\<forall>m\<in>set ms. m \<noteq> []" using assms by blast
  have inj: "map Wrote xs = map Wrote ys \<Longrightarrow> xs = ys" for xs ys by (rule map_injective) (auto simp: inj_on_def)
  have "(if survives junk ms then Inr (map Wrote (answers junk ms) @ [Ended Disconnected]) else Inl Out_of_bounds) =
      (if overruns junk ms then Inl Out_of_bounds else Inr (map Wrote (strings_read junk 0 ms) @ [Ended Disconnected]))"
    using recv_loop_alone [OF ne, of False True "[]" junk "[]"] recv_loop_reads [OF assms, of 0 False True "[]" "[]"]
    by (simp add: round_events_simps one_event ends_at_nul_def split: if_splits)
  then show "survives junk ms \<longleftrightarrow> \<not> overruns junk ms"
    and "\<not> overruns junk ms \<Longrightarrow> answers junk ms = strings_read junk 0 ms"
    by (auto dest: inj split: if_splits)
qed

text \<open>Where the array holds a NUL at the end of every message, the messages come back as they are.\<close>

lemma reads_exact:
  assumes "\<forall>m\<in>set ms. length m < length junk \<and> junk ! length m = nul"
  shows "\<not> overruns junk ms" and "strings_read junk z ms = ms"
proof -
  have m: "drop (length m) junk = nul # drop (Suc (length m)) junk" if "m \<in> set ms" for m
    using assms that by (metis Cons_nth_drop_Suc)
  show "\<not> overruns junk ms" using m by (auto simp: overruns_def)
  show "strings_read junk z ms = ms"
    using m by (induction ms arbitrary: z) (auto simp: taken_for_def Let_def c_str_def)
qed

text \<open>
  The handler threads of \<open>multi_server.c\<close> free a pointer to a local variable of \<open>main\<close> when the client disconnects.
\<close>

lemma multi_server_bad_free:
  assumes "\<forall>m\<in>set ms. m \<noteq> []"
  shows "multi_server_thread (map Data ms @ Disconnected # rs) junk =
    Some (Inl (if survives junk ms then Bad_pointer else Out_of_bounds))"
  by (simp add: multi_server_thread_def multi_connection_handler_def recv_loop_alone [OF assms])

section \<open>The property\<close>

text \<open>
  C28. What the echo server of \<open>TCP_sockets\<close>, a thread of \<open>async_TCP_multithread\<close> and the handler of \<open>async_TCP\<close> read,
  for any sequence of messages (strings of at most 2000 bytes each, as \<open>recv\<close> returns them) and any initial contents of
  the array. They read beyond the array exactly when no NUL follows, in the initial contents, where some
  message ends: a message of 2000 bytes always does. Otherwise every message is read as itself followed by
  what the array held there, up to a NUL and never beyond the array; a message shorter than an earlier one is read exactly.
\<close>

theorem echo_reads:
  assumes "\<forall>m\<in>set ms. m \<noteq> [] \<and> is_cstring m \<and> length m \<le> BUFFER_LENGTH" and "length junk = BUFFER_LENGTH"
    and "0 \<le> sock" and "0 \<le> bound" and "0 \<le> client"
  shows "\<exists>ss. length ss = length ms \<and>
    tcp_server_main sock bound client (map Data ms @ Disconnected # rs) junk = Some (if overruns junk ms then Inl Out_of_bounds
      else Inr (0, concat (map (\<lambda>s. [Printed s, Wrote s]) ss) @ [Ended Disconnected])) \<and>
    async_multi_handler (map Data ms @ Disconnected # rs) junk = Some (if overruns junk ms then Inl Out_of_bounds
      else Inr (map Wrote ss @ [Ended Disconnected, Closed])) \<and>
    async_tcp_handler client (map Data ms @ Disconnected # rs) junk = Some (if overruns junk ms then Inl Out_of_bounds
      else Inr (map Printed ss @ [Ended Disconnected, Closed])) \<and>
    (\<forall>i<length ms.
       (ss ! i = ms ! i \<or> ss ! i = ms ! i @ c_str (drop (length (ms ! i)) junk)) \<and>
       (\<not> overruns junk ms \<longrightarrow> length (ss ! i) < BUFFER_LENGTH) \<and>
       ((\<exists>j<i. length (ms ! i) < length (ms ! j)) \<longrightarrow> ss ! i = ms ! i)) \<and>
    (BUFFER_LENGTH \<in> length ` set ms \<longrightarrow> overruns junk ms)"
proof -
  let ?ss = "strings_read junk 0 ms"
  have loop: "recv_loop pr ec (map Data ms @ Disconnected # rs) junk [] =
      (if overruns junk ms then Some (Inl Out_of_bounds)
       else Some (Inr (concat (map (round_events pr ec) ?ss) @ [Ended Disconnected])))" for pr ec
    using recv_loop_reads [of ms junk 0 pr ec rs "[]"] assms(1,2) by (simp add: ends_at_nul_def)
  have each: "(?ss ! i = ms ! i \<or> ?ss ! i = ms ! i @ c_str (drop (length (ms ! i)) junk)) \<and>
      (\<not> overruns junk ms \<longrightarrow> length (?ss ! i) < BUFFER_LENGTH) \<and>
      ((\<exists>j<i. length (ms ! i) < length (ms ! j)) \<longrightarrow> ?ss ! i = ms ! i)" if i: "i < length ms" for i
  proof -
    let ?d = "drop (length (ms ! i)) junk"
    obtain y where y: "?ss ! i = taken_for junk y (ms ! i)" "\<forall>j<i. length (ms ! j) \<le> y"
      using strings_read_nth [OF i] by blast
    have "nul \<in> set ?d" if "\<not> overruns junk ms" using that i by (simp add: overruns_def)
    then have "length (ms ! i) + length (c_str ?d) < BUFFER_LENGTH" if "\<not> overruns junk ms"
      using that c_str_nth [of ?d] assms(2) by (simp add: less_diff_conv add.commute)
    then show ?thesis using y by (fastforce simp: taken_for_def)
  qed
  have "overruns junk ms" if "BUFFER_LENGTH \<in> length ` set ms" using that assms(2) by (force simp: overruns_def)
  then show ?thesis
    using each assms(3-5)
    by (intro exI [of _ ?ss]) (simp add: tcp_server_main_def async_multi_handler_def async_tcp_handler_def loop one_event round_events_simps)
qed

theorem echo_reads_witness:
  "\<exists>s t. async_multi_handler [Data ''hello'', Data ''hi'', Disconnected] (''abcdefgh'' @ replicate 1992 nul) =
      Some (Inr [Wrote s, Wrote t, Ended Disconnected, Closed]) \<and> t = ''hi''"
proof -
  let ?junk = "''abcdefgh'' @ replicate 1992 nul"
  have h: "\<forall>m\<in>set [''hello'', ''hi'']. m \<noteq> [] \<and> is_cstring m \<and> length m \<le> BUFFER_LENGTH" "length ?junk = BUFFER_LENGTH"
    by (simp_all add: is_cstring_def nul_def BUFFER_LENGTH_def)
  have no: "\<not> overruns ?junk [''hello'', ''hi'']" by (simp add: overruns_def)
  from echo_reads [OF h, of 0 0 0 "[]"] obtain ss where ss: "length ss = length [''hello'', ''hi'']"
    "async_multi_handler (map Data [''hello'', ''hi''] @ Disconnected # []) ?junk =
      Some (if overruns ?junk [''hello'', ''hi''] then Inl Out_of_bounds else Inr (map Wrote ss @ [Ended Disconnected, Closed]))"
    and i: "\<forall>i<length [''hello'', ''hi'']. (\<exists>j<i. length ([''hello'', ''hi''] ! i) < length ([''hello'', ''hi''] ! j)) \<longrightarrow>
      ss ! i = [''hello'', ''hi''] ! i" by auto
  from ss(1) obtain s t where st: "ss = [s, t]" by (auto simp: length_Suc_conv)
  have "t = ''hi''" using i [rule_format, of 1] st by simp
  with ss(2) no st show ?thesis by simp
qed

end
