(* ===== verification/Client_Threads.thy ===== *)
theory Client_Threads
  imports Echo_Replies Thread_Runs
begin

text \<open>
  The connection threads of the two servers that start one thread per connection,
  \<open>TCP_sockets/src/multi_server.c\<close> (theory \<open>Multi_Clients\<close>) and \<open>async_TCP_multithread\<close> (theory
  \<open>Async_Clients\<close>): their local variables, the shared part of the process state, the receive loop
  that both handlers have, one call per step. What \<open>accept\<close> and \<open>pthread_create\<close> return, what
  arrives on each connection and the initial contents of the threads' arrays are parameters. A
  descriptor stands for its connection: a number that the kernel hands out again after \<open>close\<close>
  counts as another one.
\<close>

section \<open>The handler threads\<close>

text \<open>The next statement of a connection handler.\<close>

datatype ch_pc =
    CH_unborn | CH_start | CH_greet | CH_recv | CH_print | CH_write | CH_clear
  | CH_end | CH_free | CH_close | CH_done

text \<open>The local variables of a handler.\<close>

record handler_thread =
  ht_pc :: ch_pc
  ht_sock :: int
  ht_buf :: "char list"
  ht_read :: recv_result

text \<open>
  \<open>cs_accepts\<close>: what the coming calls of \<open>accept\<close> return; \<open>cs_in\<close>: what the coming calls of \<open>recv\<close>
  on a descriptor return; \<open>cs_count\<close>: how many times a thread was asked for; \<open>cs_out\<close>: what was done
  for a descriptor; \<open>cs_exit\<close>: how the process ended.
\<close>

record clients =
  cs_accepts :: "int list"
  cs_in :: "int \<Rightarrow> recv_result list"
  cs_threads :: "nat \<Rightarrow> handler_thread"
  cs_count :: nat
  cs_out :: "(int \<times> sock_event) list"
  cs_closed :: "int list"
  cs_exit :: "int cres option"

abbreviation put_thread :: "nat \<Rightarrow> handler_thread \<Rightarrow> 'a clients_scheme \<Rightarrow> 'a clients_scheme" where
  "put_thread k t s \<equiv> s\<lparr>cs_threads := (cs_threads s)(k := t)\<rparr>"

abbreviation event :: "int \<Rightarrow> sock_event \<Rightarrow> 'a clients_scheme \<Rightarrow> 'a clients_scheme" where
  "event fd e s \<equiv> s\<lparr>cs_out := cs_out s @ [(fd, e)]\<rparr>"

text \<open>A statement that may fault; a fault ends the process.\<close>

definition or_fault :: "'b cres \<Rightarrow> ('b \<Rightarrow> 'a clients_scheme) \<Rightarrow> 'a clients_scheme \<Rightarrow> 'a clients_scheme option" where
  "or_fault m f s = Some (case m of Inl e \<Rightarrow> s\<lparr>cs_exit := Some (Inl e)\<rparr> | Inr x \<Rightarrow> f x)"

text \<open>The bytes \<open>recv\<close> stores; none when its result is not positive.\<close>

fun recv_bytes :: "recv_result \<Rightarrow> char list" where
  "recv_bytes (Data m) = m"
| "recv_bytes Disconnected = []"
| "recv_bytes Recv_failed = []"

text \<open>
  The receive loop of a handler, one call per step. \<open>recv\<close> waits (has no step) when nothing has
  arrived.
\<close>

definition echo_step :: "bool \<Rightarrow> nat \<Rightarrow> 'a clients_scheme \<Rightarrow> 'a clients_scheme option" where
  "echo_step prints k s = (let t = cs_threads s k; fd = ht_sock t in case ht_pc t of
       CH_recv \<Rightarrow> (case cs_in s fd of
           [] \<Rightarrow> None
         | r # rs \<Rightarrow>
             if recv_bytes r = []
             then Some (put_thread k (t\<lparr>ht_pc := CH_end, ht_read := r\<rparr>) (s\<lparr>cs_in := (cs_in s)(fd := rs)\<rparr>))
             else or_fault (mem_write (ht_buf t) 0 (recv_bytes r)) (\<lambda>b.
                    put_thread k (t\<lparr>ht_pc := (if prints then CH_print else CH_write), ht_buf := b, ht_read := r\<rparr>)
                      (s\<lparr>cs_in := (cs_in s)(fd := rs)\<rparr>)) s)
     | CH_print \<Rightarrow> or_fault (c_strlen (ht_buf t)) (\<lambda>n.
         event fd (Printed (take n (ht_buf t))) (put_thread k (t\<lparr>ht_pc := CH_write\<rparr>) s)) s
     | CH_write \<Rightarrow> or_fault (c_strlen (ht_buf t)) (\<lambda>n.
         event fd (Wrote (take n (ht_buf t))) (put_thread k (t\<lparr>ht_pc := CH_clear\<rparr>) s)) s
     | CH_clear \<Rightarrow> or_fault (cbind (c_strlen (ht_buf t)) (c_memset0 (ht_buf t))) (\<lambda>b.
         put_thread k (t\<lparr>ht_pc := CH_recv, ht_buf := b\<rparr>) s) s
     | _ \<Rightarrow> None)"

text \<open>A new thread; \<open>junk\<close> is what its array holds.\<close>

definition spawn :: "(nat \<Rightarrow> char list) \<Rightarrow> 'a clients_scheme \<Rightarrow> 'a clients_scheme" where
  "spawn junk s = put_thread (cs_count s)
     \<lparr>ht_pc = CH_start, ht_sock = 0, ht_buf = junk (cs_count s), ht_read = Disconnected\<rparr> s"

definition no_thread :: handler_thread where
  "no_thread = \<lparr>ht_pc = CH_unborn, ht_sock = 0, ht_buf = [], ht_read = Disconnected\<rparr>"

section \<open>Lemmas\<close>

lemma or_fault_simps [simp]:
  "or_fault (Inr x) f s = Some (f x)"
  "or_fault (Inl e) f s = Some (s\<lparr>cs_exit := Some (Inl e)\<rparr>)"
  by (simp_all add: or_fault_def)

text \<open>What was done for a descriptor.\<close>

definition out_of :: "int \<Rightarrow> (int \<times> sock_event) list \<Rightarrow> sock_event list" where
  "out_of fd out = map snd (filter (\<lambda>e. fst e = fd) out)"

lemma out_of_simps [simp]:
  "out_of fd [] = []"
  "out_of fd (out @ [(fd', e)]) = out_of fd out @ (if fd' = fd then [e] else [])"
  by (simp_all add: out_of_def)

text \<open>The steps of the receive loop leave the thread's descriptor and everything of \<open>main\<close> alone.\<close>

lemma echo_step_local:
  assumes "echo_step pr k s = Some t"
  shows "cs_accepts t = cs_accepts s" "cs_count t = cs_count s" "clients.more t = clients.more s"
    "ht_sock (cs_threads t k) = ht_sock (cs_threads s k)" "j \<noteq> k \<Longrightarrow> cs_threads t j = cs_threads s j"
    "ht_pc (cs_threads s k) \<notin> {CH_unborn, CH_start, CH_done, CH_close}"
    "ht_pc (cs_threads t k) \<notin> {CH_unborn, CH_start, CH_done, CH_close}"
    "f \<noteq> ht_sock (cs_threads s k) \<Longrightarrow> cs_in t f = cs_in s f"
    "f \<noteq> ht_sock (cs_threads s k) \<Longrightarrow> out_of f (cs_out t) = out_of f (cs_out s)"
  using assms
  by (auto simp: echo_step_def Let_def or_fault_def split: ch_pc.splits list.splits if_splits sum.splits)

lemma drop_nth:
  assumes "drop n cs = x # xs" and "n \<le> length cs"
  shows "n < length cs" and "cs ! n = x" and "drop (Suc n) cs = xs"
proof -
  show n: "n < length cs" using assms by (cases "n = length cs") auto
  with assms(1) show "cs ! n = x" and "drop (Suc n) cs = xs"
    by (simp_all add: Cons_nth_drop_Suc [symmetric])
qed

end
