(* ===== verification/Async_Clients.thy ===== *)
theory Async_Clients
  imports Client_Threads
begin

text \<open>
  The server of \<open>async_TCP_multithread\<close> as a step relation over all schedules: the signal handler
  accepts connections and starts a thread for each, which gets a cell of its own with the
  descriptor. Every client gets what its own thread would send it alone, and the server always comes to rest,
  or is ended by a thread that reads beyond its array.
\<close>

section \<open>The program\<close>

text \<open>
  The next statement of \<open>action_handler\<close>, with its variables \<open>client_fd\<close> and \<open>new_socket\<close>;
  \<open>AM_wait\<close>: no signal is being handled.
\<close>

datatype am_pc = AM_wait | AM_accept | AM_malloc int | AM_store int addr | AM_create addr

record async_clients = clients +
  am_pc :: am_pc
  am_cells :: "addr \<rightharpoonup> int"
  am_arg :: "nat \<Rightarrow> addr"

definition async_clients_init :: "int list \<Rightarrow> (int \<Rightarrow> recv_result list) \<Rightarrow> async_clients" where
  "async_clients_init accepts inp =
     \<lparr>cs_accepts = accepts, cs_in = inp, cs_threads = (\<lambda>_. no_thread), cs_count = 0, cs_out = [],
      cs_closed = [], cs_exit = None, am_pc = AM_wait, am_cells = Map.empty, am_arg = (\<lambda>_. NULL)\<rparr>"

text \<open>
  \<open>SIGIO\<close> arrives while there are connections to accept; the handler accepts until \<open>accept\<close>, which
  does not block, has no more. \<open>alloc n\<close> and \<open>create n\<close> are what the \<open>n\<close>-th calls of \<open>malloc\<close> and
  \<open>pthread_create\<close> return; only a negative result of the latter counts as a failure.
\<close>

definition action_handler_step ::
    "(nat \<Rightarrow> addr) \<Rightarrow> (nat \<Rightarrow> int) \<Rightarrow> (nat \<Rightarrow> char list) \<Rightarrow> async_clients \<Rightarrow> async_clients option" where
  "action_handler_step alloc create junk s = (case am_pc s of
       AM_wait \<Rightarrow> if cs_accepts s = [] then None else Some (s\<lparr>am_pc := AM_accept\<rparr>)
     | AM_accept \<Rightarrow> (case cs_accepts s of
           [] \<Rightarrow> Some (s\<lparr>am_pc := AM_wait\<rparr>)
         | fd # rest \<Rightarrow> Some (s\<lparr>cs_accepts := rest, am_pc := (if fd > 0 then AM_malloc fd else AM_wait)\<rparr>))
     | AM_malloc fd \<Rightarrow> Some (s\<lparr>am_pc := AM_store fd (alloc (cs_count s))\<rparr>)
     | AM_store fd a \<Rightarrow> or_fault (c_check Null_deref (a \<noteq> NULL)) (\<lambda>_.
         s\<lparr>am_cells := (am_cells s)(a \<mapsto> fd), am_pc := AM_create a\<rparr>) s
     | AM_create a \<Rightarrow>
         if create (cs_count s) < 0 then Some (s\<lparr>cs_exit := Some (Inl (Exit_status 1))\<rparr>)
         else Some ((if create (cs_count s) = 0
                     then spawn junk (s\<lparr>am_arg := (am_arg s)(cs_count s := a)\<rparr>) else s)
                    \<lparr>cs_count := cs_count s + 1, am_pc := AM_accept\<rparr>))"

definition async_handler_step :: "nat \<Rightarrow> async_clients \<Rightarrow> async_clients option" where
  "async_handler_step k s = (let t = cs_threads s k in case ht_pc t of
       CH_start \<Rightarrow> or_fault (deref (am_cells s) (am_arg s k)) (\<lambda>fd.
         put_thread k (t\<lparr>ht_pc := CH_recv, ht_sock := fd\<rparr>) s) s
     | CH_end \<Rightarrow> Some (event (ht_sock t) (Ended (ht_read t)) (put_thread k (t\<lparr>ht_pc := CH_close\<rparr>) s))
     | CH_close \<Rightarrow>
         Some (put_thread k (t\<lparr>ht_pc := CH_done\<rparr>) (s\<lparr>cs_closed := cs_closed s @ [ht_sock t]\<rparr>))
     | _ \<Rightarrow> echo_step False k s)"

inductive async_step :: "(nat \<Rightarrow> addr) \<Rightarrow> (nat \<Rightarrow> int) \<Rightarrow> (nat \<Rightarrow> char list) \<Rightarrow>
    async_clients \<Rightarrow> async_clients \<Rightarrow> bool" for alloc create junk where
  async_main: "cs_exit s = None \<Longrightarrow> action_handler_step alloc create junk s = Some t \<Longrightarrow>
    async_step alloc create junk s t"
| async_thread: "cs_exit s = None \<Longrightarrow> async_handler_step k s = Some t \<Longrightarrow>
    async_step alloc create junk s t"

section \<open>The asynchronous server: what holds in every reachable state\<close>

text \<open>The connections, in the order in which they are accepted, and what arrives on one.\<close>

definition conns :: "int list \<Rightarrow> int list" where
  "conns accepts = filter (\<lambda>fd. 0 < fd) accepts"

definition script :: "char list list \<Rightarrow> recv_result list" where
  "script ms = map Data ms @ [Disconnected]"

lemma script_simps [simp]:
  "script [] = [Disconnected]" "script (m # ms) = Data m # script ms"
  by (simp_all add: script_def)

text \<open>
  How far a handler has come with the messages \<open>ms\<close> of its client, \<open>junk\<close> being the initial contents of its array:
  what it still does with the messages in \<open>inp\<close> completes what it would do alone. \<open>out\<close> was done, \<open>n\<close> counts how
  often the descriptor was closed.
\<close>

definition goes_on :: "char list list \<Rightarrow> char list \<Rightarrow> char list list \<Rightarrow> char list \<Rightarrow> string list \<Rightarrow> bool" where
  "goes_on ms junk ys b done \<longleftrightarrow> answers junk ms = done @ answers b ys \<and> survives junk ms = survives b ys \<and>
     length b = BUFFER_LENGTH \<and> (\<forall>m\<in>set ys. m \<noteq> [] \<and> length m \<le> BUFFER_LENGTH)"

fun echo_ok :: "char list list \<Rightarrow> char list \<Rightarrow> handler_thread \<Rightarrow> recv_result list \<Rightarrow> sock_event list \<Rightarrow> nat \<Rightarrow> bool" where
  "echo_ok ms junk t inp out n = (case ht_pc t of
       CH_start \<Rightarrow> n = 0 \<and> inp = script ms \<and> out = [] \<and> goes_on ms junk ms (ht_buf t) []
     | CH_recv \<Rightarrow> n = 0 \<and> (\<exists>ys rs. goes_on ms junk ys (ht_buf t) rs \<and> inp = script ys \<and> out = map Wrote rs)
     | CH_write \<Rightarrow> n = 0 \<and> (\<exists>m ys b rs. goes_on ms junk (m # ys) b rs \<and> inp = script ys \<and> out = map Wrote rs \<and>
         ht_buf t = m @ drop (length m) b)
     | CH_clear \<Rightarrow> n = 0 \<and> (\<exists>ys b rs k. goes_on ms junk ys b rs \<and> inp = script ys \<and> out = map Wrote rs \<and>
         c_strlen (ht_buf t) = Inr k \<and> c_memset0 (ht_buf t) k = Inr b)
     | CH_end \<Rightarrow> n = 0 \<and> inp = [] \<and> out = map Wrote (answers junk ms) \<and> survives junk ms \<and> ht_read t = Disconnected
     | CH_close \<Rightarrow> n = 0 \<and> inp = [] \<and> out = map Wrote (answers junk ms) @ [Ended Disconnected] \<and> survives junk ms
     | CH_done \<Rightarrow> n = 1 \<and> inp = [] \<and> out = map Wrote (answers junk ms) @ [Ended Disconnected] \<and> survives junk ms
     | _ \<Rightarrow> False)"

declare echo_ok.simps [simp del]

text \<open>A bound on the steps a handler still takes.\<close>

definition thread_rank :: "ch_pc \<Rightarrow> nat \<Rightarrow> nat" where
  "thread_rank pc l = (case pc of
       CH_unborn \<Rightarrow> 4 * l + 5 | CH_start \<Rightarrow> 4 * l + 4 | CH_recv \<Rightarrow> 4 * l + 3 | CH_write \<Rightarrow> 4 * l + 5
     | CH_clear \<Rightarrow> 4 * l + 4 | CH_end \<Rightarrow> 2 | CH_close \<Rightarrow> 1 | _ \<Rightarrow> 0)"

lemma goes_on_receive:
  assumes "goes_on ms junk (m # ys) b rs" and "receive b m = Inr (r, b')"
  shows "c_strlen (m @ drop (length m) b) = Inr (length r)" and "take (length r) (m @ drop (length m) b) = r"
    and "c_memset0 (m @ drop (length m) b) (length r) = Inr b'" and "goes_on ms junk ys b' (rs @ [r])"
proof -
  have "length m \<le> length b" using assms(1) by (simp add: goes_on_def)
  note r = receive_Inr [OF assms(2) this]
  show "c_strlen (m @ drop (length m) b) = Inr (length r)" "take (length r) (m @ drop (length m) b) = r"
    "c_memset0 (m @ drop (length m) b) (length r) = Inr b'"
    by (rule r(1), rule r(3) [symmetric], rule r(2))
  show "goes_on ms junk ys b' (rs @ [r])" using assms r(4) by (simp add: goes_on_def)
qed

lemma goes_on_fault:
  assumes "goes_on ms junk (m # ys) b rs" and "receive b m = Inl e"
  shows "c_strlen (m @ drop (length m) b) = Inl Out_of_bounds" and "\<not> survives junk ms"
  using assms receive_Inl [of b m e] by (simp_all add: goes_on_def)

lemma goes_on_write:
  "goes_on ms junk (m # ys) b rs \<Longrightarrow> m \<noteq> [] \<and> mem_write b 0 m = Inr (m @ drop (length m) b)"
  by (simp add: goes_on_def mem_write_def)

lemma goes_on_end: "goes_on ms junk [] b rs \<Longrightarrow> answers junk ms = rs \<and> survives junk ms"
  by (simp add: goes_on_def)

text \<open>
  A step of a handler that is on course: it stays on course, comes closer to its end, and touches
  only its own connection; or it reads beyond its array, which ends the process.
\<close>

definition only_client :: "int \<Rightarrow> nat \<Rightarrow> async_clients \<Rightarrow> async_clients \<Rightarrow> bool" where
  "only_client fd k s s' \<longleftrightarrow>
     cs_exit s' = cs_exit s \<and> cs_accepts s' = cs_accepts s \<and> cs_count s' = cs_count s \<and>
     am_pc s' = am_pc s \<and> am_cells s' = am_cells s \<and> am_arg s' = am_arg s \<and>
     (\<forall>i. i \<noteq> k \<longrightarrow> cs_threads s' i = cs_threads s i) \<and>
     (\<forall>f. f \<noteq> fd \<longrightarrow> cs_in s' f = cs_in s f \<and> out_of f (cs_out s') = out_of f (cs_out s) \<and>
        count_list (cs_closed s') f = count_list (cs_closed s) f)"

definition on_course :: "char list list \<Rightarrow> char list \<Rightarrow> int \<Rightarrow> nat \<Rightarrow> async_clients \<Rightarrow> bool" where
  "on_course ms junk fd k s \<longleftrightarrow>
     (if ht_pc (cs_threads s k) = CH_start then am_cells s (am_arg s k) = Some fd \<and> am_arg s k \<noteq> NULL
      else ht_sock (cs_threads s k) = fd) \<and>
     echo_ok ms junk (cs_threads s k) (cs_in s fd) (out_of fd (cs_out s)) (count_list (cs_closed s) fd)"

definition faulted :: "c_fault \<Rightarrow> async_clients \<Rightarrow> async_clients" where
  "faulted e s = s\<lparr>cs_exit := Some (Inl e)\<rparr>"

definition stays_on_course :: "char list list \<Rightarrow> char list \<Rightarrow> int \<Rightarrow> nat \<Rightarrow> async_clients \<Rightarrow> async_clients \<Rightarrow> bool" where
  "stays_on_course ms junk fd k s s' \<longleftrightarrow> only_client fd k s s' \<and> on_course ms junk fd k s' \<and>
     thread_rank (ht_pc (cs_threads s' k)) (length (cs_in s' fd)) <
     thread_rank (ht_pc (cs_threads s k)) (length (cs_in s fd))"

lemma handler_on_course:
  assumes c: "on_course ms junk fd k s" and step: "async_handler_step k s = Some s'"
  shows "stays_on_course ms junk fd k s s' \<or> s' = faulted Out_of_bounds s \<and> \<not> survives junk ms"
proof -
  let ?t = "cs_threads s k"
  note defs = async_handler_step_def echo_step_def Let_def stays_on_course_def only_client_def on_course_def
    echo_ok.simps thread_rank_def
  show ?thesis
  proof (cases "ht_pc ?t")
    case CH_recv
    then obtain ys rs where r: "goes_on ms junk ys (ht_buf ?t) rs" "cs_in s fd = script ys"
      "out_of fd (cs_out s) = map Wrote rs" "ht_sock ?t = fd" "count_list (cs_closed s) fd = 0"
      using c by (auto simp: on_course_def echo_ok.simps)
    show ?thesis
    proof (cases ys)
      case Nil
      with r(1) have "answers junk ms = rs" "survives junk ms" using goes_on_end by auto
      with r Nil CH_recv step show ?thesis by (auto simp: defs)
    next
      case (Cons m zs)
      note g = r(1) [unfolded Cons]
      have "s' = put_thread k (?t\<lparr>ht_pc := CH_write, ht_buf := m @ drop (length m) (ht_buf ?t), ht_read := Data m\<rparr>)
          (s\<lparr>cs_in := (cs_in s)(fd := script zs)\<rparr>)"
        using goes_on_write [OF g] r(2-) Cons CH_recv step by (simp add: defs)
      then have "stays_on_course ms junk fd k s s'" using r(2-) Cons CH_recv g by (simp add: defs) blast
      then show ?thesis ..
    qed
  next
    case CH_write
    then obtain m ys b rs where r: "goes_on ms junk (m # ys) b rs" "cs_in s fd = script ys"
      "out_of fd (cs_out s) = map Wrote rs" "ht_buf ?t = m @ drop (length m) b" "ht_sock ?t = fd"
      "count_list (cs_closed s) fd = 0"
      using c by (auto simp: on_course_def echo_ok.simps)
    show ?thesis
    proof (cases "receive b m")
      case (Inl e)
      from goes_on_fault [OF r(1) Inl] r CH_write step show ?thesis by (simp add: defs faulted_def)
    next
      case (Inr p)
      obtain x b' where p: "receive b m = Inr (x, b')" using Inr by (cases p) simp
      note g = goes_on_receive [OF r(1) p]
      have "s' = event fd (Wrote x) (put_thread k (?t\<lparr>ht_pc := CH_clear\<rparr>) s)"
        using g(1,2) r(4,5) CH_write step by (simp add: defs)
      then have "stays_on_course ms junk fd k s s'"
        using r(2-) g(1,3) CH_write by (simp add: defs) (use g(4) in \<open>intro exI [of _ ys] exI [of _ "rs @ [x]"], simp\<close>)
      then show ?thesis ..
    qed
  next
    case CH_clear
    then obtain ys b rs n where r: "goes_on ms junk ys b rs" "cs_in s fd = script ys"
      "out_of fd (cs_out s) = map Wrote rs" "c_strlen (ht_buf ?t) = Inr n" "c_memset0 (ht_buf ?t) n = Inr b"
      "ht_sock ?t = fd" "count_list (cs_closed s) fd = 0"
      using c by (auto simp: on_course_def echo_ok.simps)
    then have "s' = put_thread k (?t\<lparr>ht_pc := CH_recv, ht_buf := b\<rparr>) s" using CH_clear step by (simp add: defs)
    then have "stays_on_course ms junk fd k s s'" using r CH_clear by (simp add: defs) blast
    then show ?thesis ..
  qed (use c step in \<open>auto simp: defs\<close>)
qed

text \<open>
  The hypotheses on the environment: connections have descriptors of their own, allocated cells are distinct objects,
  \<open>recv\<close> returns at least one byte and at most as many as it is given room for. Nothing is assumed of the contents of
  the arrays, and the allocations and the calls of \<open>pthread_create\<close> may fail.
\<close>

definition async_env :: "(nat \<Rightarrow> addr) \<Rightarrow> (nat \<Rightarrow> char list) \<Rightarrow> int list \<Rightarrow> (int \<Rightarrow> char list list) \<Rightarrow> bool" where
  "async_env alloc junk accepts msgs \<longleftrightarrow>
     distinct (conns accepts) \<and> (\<forall>i j. i \<noteq> j \<longrightarrow> alloc i \<noteq> NULL \<longrightarrow> alloc i \<noteq> alloc j) \<and>
     (\<forall>i. length (junk i) = BUFFER_LENGTH) \<and>
     (\<forall>fd. \<forall>m\<in>set (msgs fd). m \<noteq> [] \<and> length m \<le> BUFFER_LENGTH)"

text \<open>How the process can end: a thread reads beyond its array, a thread or a cell is refused.\<close>

definition async_end :: "(nat \<Rightarrow> addr) \<Rightarrow> (nat \<Rightarrow> int) \<Rightarrow> (nat \<Rightarrow> char list) \<Rightarrow> int list \<Rightarrow> (int \<Rightarrow> char list list) \<Rightarrow>
    int cres \<Rightarrow> bool" where
  "async_end alloc create junk cs msgs r \<longleftrightarrow>
     r = Inl Out_of_bounds \<and> (\<exists>i<length cs. create i = 0 \<and> \<not> survives (junk i) (msgs (cs ! i))) \<or>
     r = Inl Null_deref \<and> (\<exists>i<length cs. alloc i = NULL) \<or>
     r = Inl (Exit_status 1) \<and> (\<exists>i<length cs. create i < 0)"

text \<open>A connection that no thread serves (yet).\<close>

definition untouched :: "char list list \<Rightarrow> int \<Rightarrow> nat \<Rightarrow> async_clients \<Rightarrow> bool" where
  "untouched ms fd k s \<longleftrightarrow> ht_pc (cs_threads s k) = CH_unborn \<and> cs_in s fd = script ms \<and>
     out_of fd (cs_out s) = [] \<and> count_list (cs_closed s) fd = 0"

text \<open>The connections still to be handed to a thread, and the cell being prepared.\<close>

definition main_ok :: "(nat \<Rightarrow> addr) \<Rightarrow> int list \<Rightarrow> async_clients \<Rightarrow> bool" where
  "main_ok alloc cs s \<longleftrightarrow> cs_count s \<le> length cs \<and>
     (let n = cs_count s; later = conns (cs_accepts s) in case am_pc s of
        AM_wait \<Rightarrow> drop n cs = later
      | AM_accept \<Rightarrow> drop n cs = later
      | AM_malloc fd \<Rightarrow> drop n cs = fd # later
      | AM_store fd a \<Rightarrow> drop n cs = fd # later \<and> a = alloc n
      | AM_create a \<Rightarrow> (\<exists>fd. drop n cs = fd # later \<and> a = alloc n \<and> a \<noteq> NULL \<and> am_cells s a = Some fd))"

text \<open>What holds of the connections and their threads, whether or not the process has ended.\<close>

definition connection_ok :: "(nat \<Rightarrow> int) \<Rightarrow> (nat \<Rightarrow> char list) \<Rightarrow> int list \<Rightarrow> (int \<Rightarrow> char list list) \<Rightarrow> nat \<Rightarrow>
    async_clients \<Rightarrow> bool" where
  "connection_ok create junk cs msgs i s \<longleftrightarrow>
     (if i < cs_count s \<and> create i = 0 then on_course (msgs (cs ! i)) (junk i) (cs ! i) i s
      else untouched (msgs (cs ! i)) (cs ! i) i s)"

definition async_inv :: "(nat \<Rightarrow> addr) \<Rightarrow> (nat \<Rightarrow> int) \<Rightarrow> (nat \<Rightarrow> char list) \<Rightarrow> int list \<Rightarrow> (int \<Rightarrow> char list list) \<Rightarrow>
    async_clients \<Rightarrow> bool" where
  "async_inv alloc create junk cs msgs s \<longleftrightarrow>
     (\<forall>r. cs_exit s = Some r \<longrightarrow> async_end alloc create junk cs msgs r) \<and> main_ok alloc cs s \<and>
     (\<forall>i<cs_count s. alloc i \<noteq> NULL \<and> 0 \<le> create i \<and> am_cells s (alloc i) = Some (cs ! i)) \<and>
     (\<forall>i<cs_count s. create i = 0 \<longrightarrow> am_arg s i = alloc i) \<and>
     (\<forall>i<length cs. connection_ok create junk cs msgs i s) \<and>
     (\<forall>i\<ge>length cs. ht_pc (cs_threads s i) = CH_unborn)"

text \<open>The rank: what is left of the signal handler's work and of every thread's.\<close>

definition main_rank :: "am_pc \<Rightarrow> nat \<Rightarrow> nat" where
  "main_rank pc m = (case pc of AM_wait \<Rightarrow> 6 * m | AM_accept \<Rightarrow> (if m = 0 then 1 else 6 * m - 1)
     | AM_malloc _ \<Rightarrow> 6 * m + 4 | AM_store _ _ \<Rightarrow> 6 * m + 3 | AM_create _ \<Rightarrow> 6 * m + 2)"

definition async_rank :: "int list \<Rightarrow> async_clients \<Rightarrow> nat" where
  "async_rank cs s = (if cs_exit s = None then 1 else 0) + main_rank (am_pc s) (length (cs_accepts s)) +
     (\<Sum>i<length cs. thread_rank (ht_pc (cs_threads s i)) (length (cs_in s (cs ! i))))"

text \<open>The process has ended, or all is done: nothing to accept, and every created thread has finished.\<close>

definition async_ended :: "(nat \<Rightarrow> int) \<Rightarrow> int list \<Rightarrow> async_clients \<Rightarrow> bool" where
  "async_ended create cs s \<longleftrightarrow> cs_exit s \<noteq> None \<or>
     am_pc s = AM_wait \<and> cs_accepts s = [] \<and> cs_count s = length cs \<and>
     (\<forall>i<length cs. create i = 0 \<longrightarrow> ht_pc (cs_threads s i) = CH_done)"

lemma unborn_no_step: "ht_pc (cs_threads s k) = CH_unborn \<Longrightarrow> async_handler_step k s = None"
  by (simp add: async_handler_step_def echo_step_def Let_def)

text \<open>A thread that can take a step is one that was created for its connection.\<close>

lemma stepping_thread:
  assumes "async_inv alloc create junk cs msgs s" and "async_handler_step k s = Some s'"
  shows "k < length cs" "k < cs_count s" "create k = 0" "on_course (msgs (cs ! k)) (junk k) (cs ! k) k s"
proof -
  have born: "ht_pc (cs_threads s k) \<noteq> CH_unborn" using assms(2) unborn_no_step by force
  then show k: "k < length cs" using assms(1) by (meson async_inv_def not_le)
  with assms(1) have "connection_ok create junk cs msgs k s" by (simp add: async_inv_def)
  with born show "k < cs_count s" "create k = 0" "on_course (msgs (cs ! k)) (junk k) (cs ! k) k s"
    by (auto simp: connection_ok_def untouched_def split: if_splits)
qed

lemma only_client_others:
  assumes "only_client (cs ! k) k s s'" and "connection_ok create junk cs msgs i s" and "i \<noteq> k" and "cs ! i \<noteq> cs ! k"
  shows "connection_ok create junk cs msgs i s'"
proof (cases "i < cs_count s \<and> create i = 0")
  case True
  with assms show ?thesis by (simp add: connection_ok_def only_client_def on_course_def)
next
  case False
  with assms show ?thesis by (auto simp: connection_ok_def only_client_def untouched_def)
qed

text \<open>The end of the process changes nothing else.\<close>

lemma faulted_simps [simp]:
  "cs_exit (faulted e s) = Some (Inl e)" "cs_accepts (faulted e s) = cs_accepts s" "cs_count (faulted e s) = cs_count s"
  "am_pc (faulted e s) = am_pc s" "am_cells (faulted e s) = am_cells s" "am_arg (faulted e s) = am_arg s"
  "cs_threads (faulted e s) = cs_threads s" "cs_in (faulted e s) = cs_in s" "cs_out (faulted e s) = cs_out s"
  "cs_closed (faulted e s) = cs_closed s"
  by (simp_all add: faulted_def)

lemma async_inv_faulted:
  assumes "async_inv alloc create junk cs msgs s" and "async_end alloc create junk cs msgs (Inl e)" and "cs_exit s = None"
  shows "async_inv alloc create junk cs msgs (faulted e s) \<and> async_rank cs (faulted e s) < async_rank cs s"
proof -
  have "connection_ok create junk cs msgs i (faulted e s) = connection_ok create junk cs msgs i s" for i
    by (simp add: connection_ok_def on_course_def untouched_def)
  moreover have "main_ok alloc cs (faulted e s) = main_ok alloc cs s"
    by (cases "am_pc s") (simp_all add: main_ok_def Let_def)
  ultimately show ?thesis using assms by (simp add: async_inv_def async_rank_def)
qed

lemma async_inv_thread:
  assumes "distinct cs" and "async_inv alloc create junk cs msgs s" and "cs_exit s = None"
    and "async_handler_step k s = Some s'"
  shows "async_inv alloc create junk cs msgs s' \<and> async_rank cs s' < async_rank cs s"
proof -
  note k = stepping_thread [OF assms(2,4)]
  from handler_on_course [OF k(4) assms(4)] show ?thesis
  proof
    assume "s' = faulted Out_of_bounds s \<and> \<not> survives (junk k) (msgs (cs ! k))"
    then show ?thesis using async_inv_faulted [OF assms(2) _ assms(3)] k(1,3) by (auto simp: async_end_def)
  next
    assume "stays_on_course (msgs (cs ! k)) (junk k) (cs ! k) k s s'"
    then have oc: "only_client (cs ! k) k s s'" and here: "on_course (msgs (cs ! k)) (junk k) (cs ! k) k s'"
      and less: "thread_rank (ht_pc (cs_threads s' k)) (length (cs_in s' (cs ! k))) <
        thread_rank (ht_pc (cs_threads s k)) (length (cs_in s (cs ! k)))"
      by (simp_all add: stays_on_course_def)
    have others: "i < length cs \<Longrightarrow> i \<noteq> k \<Longrightarrow> cs ! i \<noteq> cs ! k" for i
      using assms(1) k(1) by (simp add: nth_eq_iff_index_eq)
    have same: "cs_exit s' = cs_exit s" "cs_accepts s' = cs_accepts s" "cs_count s' = cs_count s"
      "am_pc s' = am_pc s" "am_cells s' = am_cells s" "am_arg s' = am_arg s"
      "i \<noteq> k \<Longrightarrow> cs_threads s' i = cs_threads s i" for i
      using oc by (auto simp: only_client_def)
    have "connection_ok create junk cs msgs i s'" if i: "i < length cs" for i
    proof (cases "i = k")
      case True
      with here k(2,3) same show ?thesis by (simp add: connection_ok_def)
    next
      case False
      with i assms(2) others [OF i] show ?thesis by (auto simp: async_inv_def intro: only_client_others [OF oc])
    qed
    moreover have "main_ok alloc cs s'" using assms(2) same
      by (cases "am_pc s") (simp_all add: async_inv_def main_ok_def Let_def)
    ultimately have inv: "async_inv alloc create junk cs msgs s'"
      using assms(2) same k(1) by (auto simp: async_inv_def not_le)
    have "thread_rank (ht_pc (cs_threads s' i)) (length (cs_in s' (cs ! i))) \<le>
        thread_rank (ht_pc (cs_threads s i)) (length (cs_in s (cs ! i)))" if "i < length cs" for i
      using less others [of i] oc that by (cases "i = k") (auto simp: only_client_def)
    with less k(1) have "(\<Sum>i<length cs. thread_rank (ht_pc (cs_threads s' i)) (length (cs_in s' (cs ! i)))) <
        (\<Sum>i<length cs. thread_rank (ht_pc (cs_threads s i)) (length (cs_in s (cs ! i))))"
      by (intro sum_strict_mono_ex1) auto
    then show ?thesis using inv same by (simp add: async_rank_def)
  qed
qed

text \<open>A step of the signal handler that starts no thread touches no connection.\<close>

lemma async_inv_main_only:
  assumes "async_inv alloc create junk cs msgs s"
    and "s' = s\<lparr>cs_accepts := A, am_pc := p, am_cells := H\<rparr>"
    and "main_ok alloc cs s'" and "\<forall>i<cs_count s. H (alloc i) = am_cells s (alloc i)"
  shows "async_inv alloc create junk cs msgs s'"
proof -
  have "connection_ok create junk cs msgs i s'" if "i < length cs" for i
  proof -
    have c: "connection_ok create junk cs msgs i s" using assms(1) that by (simp add: async_inv_def)
    show ?thesis
    proof (cases "i < cs_count s \<and> create i = 0")
      case True
      then have "am_arg s i = alloc i" using assms(1) by (simp add: async_inv_def)
      with True c assms(2,4) show ?thesis by (auto simp: connection_ok_def on_course_def split: if_splits)
    next
      case False
      with c assms(2) show ?thesis by (auto simp: connection_ok_def untouched_def)
    qed
  qed
  with assms show ?thesis by (simp add: async_inv_def)
qed

text \<open>Starting the next thread, or failing to.\<close>

lemma async_inv_create:
  assumes "async_env alloc junk accepts msgs" and "cs = conns accepts"
    and "async_inv alloc create junk cs msgs s" and "cs_exit s = None" and "am_pc s = AM_create a"
    and "action_handler_step alloc create junk s = Some s'"
  shows "async_inv alloc create junk cs msgs s' \<and> async_rank cs s' < async_rank cs s"
proof -
  let ?n = "cs_count s"
  from assms(3,5) obtain fd where "drop ?n cs = fd # conns (cs_accepts s)" "?n \<le> length cs"
    and a: "a = alloc ?n" "a \<noteq> NULL" "am_cells s a = Some fd"
    by (auto simp: async_inv_def main_ok_def Let_def)
  note n = drop_nth [OF this(1,2)]
  show ?thesis
  proof (cases "create ?n < 0")
    case True
    then have "s' = faulted (Exit_status 1) s" using assms(5,6) by (simp add: action_handler_step_def faulted_def)
    with async_inv_faulted [OF assms(3) _ assms(4), of "Exit_status 1"] True n(1) show ?thesis
      by (auto simp: async_end_def)
  next
    case False
    have un: "untouched (msgs fd) fd ?n s"
      using assms(3) n by (auto simp: async_inv_def connection_ok_def)
    have s': "s' = (if create ?n = 0 then spawn junk (s\<lparr>am_arg := (am_arg s)(?n := a)\<rparr>) else s)
        \<lparr>cs_count := ?n + 1, am_pc := AM_accept\<rparr>"
      using assms(5,6) False by (simp add: action_handler_step_def)
    have start: "goes_on (msgs fd) (junk ?n) (msgs fd) (junk ?n) []"
      using assms(1) by (simp add: goes_on_def async_env_def)
    have course: "connection_ok create junk cs msgs i s'" if "i < length cs" for i
    proof (cases "i = ?n")
      case True
      with un a start s' n(2) show ?thesis
        by (simp add: connection_ok_def on_course_def untouched_def spawn_def echo_ok.simps)
    next
      case False
      have "connection_ok create junk cs msgs i s" using assms(3) that by (simp add: async_inv_def)
      with False s' show ?thesis
        by (auto simp: connection_ok_def on_course_def untouched_def spawn_def less_Suc_eq split: if_splits)
    qed
    have "main_ok alloc cs s'" using n s' assms(5) by (auto simp: main_ok_def Let_def spawn_def)
    moreover have "cs_exit s' = None" using s' assms(4) by (simp add: spawn_def)
    ultimately have inv: "async_inv alloc create junk cs msgs s'"
      using course assms(3) s' a n False by (auto simp: async_inv_def spawn_def less_Suc_eq)
    have "(\<Sum>i<length cs. thread_rank (ht_pc (cs_threads s' i)) (length (cs_in s' (cs ! i)))) \<le>
        (\<Sum>i<length cs. thread_rank (ht_pc (cs_threads s i)) (length (cs_in s (cs ! i))))"
    proof (rule sum_mono)
      fix i
      have "cs_in s' = cs_in s" "i \<noteq> ?n \<Longrightarrow> cs_threads s' i = cs_threads s i"
        "ht_pc (cs_threads s' ?n) \<in> {CH_unborn, CH_start}" "ht_pc (cs_threads s ?n) = CH_unborn"
        using un s' by (auto simp: spawn_def untouched_def)
      then show "thread_rank (ht_pc (cs_threads s' i)) (length (cs_in s' (cs ! i)))
          \<le> thread_rank (ht_pc (cs_threads s i)) (length (cs_in s (cs ! i)))"
        by (cases "i = ?n") (auto simp: thread_rank_def)
    qed
    moreover have "main_rank (am_pc s') (length (cs_accepts s')) < main_rank (am_pc s) (length (cs_accepts s))"
      using s' assms(5) by (auto simp: main_rank_def spawn_def)
    ultimately show ?thesis using inv \<open>cs_exit s' = None\<close> assms(4) by (simp add: async_rank_def)
  qed
qed

lemma async_inv_store:
  assumes "async_env alloc junk accepts msgs" and "cs = conns accepts"
    and "async_inv alloc create junk cs msgs s" and "cs_exit s = None" and "am_pc s = AM_store fd a"
    and "action_handler_step alloc create junk s = Some s'"
  shows "async_inv alloc create junk cs msgs s' \<and> async_rank cs s' < async_rank cs s"
proof -
  from assms(3,5) have d: "drop (cs_count s) cs = fd # conns (cs_accepts s)" "cs_count s \<le> length cs"
    and a: "a = alloc (cs_count s)" by (auto simp: async_inv_def main_ok_def Let_def)
  note n = drop_nth [OF d]
  show ?thesis
  proof (cases "a = NULL")
    case True
    then have "s' = faulted Null_deref s" using assms(5,6) by (simp add: action_handler_step_def faulted_def c_check_def)
    with async_inv_faulted [OF assms(3) _ assms(4), of Null_deref] True n(1) a show ?thesis
      by (auto simp: async_end_def)
  next
    case False
    then have fresh: "\<forall>i<cs_count s. alloc i \<noteq> a"
      using assms(1) a by (metis async_env_def less_irrefl)
    have "s' = s\<lparr>am_cells := (am_cells s)(a \<mapsto> fd), am_pc := AM_create a\<rparr>"
      using False assms(5,6) by (simp add: action_handler_step_def)
    then show ?thesis
      using assms(4,5) d a False fresh
        async_inv_main_only [OF assms(3), of s' "(am_cells s)(a \<mapsto> fd)" "AM_create a" "cs_accepts s"]
      by (auto simp: main_ok_def Let_def async_rank_def main_rank_def)
  qed
qed

lemma async_inv_main:
  assumes "async_env alloc junk accepts msgs" and "cs = conns accepts"
    and "async_inv alloc create junk cs msgs s" and "cs_exit s = None"
    and "action_handler_step alloc create junk s = Some s'"
  shows "async_inv alloc create junk cs msgs s' \<and> async_rank cs s' < async_rank cs s"
proof (cases "am_pc s")
  case (AM_store fd a)
  with async_inv_store [OF assms(1-4)] assms(5) show ?thesis by blast
next
  case (AM_create a)
  with async_inv_create [OF assms(1-4)] assms(5) show ?thesis by blast
next
  case AM_accept
  with assms(3) have d: "drop (cs_count s) cs = conns (cs_accepts s)" "cs_count s \<le> length cs"
    by (auto simp: async_inv_def main_ok_def Let_def)
  show ?thesis
  proof (cases "cs_accepts s")
    case Nil
    with AM_accept assms(5) have "s' = s\<lparr>am_pc := AM_wait\<rparr>" by (simp add: action_handler_step_def)
    with Nil AM_accept d assms(4) async_inv_main_only [OF assms(3), of s' "am_cells s" AM_wait "cs_accepts s"]
    show ?thesis by (auto simp: main_ok_def Let_def async_rank_def main_rank_def)
  next
    case (Cons fd rest)
    let ?p = "if fd > 0 then AM_malloc fd else AM_wait"
    from Cons AM_accept assms(5) have "s' = s\<lparr>cs_accepts := rest, am_pc := ?p\<rparr>"
      by (simp add: action_handler_step_def)
    with Cons AM_accept d assms(4) async_inv_main_only [OF assms(3), of s' "am_cells s" ?p rest]
    show ?thesis by (auto simp: main_ok_def Let_def async_rank_def main_rank_def conns_def)
  qed
next
  case AM_wait
  with assms(5) have "s' = s\<lparr>am_pc := AM_accept\<rparr>" "cs_accepts s \<noteq> []"
    by (auto simp: action_handler_step_def split: if_splits)
  with AM_wait assms(3,4) async_inv_main_only [OF assms(3), of s' "am_cells s" AM_accept "cs_accepts s"]
  show ?thesis by (auto simp: async_inv_def main_ok_def Let_def async_rank_def main_rank_def)
next
  case (AM_malloc fd)
  with assms(5) have "s' = s\<lparr>am_pc := AM_store fd (alloc (cs_count s))\<rparr>"
    by (auto simp: action_handler_step_def)
  with AM_malloc assms(3,4)
    async_inv_main_only [OF assms(3), of s' "am_cells s" "AM_store fd (alloc (cs_count s))" "cs_accepts s"]
  show ?thesis by (auto simp: async_inv_def main_ok_def Let_def async_rank_def main_rank_def)
qed

lemma async_inv_init:
  assumes "cs = conns accepts"
  shows "async_inv alloc create junk cs msgs (async_clients_init accepts (\<lambda>fd. script (msgs fd)))"
  using assms
  by (simp add: async_inv_def async_clients_init_def main_ok_def connection_ok_def untouched_def no_thread_def Let_def)

text \<open>A created thread that has not finished can take a step.\<close>

lemma on_course_steps:
  assumes "on_course ms junk fd k s" and "ht_pc (cs_threads s k) \<noteq> CH_done"
  shows "\<exists>t. async_handler_step k s = Some t"
  using assms
  by (cases "ht_pc (cs_threads s k)")
    (auto simp: on_course_def echo_ok.simps async_handler_step_def echo_step_def Let_def or_fault_def
      script_def split: list.splits)

lemma async_progress:
  assumes "async_inv alloc create junk cs msgs s" and "\<not> async_ended create cs s"
  shows "\<exists>t. async_step alloc create junk s t"
proof (cases "am_pc s = AM_wait \<and> cs_accepts s = []")
  case True
  then have n: "cs_count s = length cs"
    using assms(1) by (auto simp: async_inv_def main_ok_def Let_def conns_def)
  with True assms(2) obtain i where i: "i < length cs" "create i = 0" "ht_pc (cs_threads s i) \<noteq> CH_done"
    by (auto simp: async_ended_def)
  with n assms(1) have "on_course (msgs (cs ! i)) (junk i) (cs ! i) i s"
    by (auto simp: async_inv_def connection_ok_def)
  from on_course_steps [OF this i(3)] assms(2) show ?thesis
    by (auto simp: async_ended_def intro: async_thread)
next
  case False
  then have "\<exists>t. action_handler_step alloc create junk s = Some t"
    by (auto simp: action_handler_step_def or_fault_def split: am_pc.splits list.splits)
  with assms(2) show ?thesis by (auto simp: async_ended_def intro: async_main)
qed

text \<open>The server is a thread program in the sense of \<open>Thread_Runs\<close>.\<close>

lemma async_thread_program:
  assumes "async_env alloc junk accepts msgs"
  shows "thread_program (async_clients_init accepts (\<lambda>fd. script (msgs fd))) (async_step alloc create junk)
    (\<lambda>_ _. False) (async_inv alloc create junk (conns accepts) msgs) (async_rank (conns accepts))
    (async_ended create (conns accepts))"
proof (rule thread_program.intro)
  let ?inv = "async_inv alloc create junk (conns accepts) msgs" and ?rank = "async_rank (conns accepts)"
  have dist: "distinct (conns accepts)" using assms by (simp add: async_env_def)
  show "?inv (async_clients_init accepts (\<lambda>fd. script (msgs fd)))" by (rule async_inv_init) simp
  have step: "?inv t \<and> ?rank t < ?rank s" if "?inv s" "async_step alloc create junk s t" for s t
    using that(2)
  proof cases
    case async_main
    then show ?thesis using async_inv_main [OF assms refl that(1)] by simp
  next
    case (async_thread k)
    then show ?thesis using async_inv_thread [OF dist that(1)] by simp
  qed
  then show "?inv s \<Longrightarrow> async_step alloc create junk s t \<Longrightarrow> ?inv t"
    and "?inv s \<Longrightarrow> async_step alloc create junk s t \<Longrightarrow> ?rank t < ?rank s" for s t by simp_all
  show "?inv s \<Longrightarrow> \<not> async_ended create (conns accepts) s \<Longrightarrow> \<exists>t. async_step alloc create junk s t" for s
    by (rule async_progress)
qed simp

text \<open>What a handler sends, and what it would do alone.\<close>

lemma echo_ok_prefix:
  "echo_ok ms junk t inp out n \<Longrightarrow> prefix out (map Wrote (answers junk ms) @ [Ended Disconnected])"
  by (cases "ht_pc t") (auto simp: echo_ok.simps goes_on_def)

lemma echo_ok_closed: "echo_ok ms junk t inp out n \<Longrightarrow> n \<le> 1"
  by (cases "ht_pc t") (auto simp: echo_ok.simps)

lemma handler_alone:
  assumes "async_env alloc junk accepts msgs"
  shows "async_multi_handler (script (msgs fd)) (junk i) = Some (if survives (junk i) (msgs fd)
    then Inr (map Wrote (answers (junk i) (msgs fd)) @ [Ended Disconnected, Closed]) else Inl Out_of_bounds)"
proof -
  have ne: "\<forall>m\<in>set (msgs fd). m \<noteq> []" using assms by (auto simp: async_env_def)
  show ?thesis
    using recv_loop_alone [OF ne, of False True "[]" "junk i" "[]"]
    by (simp add: async_multi_handler_def script_def round_events_simps one_event)
qed

text \<open>What the server has done for its clients when it has come to rest.\<close>

lemma async_ended_served:
  assumes "async_env alloc junk accepts msgs" and "async_inv alloc create junk (conns accepts) msgs t"
    and "async_ended create (conns accepts) t"
  shows "(\<exists>r. cs_exit t = Some r \<and> async_end alloc create junk (conns accepts) msgs r) \<or>
    cs_exit t = None \<and> (\<forall>i<length (conns accepts). let fd = conns accepts ! i in
      if create i = 0
      then async_multi_handler (script (msgs fd)) (junk i) = Some (Inr (out_of fd (cs_out t) @ [Closed])) \<and>
        count_list (cs_closed t) fd = 1
      else 0 < create i \<and> out_of fd (cs_out t) = [] \<and> count_list (cs_closed t) fd = 0)"
proof (cases "cs_exit t")
  case None
  have "if create i = 0
      then async_multi_handler (script (msgs fd)) (junk i) = Some (Inr (out_of fd (cs_out t) @ [Closed])) \<and>
        count_list (cs_closed t) fd = 1
      else 0 < create i \<and> out_of fd (cs_out t) = [] \<and> count_list (cs_closed t) fd = 0"
    if i: "i < length (conns accepts)" "fd = conns accepts ! i" for i fd
  proof -
    have c: "connection_ok create junk (conns accepts) msgs i t" "cs_count t = length (conns accepts)" "0 \<le> create i"
      "create i = 0 \<longrightarrow> ht_pc (cs_threads t i) = CH_done"
      using assms(2,3) None i(1) by (auto simp: async_inv_def async_ended_def)
    show ?thesis
    proof (cases "create i = 0")
      case True
      with c i have "on_course (msgs fd) (junk i) fd i t" by (simp add: connection_ok_def)
      with True c(4) handler_alone [OF assms(1), of fd i] show ?thesis by (simp add: on_course_def echo_ok.simps)
    next
      case False
      with c i(2) show ?thesis by (auto simp: connection_ok_def untouched_def)
    qed
  qed
  with None show ?thesis by (simp add: Let_def)
next
  case (Some r)
  with assms(2) show ?thesis by (simp add: async_inv_def)
qed

text \<open>A run given by its schedule: \<open>None\<close> is a step of the signal handler, \<open>Some k\<close> one of thread \<open>k\<close>.\<close>

fun async_run :: "(nat \<Rightarrow> addr) \<Rightarrow> (nat \<Rightarrow> int) \<Rightarrow> (nat \<Rightarrow> char list) \<Rightarrow> nat option list \<Rightarrow>
    async_clients \<Rightarrow> async_clients option" where
  "async_run alloc create junk [] s = Some s"
| "async_run alloc create junk (w # ws) s =
     (if cs_exit s \<noteq> None then None
      else case (case w of None \<Rightarrow> action_handler_step alloc create junk s | Some k \<Rightarrow> async_handler_step k s) of
        None \<Rightarrow> None
      | Some t \<Rightarrow> async_run alloc create junk ws t)"

lemma async_run_reaches:
  assumes "async_run alloc create junk ws s = Some t"
    and "reaches (async_step alloc create junk) env s0 s"
  shows "reaches (async_step alloc create junk) env s0 t"
  using assms
proof (induction ws arbitrary: s)
  case (Cons w ws)
  then obtain u where u: "async_run alloc create junk ws u = Some t" "cs_exit s = None"
    "(case w of None \<Rightarrow> action_handler_step alloc create junk s | Some k \<Rightarrow> async_handler_step k s) = Some u"
    by (auto split: if_splits option.splits)
  then have "async_step alloc create junk s u"
    by (cases w) (auto intro: async_main async_thread)
  with Cons.prems(2) have "reaches (async_step alloc create junk) env s0 u" by (rule reaches_prog)
  with Cons.IH u(1) show ?case by blast
qed simp

text \<open>Two clients, two cells; the first thread's array holds stale bytes.\<close>

definition example_junk :: "nat \<Rightarrow> char list" where
  "example_junk i = (if i = 0 then ''abcd'' @ replicate 1996 nul else replicate 2000 nul)"

definition example_msgs :: "int \<Rightarrow> char list list" where
  "example_msgs fd = (if fd = 5 then [''hi''] else [''yo'', ''bye''])"

definition example_alloc :: "nat \<Rightarrow> addr" where
  "example_alloc i = (if i = 0 then 16 else if i = 1 then 32 else NULL)"

lemma example_env: "async_env example_alloc example_junk [5, -1, 7] example_msgs"
  by (auto simp: async_env_def conns_def example_alloc_def example_junk_def example_msgs_def BUFFER_LENGTH_def)

lemma example_conns: "conns [5, -1, 7] = [5, 7]"
  by (simp add: conns_def)

lemma example_alone:
  "survives (example_junk 0) (example_msgs 5)" "answers (example_junk 0) (example_msgs 5) = [''hicd'']"
  "survives (example_junk 1) (example_msgs 7)" "answers (example_junk 1) (example_msgs 7) = [''yo'', ''bye'']"
proof -
  have m: "\<forall>m\<in>set (example_msgs fd). m \<noteq> [] \<and> is_cstring m \<and> length m \<le> length (example_junk i)" for fd i
    by (simp add: example_msgs_def example_junk_def is_cstring_def nul_def)
  have o: "\<not> overruns (example_junk 0) (example_msgs 5)" "\<not> overruns (example_junk 1) (example_msgs 7)"
    by (simp_all add: overruns_def example_msgs_def example_junk_def)
  show "survives (example_junk 0) (example_msgs 5)" "survives (example_junk 1) (example_msgs 7)"
    using alone_reads(1) [OF m] o by simp_all
  show "answers (example_junk 0) (example_msgs 5) = [''hicd'']"
    unfolding alone_reads(2) [OF m o(1)]
    by (simp add: example_msgs_def example_junk_def taken_for_def Let_def c_str_def nul_def)
  show "answers (example_junk 1) (example_msgs 7) = [''yo'', ''bye'']"
    unfolding alone_reads(2) [OF m o(2)]
    by (simp add: example_msgs_def example_junk_def taken_for_def Let_def c_str_def)
qed

section \<open>The asynchronous server: properties\<close>

text \<open>
  C6. \<open>async_TCP_multithread\<close> keeps its clients apart, whatever the threads' arrays, which are not initialised, hold.
  The accepted connections have different descriptors (\<open>async_env\<close>).
  Under every schedule of the signal handler and the connection threads, in every state the server can reach: a thread
  that has read its argument works on the connection it was started for; what was written to a connection is a prefix of
  what the handler would write if it ran alone with that connection's messages and its own array, whose initial contents
  decide what follows a message (\<open>Echo_Replies\<close>); every answer to a string starts with that string, and the
  messages come back as they are if the array held a NUL where each of them ends; a connection is closed at most once;
  every cell allocated for a thread stays allocated. The process ends only when a thread that would do so alone reads
  beyond its array, when \<open>malloc\<close> returns NULL or when \<open>pthread_create\<close> returns a negative number.
\<close>

theorem async_clients_isolated:
  assumes "async_env alloc junk accepts msgs"
    and "reaches (async_step alloc create junk) (\<lambda>_ _. False)
      (async_clients_init accepts (\<lambda>fd. script (msgs fd))) s"
    and "i < length (conns accepts)" and "fd = conns accepts ! i"
  shows "(\<forall>r. cs_exit s = Some r \<longrightarrow> async_end alloc create junk (conns accepts) msgs r) \<and>
    (ht_pc (cs_threads s i) \<notin> {CH_unborn, CH_start} \<longrightarrow> ht_sock (cs_threads s i) = fd) \<and>
    prefix (out_of fd (cs_out s)) (map Wrote (answers (junk i) (msgs fd)) @ [Ended Disconnected]) \<and>
    async_multi_handler (script (msgs fd)) (junk i) = Some (if survives (junk i) (msgs fd)
      then Inr (map Wrote (answers (junk i) (msgs fd)) @ [Ended Disconnected, Closed]) else Inl Out_of_bounds) \<and>
    (\<forall>j<length (answers (junk i) (msgs fd)). is_cstring (msgs fd ! j) \<longrightarrow>
      prefix (msgs fd ! j) (answers (junk i) (msgs fd) ! j)) \<and>
    ((\<forall>m\<in>set (msgs fd). is_cstring m \<and> length m < BUFFER_LENGTH \<and> junk i ! length m = nul) \<longrightarrow>
      answers (junk i) (msgs fd) = msgs fd) \<and>
    count_list (cs_closed s) fd \<le> 1 \<and>
    (i < cs_count s \<longrightarrow> am_cells s (alloc i) = Some fd)"
proof -
  let ?cs = "conns accepts"
  have inv: "async_inv alloc create junk ?cs msgs s"
    by (rule thread_program.reaches_inv [OF async_thread_program [OF assms(1)] assms(2)])
  then have c: "connection_ok create junk ?cs msgs i s" using assms(3) by (simp add: async_inv_def)
  have here: "(ht_pc (cs_threads s i) \<notin> {CH_unborn, CH_start} \<longrightarrow> ht_sock (cs_threads s i) = fd) \<and>
    prefix (out_of fd (cs_out s)) (map Wrote (answers (junk i) (msgs fd)) @ [Ended Disconnected]) \<and>
    count_list (cs_closed s) fd \<le> 1"
    using c assms(4)
    by (auto simp: connection_ok_def on_course_def untouched_def dest: echo_ok_prefix echo_ok_closed split: if_splits)
  have exact: "answers (junk i) (msgs fd) = msgs fd"
    if "\<forall>m\<in>set (msgs fd). is_cstring m \<and> length m < BUFFER_LENGTH \<and> junk i ! length m = nul"
  proof -
    have m: "\<forall>m\<in>set (msgs fd). m \<noteq> [] \<and> is_cstring m \<and> length m \<le> length (junk i)"
      and n: "\<forall>m\<in>set (msgs fd). length m < length (junk i) \<and> junk i ! length m = nul"
      using that assms(1) by (auto simp: async_env_def)
    from alone_reads(2) [OF m reads_exact(1) [OF n]] reads_exact(2) [OF n] show ?thesis by simp
  qed
  show ?thesis
    using here exact inv assms(4) handler_alone [OF assms(1), of fd i] answers_prefix [of _ "junk i" "msgs fd"]
    by (simp add: async_inv_def)
qed

theorem async_clients_isolated_witness:
  "\<exists>s. async_run example_alloc (\<lambda>_. 0) example_junk [None, None, None, None, None, Some 0]
      (async_clients_init [5, -1, 7] (\<lambda>fd. script (example_msgs fd))) = Some s \<and>
    ht_pc (cs_threads s 0) = CH_recv \<and> ht_sock (cs_threads s 0) = 5 \<and> am_cells s 16 = Some 5 \<and>
    prefix (out_of 5 (cs_out s)) [Wrote ''hicd'', Ended Disconnected]"
proof -
  let ?init = "async_clients_init [5, -1, 7] (\<lambda>fd. script (example_msgs fd))"
  let ?run = "async_run example_alloc (\<lambda>_. 0) example_junk [None, None, None, None, None, Some 0] ?init"
  have "\<exists>s. ?run = Some s \<and> ht_pc (cs_threads s 0) = CH_recv \<and> cs_count s = 1"
    by (simp add: async_clients_init_def action_handler_step_def async_handler_step_def spawn_def Let_def example_alloc_def)
  then obtain s where s: "?run = Some s" "ht_pc (cs_threads s 0) = CH_recv" "cs_count s = 1" by blast
  from async_run_reaches [OF s(1) reaches_start]
  have "reaches (async_step example_alloc (\<lambda>_. 0) example_junk) (\<lambda>_ _. False) ?init s" .
  from async_clients_isolated [OF example_env this, of 0 5] s show ?thesis
    by (auto simp: example_conns example_alone example_alloc_def)
qed

text \<open>
  C2. \<open>async_TCP_multithread\<close> serves its clients, connections with different descriptors, whatever the threads' arrays
  hold. From every reachable state, under
  every schedule, the server comes to rest after a bounded number of steps. Then either the process has ended,
  because a thread read beyond its array as it would have done alone, because \<open>malloc\<close> returned NULL or because
  \<open>pthread_create\<close> returned a negative number; or every client that disconnects after its messages and whose thread
  was created has been sent exactly what the handler sends when it runs alone, and its connection is closed once. A
  client for which \<open>pthread_create\<close> returned an error, a positive number which \<open>main\<close> does not take for one, is sent
  nothing and never closed.
\<close>

theorem async_clients_served:
  assumes "async_env alloc junk accepts msgs"
    and "reaches (async_step alloc create junk) (\<lambda>_ _. False)
      (async_clients_init accepts (\<lambda>fd. script (msgs fd))) s"
  shows "(\<exists>N. \<forall>n t. steps (async_step alloc create junk) n s t \<longrightarrow> n \<le> N) \<and>
    (\<exists>n t. steps (async_step alloc create junk) n s t \<and> stuck (async_step alloc create junk) t) \<and>
    (\<forall>n t. steps (async_step alloc create junk) n s t \<longrightarrow> stuck (async_step alloc create junk) t \<longrightarrow>
      (\<exists>r. cs_exit t = Some r \<and> async_end alloc create junk (conns accepts) msgs r) \<or>
      cs_exit t = None \<and> (\<forall>i<length (conns accepts). let fd = conns accepts ! i in
        if create i = 0
        then async_multi_handler (script (msgs fd)) (junk i) = Some (Inr (out_of fd (cs_out t) @ [Closed])) \<and>
          count_list (cs_closed t) fd = 1
        else 0 < create i \<and> out_of fd (cs_out t) = [] \<and> count_list (cs_closed t) fd = 0))"
proof -
  let ?cs = "conns accepts"
  note tp = async_thread_program [OF assms(1)]
  have "n \<le> async_rank ?cs s" if "steps (async_step alloc create junk) n s t" for n t
    by (rule thread_program.steps_bounded [OF tp assms(2) that])
  moreover have "\<exists>n t. steps (async_step alloc create junk) n s t \<and> stuck (async_step alloc create junk) t"
    using thread_program.runs_to_end [OF tp thread_program.reaches_inv [OF tp assms(2)]] by blast
  ultimately show ?thesis
    using thread_program.stuck_ended [OF tp assms(2)] async_ended_served [OF assms(1), where create = create] by blast
qed

theorem async_clients_served_witness:
  "\<exists>n t. steps (async_step example_alloc (\<lambda>_. 0) example_junk) n
      (async_clients_init [5, -1, 7] (\<lambda>fd. script (example_msgs fd))) t \<and>
    out_of 5 (cs_out t) = [Wrote ''hicd'', Ended Disconnected] \<and>
    out_of 7 (cs_out t) = [Wrote ''yo'', Wrote ''bye'', Ended Disconnected] \<and>
    count_list (cs_closed t) 5 = 1 \<and> count_list (cs_closed t) 7 = 1"
proof -
  let ?step = "async_step example_alloc (\<lambda>_. 0) example_junk"
  let ?good = "\<lambda>t. \<forall>i<length (conns [5, -1, 7]). let fd = conns [5, -1, 7] ! i in
    if (0::int) = 0 then async_multi_handler (script (example_msgs fd)) (example_junk i) =
      Some (Inr (out_of fd (cs_out t) @ [Closed])) \<and> count_list (cs_closed t) fd = 1
    else 0 < (0::int) \<and> out_of fd (cs_out t) = [] \<and> count_list (cs_closed t) fd = 0"
  have no: "\<not> async_end example_alloc (\<lambda>_. 0) example_junk (conns [5, -1, 7]) example_msgs r" for r
  proof -
    have "survives (example_junk i) (example_msgs (conns [5, -1, 7] ! i)) \<and> example_alloc i \<noteq> NULL"
      if "i < length (conns [5, -1, 7])" for i
    proof -
      have "i = 0 \<or> i = 1" using that by (auto simp: example_conns)
      then show ?thesis using example_alone by (auto simp: example_conns example_alloc_def)
    qed
    then show ?thesis by (auto simp: async_end_def)
  qed
  note ex = async_clients_served [OF example_env reaches_start, of "\<lambda>_. 0"]
  then obtain n t where t: "steps ?step n (async_clients_init [5, -1, 7] (\<lambda>fd. script (example_msgs fd))) t" "stuck ?step t"
    by blast
  with ex no have all: "?good t" by blast
  show ?thesis
    using all [rule_format, of 0] all [rule_format, of 1] t(1) handler_alone [OF example_env, of 5 0]
      handler_alone [OF example_env, of 7 1]
    by (intro exI [of _ n] exI [of _ t]) (simp add: example_conns example_alone [simplified] Let_def)
qed

end
