(* ===== verification/Multi_Clients.thy ===== *)
theory Multi_Clients
  imports Client_Threads
begin

text \<open>
  The server of \<open>TCP_sockets/src/multi_server.c\<close> as a step relation over all schedules. Its threads get a
  pointer to the variable \<open>client_socket\<close> of \<open>main\<close>, which \<open>main\<close> overwrites with the next
  connection: which connection a thread serves depends on the schedule.
\<close>

section \<open>The program\<close>

datatype mm_pc = MM_accept | MM_create | MM_return

record multi_clients = clients +
  mm_pc :: mm_pc
  client_socket :: int

definition multi_clients_init :: "int list \<Rightarrow> (int \<Rightarrow> recv_result list) \<Rightarrow> multi_clients" where
  "multi_clients_init accepts inp =
     \<lparr>cs_accepts = accepts, cs_in = inp, cs_threads = (\<lambda>_. no_thread), cs_count = 0, cs_out = [],
      cs_closed = [], cs_exit = None, mm_pc = MM_accept, client_socket = 0\<rparr>"

text \<open>
  \<open>main\<close> up to its loop, from what \<open>socket\<close> and \<open>bind\<close> return; \<open>listen\<close> is not checked.
\<close>

definition multi_server_main :: "int \<Rightarrow> int \<Rightarrow> int list \<Rightarrow> (int \<Rightarrow> recv_result list) \<Rightarrow> multi_clients" where
  "multi_server_main sock bound accepts inp =
     (let s = multi_clients_init accepts inp in
      if sock = - 1 then s\<lparr>cs_exit := Some (Inl (Exit_status 1))\<rparr>
      else if bound < 0 then s\<lparr>cs_exit := Some (Inr 1)\<rparr>
      else s)"

text \<open>
  The loop of \<open>main\<close>: it goes on with every result of \<open>accept\<close> but 0, also with -1.
\<close>

definition multi_main_step ::
    "(nat \<Rightarrow> int) \<Rightarrow> (nat \<Rightarrow> char list) \<Rightarrow> multi_clients \<Rightarrow> multi_clients option" where
  "multi_main_step create junk s = (case mm_pc s of
       MM_accept \<Rightarrow> (case cs_accepts s of
           [] \<Rightarrow> None
         | fd # rest \<Rightarrow> Some (s\<lparr>cs_accepts := rest, client_socket := fd,
             mm_pc := (if fd \<noteq> 0 then MM_create else MM_return)\<rparr>))
     | MM_create \<Rightarrow>
         if create (cs_count s) < 0 then Some (s\<lparr>cs_exit := Some (Inr 1)\<rparr>)
         else Some ((if create (cs_count s) = 0 then spawn junk s else s)
                    \<lparr>cs_count := cs_count s + 1, mm_pc := MM_accept\<rparr>)
     | MM_return \<Rightarrow> Some (s\<lparr>cs_exit := Some (Inr (if client_socket s < 0 then 1 else 0))\<rparr>))"

text \<open>
  \<open>connection_handler\<close> reads its descriptor through a pointer to \<open>client_socket\<close> and frees that
  pointer at the end, which is not one that \<open>malloc\<close> returned.
\<close>

definition multi_handler_step :: "nat \<Rightarrow> multi_clients \<Rightarrow> multi_clients option" where
  "multi_handler_step k s = (let t = cs_threads s k in case ht_pc t of
       CH_start \<Rightarrow> Some (put_thread k (t\<lparr>ht_pc := CH_greet, ht_sock := client_socket s\<rparr>) s)
     | CH_greet \<Rightarrow> Some (event (ht_sock t) (Wrote greeting) (put_thread k (t\<lparr>ht_pc := CH_recv\<rparr>) s))
     | CH_end \<Rightarrow> Some (event (ht_sock t) (Ended (ht_read t)) (put_thread k (t\<lparr>ht_pc := CH_free\<rparr>) s))
     | CH_free \<Rightarrow> Some (s\<lparr>cs_exit := Some (Inl Bad_pointer)\<rparr>)
     | _ \<Rightarrow> echo_step True k s)"

inductive multi_step :: "(nat \<Rightarrow> int) \<Rightarrow> (nat \<Rightarrow> char list) \<Rightarrow> multi_clients \<Rightarrow> multi_clients \<Rightarrow> bool"
  for create junk where
  multi_main: "cs_exit s = None \<Longrightarrow> multi_main_step create junk s = Some t \<Longrightarrow> multi_step create junk s t"
| multi_thread: "cs_exit s = None \<Longrightarrow> multi_handler_step k s = Some t \<Longrightarrow> multi_step create junk s t"

section \<open>Invariants\<close>

definition handler_local :: "nat \<Rightarrow> multi_clients \<Rightarrow> multi_clients \<Rightarrow> bool" where
  "handler_local k s t \<longleftrightarrow>
     cs_accepts t = cs_accepts s \<and> cs_count t = cs_count s \<and> mm_pc t = mm_pc s \<and>
     client_socket t = client_socket s \<and> (\<forall>j. j \<noteq> k \<longrightarrow> cs_threads t j = cs_threads s j) \<and>
     ht_pc (cs_threads s k) \<noteq> CH_unborn \<and>
     (ht_pc (cs_threads t k) \<notin> {CH_unborn, CH_start} \<and>
      ht_sock (cs_threads t k) =
        (if ht_pc (cs_threads s k) = CH_start then client_socket s else ht_sock (cs_threads s k))) \<and>
     (\<forall>f. f \<noteq> ht_sock (cs_threads t k) \<longrightarrow>
        cs_in t f = cs_in s f \<and> out_of f (cs_out t) = out_of f (cs_out s))"

lemma more_eq: "clients.more t = clients.more s \<Longrightarrow> mm_pc t = mm_pc s \<and> client_socket t = client_socket s"
  by (cases s, cases t) simp

lemma handler_step_local:
  assumes "multi_handler_step k s = Some t"
  shows "handler_local k s t"
proof (cases "ht_pc (cs_threads s k) \<in> {CH_start, CH_greet, CH_end, CH_free}")
  case True
  with assms show ?thesis by (auto simp: multi_handler_step_def Let_def handler_local_def)
next
  case False
  then have e: "echo_step True k s = Some t"
    using assms by (auto simp: multi_handler_step_def Let_def split: ch_pc.splits)
  from echo_step_local [OF e] more_eq [OF echo_step_local(3) [OF e]] show ?thesis
    by (simp add: handler_local_def)
qed

text \<open>
  \<open>m\<close> results of \<open>accept\<close> have been stored in \<open>client_socket\<close>, the last one is there, and handlers
  exist for the earlier ones only.
\<close>

definition main_at :: "int list \<Rightarrow> nat \<Rightarrow> multi_clients \<Rightarrow> bool" where
  "main_at accepts m s \<longleftrightarrow> m \<le> length accepts \<and> cs_accepts s = drop m accepts \<and>
     m = cs_count s + (if mm_pc s = MM_accept then 0 else 1) \<and>
     (0 < m \<longrightarrow> client_socket s = accepts ! (m - 1)) \<and> (mm_pc s = MM_return \<longrightarrow> client_socket s = 0) \<and>
     (\<forall>k. ht_pc (cs_threads s k) \<noteq> CH_unborn \<longrightarrow> k < cs_count s)"

text \<open>What a started handler has read, given what is known of it.\<close>

definition started_with :: "(nat \<Rightarrow> int \<Rightarrow> bool) \<Rightarrow> multi_clients \<Rightarrow> bool" where
  "started_with P s \<longleftrightarrow>
     (\<forall>k. ht_pc (cs_threads s k) \<notin> {CH_unborn, CH_start} \<longrightarrow> P k (ht_sock (cs_threads s k)))"

lemma main_at_init: "main_at accepts 0 (multi_clients_init accepts inp)"
  by (simp add: main_at_def multi_clients_init_def no_thread_def)

lemma main_at_thread:
  assumes "main_at accepts m s" and "multi_handler_step k s = Some t"
  shows "main_at accepts m t"
proof -
  note l = handler_step_local [OF assms(2)]
  have "ht_pc (cs_threads t j) \<noteq> CH_unborn \<Longrightarrow> ht_pc (cs_threads s j) \<noteq> CH_unborn" for j
    using l by (cases "j = k") (auto simp: handler_local_def)
  with assms(1) l show ?thesis by (auto simp: main_at_def handler_local_def)
qed

text \<open>A step of \<open>main\<close> starts no handler's work.\<close>

lemma main_step_threads:
  assumes "multi_main_step create junk s = Some t" and "ht_pc (cs_threads t k) \<noteq> CH_start"
  shows "cs_threads t k = cs_threads s k"
  using assms
  by (cases "mm_pc s") (auto simp: multi_main_step_def spawn_def split: list.splits if_splits)

lemma main_at_main:
  assumes "main_at accepts m s" and "multi_main_step create junk s = Some t"
  shows "main_at accepts (length accepts - length (cs_accepts t)) t" (is "main_at accepts ?m t")
    and "m \<le> length accepts - length (cs_accepts t)"
proof -
  have "main_at accepts ?m t \<and> m \<le> ?m"
  proof (cases "mm_pc s")
    case MM_accept
    then obtain fd rest where r: "cs_accepts s = fd # rest"
      using assms(2) by (cases "cs_accepts s") (auto simp: multi_main_step_def)
    have d: "drop m accepts = fd # rest" and m: "m \<le> length accepts" "cs_count s = m"
      using assms(1) r MM_accept by (simp_all add: main_at_def)
    note n = drop_nth [OF d m(1)]
    have t: "t = s\<lparr>cs_accepts := rest, client_socket := fd,
        mm_pc := (if fd \<noteq> 0 then MM_create else MM_return)\<rparr>"
      using assms(2) MM_accept r by (simp add: multi_main_step_def)
    have "length rest = length accepts - Suc m" using arg_cong [OF d, of length] by simp
    then have "length accepts - length (cs_accepts t) = Suc m" using t n(1) by simp
    with assms(1) n t m show ?thesis by (auto simp: main_at_def)
  next
    case MM_create
    with assms show ?thesis
      by (auto simp: main_at_def multi_main_step_def spawn_def less_Suc_eq split: if_splits)
  next
    case MM_return
    with assms show ?thesis by (auto simp: main_at_def multi_main_step_def)
  qed
  then show "main_at accepts ?m t" and "m \<le> ?m" by simp_all
qed

text \<open>
  What every handler has read, under any schedule: some result of \<open>accept\<close> stored no earlier than
  the one it was started for.
\<close>

definition multi_inv :: "int list \<Rightarrow> multi_clients \<Rightarrow> bool" where
  "multi_inv accepts s \<longleftrightarrow> (let m = length accepts - length (cs_accepts s) in main_at accepts m s \<and>
     started_with (\<lambda>k fd. \<exists>j<m. k \<le> j \<and> fd = accepts ! j) s)"

lemma multi_inv_step:
  assumes inv: "multi_inv accepts s" and step: "multi_step create junk s t"
  shows "multi_inv accepts t"
proof -
  let ?m = "length accepts - length (cs_accepts s)"
  have m: "main_at accepts ?m s" and st: "started_with (\<lambda>k fd. \<exists>j<?m. k \<le> j \<and> fd = accepts ! j) s"
    using inv by (simp_all add: multi_inv_def Let_def)
  from step show ?thesis
  proof cases
    case multi_main
    note n = main_at_main [OF m multi_main(2)]
    show ?thesis
      using n st main_step_threads [OF multi_main(2)]
      unfolding multi_inv_def Let_def started_with_def by (metis insertCI order_less_le_trans)
  next
    case (multi_thread k)
    note l = handler_step_local [OF multi_thread(2), unfolded handler_local_def]
    have n: "main_at accepts ?m t" using main_at_thread [OF m multi_thread(2)] l by simp
    have k: "k < ?m" using m l by (auto simp: main_at_def)
    then have "client_socket s = accepts ! (?m - 1)" using m by (auto simp: main_at_def)
    then have own: "\<exists>j<?m. k \<le> j \<and> client_socket s = accepts ! j"
      using k by (intro exI [of _ "?m - 1"]) auto
    have "\<exists>j'<?m. j \<le> j' \<and> ht_sock (cs_threads t j) = accepts ! j'"
      if "ht_pc (cs_threads t j) \<notin> {CH_unborn, CH_start}" for j
      using l st own that by (cases "j = k") (auto simp: started_with_def)
    with n l show ?thesis by (simp add: multi_inv_def Let_def started_with_def)
  qed
qed

lemma multi_inv_reaches:
  assumes "reaches (multi_step create junk) (\<lambda>_ _. False) (multi_clients_init accepts inp) s"
  shows "multi_inv accepts s"
  using assms
proof (induction rule: reaches.induct)
  case reaches_start
  have "cs_accepts (multi_clients_init accepts inp) = accepts" by (simp add: multi_clients_init_def)
  then show ?case using main_at_init [of accepts inp]
    by (simp add: multi_inv_def Let_def started_with_def multi_clients_init_def no_thread_def)
qed (auto intro: multi_inv_step)

text \<open>
  Schedules in which a new handler reads its argument before \<open>main\<close> stores the next descriptor.
\<close>

definition prompt_step :: "(nat \<Rightarrow> int) \<Rightarrow> (nat \<Rightarrow> char list) \<Rightarrow> multi_clients \<Rightarrow> multi_clients \<Rightarrow> bool" where
  "prompt_step create junk s t \<longleftrightarrow> multi_step create junk s t \<and>
     (cs_accepts t \<noteq> cs_accepts s \<longrightarrow> (\<forall>k. ht_pc (cs_threads s k) \<noteq> CH_start))"

definition prompt_inv :: "int list \<Rightarrow> multi_clients \<Rightarrow> bool" where
  "prompt_inv accepts s \<longleftrightarrow> started_with (\<lambda>k fd. fd = accepts ! k) s \<and>
     (\<forall>k. ht_pc (cs_threads s k) = CH_start \<longrightarrow> client_socket s = accepts ! k \<and> mm_pc s = MM_accept)"

lemma prompt_inv_step:
  assumes "multi_inv accepts s" and inv: "prompt_inv accepts s" and step: "prompt_step create junk s t"
  shows "prompt_inv accepts t"
proof -
  have m: "main_at accepts (length accepts - length (cs_accepts s)) s"
    using assms(1) by (simp add: multi_inv_def Let_def)
  from step have "multi_step create junk s t" by (simp add: prompt_step_def)
  then show ?thesis
  proof cases
    case (multi_thread k)
    note l = handler_step_local [OF multi_thread(2), unfolded handler_local_def]
    have "ht_sock (cs_threads t k) = accepts ! k" using l inv by (auto simp: prompt_inv_def started_with_def)
    moreover have "j \<noteq> k \<Longrightarrow> cs_threads t j = cs_threads s j" for j using l by blast
    ultimately show ?thesis
      using inv l unfolding prompt_inv_def started_with_def by (metis insertCI)
  next
    case multi_main
    have st: "started_with (\<lambda>k fd. fd = accepts ! k) t"
      using inv main_step_threads [OF multi_main(2)]
      unfolding prompt_inv_def started_with_def by (metis insertCI)
    show ?thesis
    proof (cases "mm_pc s")
      case MM_accept
      then obtain fd rest where r: "cs_accepts s = fd # rest"
        using multi_main(2) by (cases "cs_accepts s") (auto simp: multi_main_step_def)
      then have "cs_accepts t \<noteq> cs_accepts s" "cs_threads t = cs_threads s"
        using multi_main(2) MM_accept by (auto simp: multi_main_step_def)
      with step st show ?thesis by (simp add: prompt_step_def prompt_inv_def)
    next
      case MM_create
      then have "\<forall>k. ht_pc (cs_threads s k) \<noteq> CH_start" using inv by (auto simp: prompt_inv_def)
      moreover have "client_socket s = accepts ! cs_count s" using m MM_create by (auto simp: main_at_def)
      ultimately show ?thesis
        using st multi_main(2) MM_create
        by (auto simp: prompt_inv_def multi_main_step_def spawn_def split: if_splits)
    next
      case MM_return
      with st inv multi_main(2) show ?thesis by (auto simp: prompt_inv_def multi_main_step_def)
    qed
  qed
qed

lemma prompt_reaches:
  assumes "reaches (prompt_step create junk) (\<lambda>_ _. False) (multi_clients_init accepts inp) s"
  shows "reaches (multi_step create junk) (\<lambda>_ _. False) (multi_clients_init accepts inp) s \<and> prompt_inv accepts s"
  using assms
proof (induction rule: reaches.induct)
  case reaches_start
  show ?case
    by (auto simp: prompt_inv_def started_with_def multi_clients_init_def no_thread_def intro: reaches.intros)
next
  case (reaches_prog t u)
  then have "multi_step create junk t u" by (simp add: prompt_step_def)
  with reaches_prog prompt_inv_step [OF multi_inv_reaches] show ?case by (blast intro: reaches.reaches_prog)
qed simp

text \<open>A connection that no handler can get hold of any more.\<close>

definition lost :: "recv_result list \<Rightarrow> int \<Rightarrow> multi_clients \<Rightarrow> bool" where
  "lost inp c s \<longleftrightarrow> client_socket s \<noteq> c \<and> c \<notin> set (cs_accepts s) \<and> started_with (\<lambda>_ fd. fd \<noteq> c) s \<and>
     out_of c (cs_out s) = [] \<and> cs_in s c = inp"

lemma lost_step:
  assumes "lost inp c s" and "multi_step create junk s t"
  shows "lost inp c t"
  using assms(2)
proof cases
  case multi_main
  have "cs_in t = cs_in s" "cs_out t = cs_out s" "client_socket t \<noteq> c" "c \<notin> set (cs_accepts t)"
    using multi_main(2) assms(1)
    by (auto simp: multi_main_step_def spawn_def lost_def split: mm_pc.splits list.splits if_splits)
  moreover have "started_with (\<lambda>_ fd. fd \<noteq> c) t"
    using assms(1) main_step_threads [OF multi_main(2)] unfolding lost_def started_with_def by (metis insertCI)
  ultimately show ?thesis using assms(1) by (simp add: lost_def)
next
  case (multi_thread k)
  note l = handler_step_local [OF multi_thread(2), unfolded handler_local_def]
  have k: "ht_sock (cs_threads t k) \<noteq> c" using l assms(1) by (auto simp: lost_def started_with_def)
  moreover have "j \<noteq> k \<Longrightarrow> cs_threads t j = cs_threads s j" for j using l by blast
  ultimately have "started_with (\<lambda>_ fd. fd \<noteq> c) t"
    using assms(1) unfolding lost_def started_with_def by metis
  with k l assms(1) show ?thesis by (auto simp: lost_def)
qed

text \<open>Runs given by their schedules, as for the other server.\<close>

fun multi_run :: "(nat \<Rightarrow> int) \<Rightarrow> (nat \<Rightarrow> char list) \<Rightarrow> nat option list \<Rightarrow> multi_clients \<Rightarrow> multi_clients option" where
  "multi_run create junk [] s = Some s"
| "multi_run create junk (w # ws) s =
     (if cs_exit s \<noteq> None then None
      else case (case w of None \<Rightarrow> multi_main_step create junk s | Some k \<Rightarrow> multi_handler_step k s) of
        None \<Rightarrow> None
      | Some t \<Rightarrow> multi_run create junk ws t)"

lemma multi_run_reaches:
  assumes "multi_run create junk ws s = Some t" and "reaches (multi_step create junk) env s0 s"
  shows "reaches (multi_step create junk) env s0 t"
  using assms
proof (induction ws arbitrary: s)
  case (Cons w ws)
  then obtain u where u: "multi_run create junk ws u = Some t" "cs_exit s = None"
    "(case w of None \<Rightarrow> multi_main_step create junk s | Some k \<Rightarrow> multi_handler_step k s) = Some u"
    by (auto split: if_splits option.splits)
  then have "multi_step create junk s u" by (cases w) (auto intro: multi_main multi_thread)
  with Cons.prems(2) have "reaches (multi_step create junk) env s0 u" by (rule reaches_prog)
  with Cons.IH u(1) show ?case by blast
qed simp

text \<open>The branch for a failed \<open>accept\<close> is never taken.\<close>

lemma no_accept_failure:
  assumes "reaches (multi_step create junk) (\<lambda>_ _. False) (multi_clients_init accepts inp) s"
    and "\<forall>k. 0 \<le> create k"
  shows "cs_exit s \<noteq> Some (Inr 1)"
  using assms(1)
proof (cases rule: reaches.cases)
  case reaches_start
  then show ?thesis by (simp add: multi_clients_init_def)
next
  case (reaches_prog t)
  from multi_inv_reaches [OF reaches_prog(1)]
  have m: "main_at accepts (length accepts - length (cs_accepts t)) t" by (simp add: multi_inv_def Let_def)
  from reaches_prog(2) show ?thesis
  proof cases
    case multi_main
    then show ?thesis using m assms(2)
      by (auto simp: multi_main_step_def main_at_def spawn_def not_less [symmetric]
          split: mm_pc.splits list.splits if_splits)
  next
    case (multi_thread k)
    then show ?thesis
      by (auto simp: multi_handler_step_def echo_step_def or_fault_def Let_def
          split: ch_pc.splits list.splits if_splits sum.splits)
  qed
qed simp

lemma multi_server_main_loops:
  assumes "sock \<noteq> - 1" and "0 \<le> bound"
  shows "multi_server_main sock bound accepts inp = multi_clients_init accepts inp"
  using assms by (simp add: multi_server_main_def Let_def)

section \<open>The multi-threaded server: properties\<close>

text \<open>
  C21. The threads of \<open>multi_server.c\<close>, once \<open>socket\<close> and \<open>bind\<close> have succeeded. Under every schedule, the handler started for the \<open>k\<close>-th
  result of \<open>accept\<close> works on that descriptor or on one accepted later. It is its own for sure when
  every handler reads its argument before \<open>main\<close> calls \<open>accept\<close> again. A failed \<open>accept\<close> is not
  noticed: as long as threads can be created, \<open>main\<close> never returns 1 (a handler is started for
  descriptor -1 instead).
\<close>

theorem multi_handlers_serve:
  assumes "reaches (multi_step create junk) (\<lambda>_ _. False) (multi_server_main sock bound accepts inp) s"
    and "reaches (prompt_step create junk) (\<lambda>_ _. False) (multi_server_main sock bound accepts inp) s'"
    and "\<forall>k. 0 \<le> create k" and "sock \<noteq> - 1" and "0 \<le> bound"
  shows "(\<forall>k. ht_pc (cs_threads s k) \<notin> {CH_unborn, CH_start} \<longrightarrow>
      (\<exists>j<length accepts. k \<le> j \<and> ht_sock (cs_threads s k) = accepts ! j)) \<and>
    (\<forall>k. ht_pc (cs_threads s' k) \<notin> {CH_unborn, CH_start} \<longrightarrow> ht_sock (cs_threads s' k) = accepts ! k) \<and>
    cs_exit s \<noteq> Some (Inr 1)"
proof -
  note reach = assms(1,2) [unfolded multi_server_main_loops [OF assms(4,5)]]
  have "started_with (\<lambda>k fd. \<exists>j<length accepts - length (cs_accepts s). k \<le> j \<and> fd = accepts ! j) s"
    using multi_inv_reaches [OF reach(1)] by (simp add: multi_inv_def Let_def)
  then have "\<forall>k. ht_pc (cs_threads s k) \<notin> {CH_unborn, CH_start} \<longrightarrow>
      (\<exists>j<length accepts. k \<le> j \<and> ht_sock (cs_threads s k) = accepts ! j)"
    unfolding started_with_def by (meson diff_le_self order_less_le_trans)
  moreover have "prompt_inv accepts s'" using prompt_reaches [OF reach(2)] by simp
  ultimately show ?thesis
    using no_accept_failure [OF reach(1) assms(3)] by (simp add: prompt_inv_def started_with_def)
qed

theorem multi_handlers_serve_witness:
  "\<exists>s. multi_run (\<lambda>_. 0) (\<lambda>_. replicate 2000 nul) [None, None, Some 0, None, None, Some 1]
      (multi_server_main 3 0 [4, -1] (\<lambda>_. [])) = Some s \<and>
    ht_sock (cs_threads s 0) \<in> {4, -1} \<and> ht_sock (cs_threads s 1) = -1 \<and> cs_exit s \<noteq> Some (Inr 1)"
proof -
  let ?j = "\<lambda>_ :: nat. replicate 2000 nul" and ?c = "\<lambda>_ :: nat. 0 :: int"
  let ?i = "multi_server_main 3 0 [4, -1] (\<lambda>_. [])"
  have "\<exists>s. multi_run ?c ?j [None, None, Some 0, None, None, Some 1] ?i = Some s \<and>
      ht_pc (cs_threads s 0) = CH_greet \<and> ht_pc (cs_threads s 1) = CH_greet"
    by (simp add: multi_server_main_def multi_clients_init_def multi_main_step_def multi_handler_step_def spawn_def Let_def)
  then obtain s where s: "multi_run ?c ?j [None, None, Some 0, None, None, Some 1] ?i = Some s"
    "ht_pc (cs_threads s 0) = CH_greet" "ht_pc (cs_threads s 1) = CH_greet" by blast
  from multi_handlers_serve [OF multi_run_reaches [OF s(1) reaches_start] reaches_start]
  have serve: "ht_pc (cs_threads s k) \<notin> {CH_unborn, CH_start} \<longrightarrow>
      (\<exists>j<length [4, -1]. k \<le> j \<and> ht_sock (cs_threads s k) = [4, -1] ! j)"
    and "cs_exit s \<noteq> Some (Inr 1)" for k by auto
  moreover have "ht_sock (cs_threads s 0) \<in> {4, -1}" using serve [of 0] s(2) by (auto simp: less_Suc_eq)
  moreover have "ht_sock (cs_threads s 1) = -1" using serve [of 1] s(3) by (auto simp: less_Suc_eq)
  ultimately show ?thesis using s(1) by blast
qed

text \<open>
  C33. The race of \<open>multi_server.c\<close>: all threads get a pointer to the same variable. When two clients
  connect and \<open>main\<close> accepts the second before the first handler has read its argument, both
  handlers greet the second client, and however the run goes on, nothing is ever received from or
  sent to the first.
\<close>

theorem multi_server_race:
  assumes "c1 \<noteq> c2" and "c1 \<noteq> 0" and "c2 \<noteq> 0" and "create 0 = 0" and "create 1 = 0"
    and "sock \<noteq> - 1" and "0 \<le> bound"
  shows "\<exists>s. reaches (multi_step create junk) (\<lambda>_ _. False) (multi_server_main sock bound [c1, c2] inp) s \<and>
    out_of c2 (cs_out s) = [Wrote greeting, Wrote greeting] \<and>
    (\<forall>t. reaches (multi_step create junk) (\<lambda>_ _. False) s t \<longrightarrow>
       out_of c1 (cs_out t) = [] \<and> cs_in t c1 = inp c1)"
proof -
  let ?ws = "[None, None, None, None, Some 0, Some 1, Some 0, Some 1]"
  have "\<exists>s. multi_run create junk ?ws (multi_server_main sock bound [c1, c2] inp) = Some s \<and>
      out_of c2 (cs_out s) = [Wrote greeting, Wrote greeting] \<and> lost (inp c1) c1 s"
    using assms
    by (simp add: multi_server_main_def multi_clients_init_def multi_main_step_def multi_handler_step_def spawn_def Let_def
        no_thread_def lost_def started_with_def out_of_def)
  then obtain s where s: "multi_run create junk ?ws (multi_server_main sock bound [c1, c2] inp) = Some s"
    "out_of c2 (cs_out s) = [Wrote greeting, Wrote greeting]" "lost (inp c1) c1 s" by blast
  have "lost (inp c1) c1 t" if "reaches (multi_step create junk) (\<lambda>_ _. False) s t" for t
    using that by induction (auto intro: s(3) lost_step)
  then show ?thesis using s(2) multi_run_reaches [OF s(1) reaches_start] by (auto simp: lost_def)
qed

theorem multi_server_race_witness:
  "\<exists>s. reaches (multi_step (\<lambda>_. 0) (\<lambda>_. replicate 2000 nul)) (\<lambda>_ _. False)
      (multi_server_main 3 0 [4, 5] (\<lambda>_. [Data ''hello'', Disconnected])) s \<and>
    out_of 5 (cs_out s) = [Wrote greeting, Wrote greeting] \<and>
    (\<forall>t. reaches (multi_step (\<lambda>_. 0) (\<lambda>_. replicate 2000 nul)) (\<lambda>_ _. False) s t \<longrightarrow>
       out_of 4 (cs_out t) = [] \<and> cs_in t 4 = [Data ''hello'', Disconnected])"
  by (rule multi_server_race) simp_all

end
