(* ===== verification/Async_IO.thy ===== *)
theory Async_IO
  imports Sentinel_List
begin

text \<open>
  The connection list of \<open>async_UDP_multithread\<close>: connections in a list that starts at a static
  head, each with a mutex; the search takes the locks hand over hand. Locking a mutex that is
  held never returns (the locks are not recursive and this is the only thread that takes them), which
  is the value \<open>None\<close>. What the socket calls return and what arrives are parameters.
\<close>

section \<open>The program\<close>

datatype aIO_conn_e = NONE | TCP | UDP | MSG_QUEUE | SERIAL

record aIO =
  aio_type :: aIO_conn_e
  aio_fd :: int
  aio_port :: "16 word"
  aio_buffer_size :: nat
  aio_buffer :: addr
  aio_callback :: "nat option"
  aio_next :: addr
  aio_locked :: bool

text \<open>\<open>aio_calls\<close>: the calls of callbacks, with the size and the string in the buffer.\<close>

record aio_state =
  aio_nodes :: "addr \<rightharpoonup> aIO"
  aio_bufs :: "addr \<rightharpoonup> char list"
  aio_calls :: "(nat \<times> nat \<times> string) list"
  aio_closed :: "int list"

definition aio_head :: addr where
  "aio_head = 1"

definition zero_aio :: aIO where
  "zero_aio = \<lparr>aio_type = NONE, aio_fd = 0, aio_port = 0, aio_buffer_size = 0, aio_buffer = NULL,
     aio_callback = None, aio_next = NULL, aio_locked = False\<rparr>"

definition aio_zero :: aio_state where
  "aio_zero = \<lparr>aio_nodes = [aio_head \<mapsto> zero_aio], aio_bufs = Map.empty, aio_calls = [], aio_closed = []\<rparr>"

definition getLastConnection :: "aio_state \<Rightarrow> addr crun" where
  "getLastConnection s = last_node aio_next (aio_nodes s) aio_head"

definition mutex_lock :: "addr \<Rightarrow> (addr \<rightharpoonup> aIO) \<Rightarrow> (addr \<rightharpoonup> aIO) crun" where
  "mutex_lock p H = (case deref H p of
       Inl e \<Rightarrow> Some (Inl e)
     | Inr n \<Rightarrow> if aio_locked n then None else Some (Inr (H(p \<mapsto> n\<lparr>aio_locked := True\<rparr>))))"

definition mutex_unlock :: "addr \<Rightarrow> (addr \<rightharpoonup> aIO) \<Rightarrow> (addr \<rightharpoonup> aIO) cres" where
  "mutex_unlock p H = update_at H p (aio_locked_update (\<lambda>_. False))"

text \<open>The loop of \<open>findConnection\<close>, with the lock of \<open>prev\<close> held.\<close>

partial_function (option) find_loop ::
    "aIO_conn_e \<Rightarrow> int \<Rightarrow> addr \<Rightarrow> (addr \<rightharpoonup> aIO) \<Rightarrow> (addr \<times> (addr \<rightharpoonup> aIO)) crun" where
  "find_loop type fd prev H =
     (case deref H prev of
        Inl e \<Rightarrow> Some (Inl e)
      | Inr n \<Rightarrow>
          if aio_next n = NULL
          then Some (cbind (mutex_unlock prev H) (\<lambda>H'. Inr (NULL, H')))
          else (case mutex_lock (aio_next n) H of
              None \<Rightarrow> None
            | Some (Inl e) \<Rightarrow> Some (Inl e)
            | Some (Inr H1) \<Rightarrow>
                if type = TCP \<or> type = UDP then
                  (case deref H1 (aio_next n) of
                     Inl e \<Rightarrow> Some (Inl e)
                   | Inr c \<Rightarrow>
                       if aio_type c = type \<and> aio_fd c = fd
                       then Some (cbind (mutex_unlock prev H1) (\<lambda>H2.
                              cbind (mutex_unlock (aio_next n) H2) (\<lambda>H3. Inr (aio_next n, H3))))
                       else (case mutex_unlock prev H1 of
                               Inl e \<Rightarrow> Some (Inl e)
                             | Inr H2 \<Rightarrow> find_loop type fd (aio_next n) H2))
                else Some (Inr (NULL, H1))))"

definition findConnection :: "aIO_conn_e \<Rightarrow> int \<Rightarrow> aio_state \<Rightarrow> (addr \<times> aio_state) crun" where
  "findConnection type fd s =
     lbind (mutex_lock aio_head (aio_nodes s)) (\<lambda>H.
     lbind (find_loop type fd aio_head H) (\<lambda>(p, H'). Some (Inr (p, s\<lparr>aio_nodes := H'\<rparr>))))"

text \<open>
  \<open>aIODeinit\<close>: sockets are closed and freed; \<open>close_ret\<close> is what \<open>close\<close> returns. At the end the
  program exits.
\<close>

partial_function (option) deinit_loop :: "(int \<Rightarrow> int) \<Rightarrow> addr \<Rightarrow> aio_state \<Rightarrow> aio_state crun" where
  "deinit_loop close_ret iterator s =
     (if iterator = NULL then Some (Inr s)
      else (case deref (aio_nodes s) iterator of
          Inl e \<Rightarrow> Some (Inl e)
        | Inr n \<Rightarrow>
            if aio_type n = UDP \<or> aio_type n = TCP then
              (if close_ret (aio_fd n) \<noteq> 0 then Some (Inl (Exit_status (- 1)))
               else deinit_loop close_ret (aio_next n)
                 (s\<lparr>aio_nodes := (aio_nodes s)(iterator := None),
                    aio_bufs := (aio_bufs s)(aio_buffer n := None),
                    aio_closed := aio_closed s @ [aio_fd n]\<rparr>))
            else deinit_loop close_ret (aio_next n) s))"

definition aIODeinit :: "(int \<Rightarrow> int) \<Rightarrow> aio_state \<Rightarrow> aio_state crun" where
  "aIODeinit close_ret s =
     (case deref (aio_nodes s) aio_head of
        Inl e \<Rightarrow> Some (Inl e)
      | Inr h \<Rightarrow> lbind (deinit_loop close_ret (aio_next h) s) (\<lambda>_. Some (Inl (Exit_status 0))))"

text \<open>\<open>a\<close>, \<open>b\<close>: what \<open>calloc\<close> and \<open>malloc\<close> return; \<open>junk\<close>: the initial contents of the buffer.\<close>

definition createAsyncIO :: "addr \<Rightarrow> addr \<Rightarrow> char \<Rightarrow> aIO_conn_e \<Rightarrow> nat \<Rightarrow> nat option \<Rightarrow> aio_state \<Rightarrow>
    (addr \<times> aio_state) cres" where
  "createAsyncIO a b junk type buffer_size callback s =
     cbind (c_check (Exit_status (- 1)) (a \<noteq> NULL)) (\<lambda>_.
     cbind (c_check (Exit_status (- 1)) (b \<noteq> NULL)) (\<lambda>_.
       Inr (a, s\<lparr>aio_nodes := (aio_nodes s)(a \<mapsto> zero_aio\<lparr>aio_type := type, aio_buffer_size := buffer_size,
                    aio_buffer := b, aio_callback := callback\<rparr>),
                 aio_bufs := (aio_bufs s)(b \<mapsto> replicate buffer_size junk)\<rparr>)))"

text \<open>
  The loop of the signal handler on the datagrams waiting: each is cut to the size of the buffer,
  and the byte at index \<open>read_size - 1\<close> is overwritten by a NUL. An empty datagram ends the loop.
\<close>

fun datagram_loop :: "addr \<Rightarrow> aIO \<Rightarrow> char list list \<Rightarrow> aio_state \<Rightarrow> aio_state cres" where
  "datagram_loop p c [] s = Inr s"
| "datagram_loop p c (m # ms) s =
     (let bytes = take (aio_buffer_size c) m; read_size = length bytes in
      if read_size = 0 then Inr s
      else cbind (deref (aio_bufs s) (aio_buffer c)) (\<lambda>buf.
        cbind (mem_write buf 0 bytes) (\<lambda>buf1.
        cbind (mem_write buf1 (if read_size - 1 \<le> aio_buffer_size c then read_size - 1
                               else aio_buffer_size c) [nul]) (\<lambda>buf2.
        cbind (c_strlen buf2) (\<lambda>n. case aio_callback c of
            None \<Rightarrow> Inl Null_call
          | Some f \<Rightarrow> datagram_loop p c ms
              (s\<lparr>aio_bufs := (aio_bufs s)(aio_buffer c \<mapsto> buf2),
                 aio_calls := aio_calls s @ [(f, read_size, take n buf2)]\<rparr>))))))"

definition aIOUDPSigHandler :: "int \<Rightarrow> char list list \<Rightarrow> aio_state \<Rightarrow> aio_state crun" where
  "aIOUDPSigHandler server_fd ms s =
     lbind (findConnection UDP server_fd s) (\<lambda>(conn, s1).
     lbind (Some (deref (aio_nodes s1) conn)) (\<lambda>_.
     lbind (mutex_lock conn (aio_nodes s1)) (\<lambda>H.
     lbind (Some (deref H conn)) (\<lambda>c.
     lbind (Some (datagram_loop conn c ms (s1\<lparr>aio_nodes := H\<rparr>))) (\<lambda>s2.
       Some (cbind (mutex_unlock conn (aio_nodes s2)) (\<lambda>H'. Inr (s2\<lparr>aio_nodes := H'\<rparr>))))))))"

text \<open>
  \<open>aIOOpenUDPSocket\<close>, up to the point where it releases the lock of the new connection; \<open>fd\<close>, \<open>act\<close>, \<open>fl\<close>,
  \<open>setfl\<close>, \<open>bound\<close> and \<open>own\<close> are what \<open>socket\<close>, \<open>sigaction\<close>, \<open>F_GETFL\<close>, \<open>F_SETFL\<close>, \<open>bind\<close> and \<open>F_SETOWN\<close>
  return. \<open>CHECK(fd)\<close> only rejects descriptor 0.
\<close>

definition aIOOpen_locked ::
    "addr \<Rightarrow> addr \<Rightarrow> char \<Rightarrow> int \<Rightarrow> int \<Rightarrow> int \<Rightarrow> int \<Rightarrow> int \<Rightarrow> int \<Rightarrow> 16 word \<Rightarrow> nat \<Rightarrow> nat option \<Rightarrow>
     aio_state \<Rightarrow> (addr \<times> aio_state) crun" where
  "aIOOpen_locked a b junk fd act fl setfl bound own port buffer_size callback s =
     lbind (getLastConnection s) (\<lambda>conn.
     lbind (Some (createAsyncIO a b junk UDP buffer_size callback s)) (\<lambda>(new, s1).
     lbind (Some (update_at (aio_nodes s1) conn (aio_next_update (\<lambda>_. new)))) (\<lambda>H1.
     lbind (mutex_lock new H1) (\<lambda>H2.
       Some (cbind (update_at H2 new (\<lambda>n. n\<lparr>aio_port := port, aio_fd := fd\<rparr>)) (\<lambda>H3.
         cbind (c_check (Exit_status (- 1)) (fd \<noteq> 0 \<and> act = 0 \<and> fl \<noteq> 0 \<and> setfl \<noteq> - 1 \<and>
                  bound = 0 \<and> own \<noteq> - 1)) (\<lambda>_. Inr (new, s1\<lparr>aio_nodes := H3\<rparr>))))))))"

definition aIOOpenUDPSocket ::
    "addr \<Rightarrow> addr \<Rightarrow> char \<Rightarrow> int \<Rightarrow> int \<Rightarrow> int \<Rightarrow> int \<Rightarrow> int \<Rightarrow> int \<Rightarrow> 16 word \<Rightarrow> nat \<Rightarrow> nat option \<Rightarrow>
     aio_state \<Rightarrow> (addr \<times> aio_state) crun" where
  "aIOOpenUDPSocket a b junk fd act fl setfl bound own port buffer_size callback s =
     lbind (aIOOpen_locked a b junk fd act fl setfl bound own port buffer_size callback s) (\<lambda>(new, s1).
       Some (cbind (mutex_unlock new (aio_nodes s1)) (\<lambda>H. Inr (new, s1\<lparr>aio_nodes := H\<rparr>))))"

text \<open>
  The demo program: \<open>quit\<close> is what the \<open>sigaction\<close> for \<open>SIGQUIT\<close> returns; \<open>r1\<close> and \<open>r2\<close> are, for the two
  sockets, the addresses of the connection and of its buffer, the descriptor, and the results of the
  other five calls. The callbacks \<open>UDPHandlerOne\<close> and \<open>UDPHandlerTwo\<close> are numbered 1 and 2. The result is
  the state in which the program ticks forever.
\<close>

type_synonym open_results = "addr \<times> addr \<times> int \<times> int \<times> int \<times> int \<times> int \<times> int"

definition UDP_BUFFER_SIZE :: nat where
  "UDP_BUFFER_SIZE = 2000"

definition aio_main :: "int \<Rightarrow> open_results \<Rightarrow> open_results \<Rightarrow> char \<Rightarrow> aio_state \<Rightarrow> aio_state crun" where
  "aio_main quit r1 r2 junk s =
     (case r1 of (a1, b1, fd1, act1, fl1, setfl1, bound1, own1) \<Rightarrow>
      case r2 of (a2, b2, fd2, act2, fl2, setfl2, bound2, own2) \<Rightarrow>
      lbind (Some (c_check (Exit_status (- 1)) (quit = 0))) (\<lambda>_.
      lbind (aIOOpenUDPSocket a1 b1 junk fd1 act1 fl1 setfl1 bound1 own1 1111 UDP_BUFFER_SIZE (Some 1) s) (\<lambda>(soc, s1).
      lbind (aIOOpenUDPSocket a2 b2 junk fd2 act2 fl2 setfl2 bound2 own2 2222 UDP_BUFFER_SIZE (Some 2) s1) (\<lambda>(soc_two, s2).
        Some (Inr s2)))))"

section \<open>The search\<close>

interpretation aio: linked_node aio_next "\<lambda>a. aio_next_update (\<lambda>_. a)"
  by unfold_locales simp

definition aio_list :: "(addr \<rightharpoonup> aIO) \<Rightarrow> addr list \<Rightarrow> bool" where
  "aio_list H as \<longleftrightarrow> chain aio_next H aio_head (aio_head # as)"

text \<open>No connection is locked.\<close>

definition all_free :: "(addr \<rightharpoonup> aIO) \<Rightarrow> addr list \<Rightarrow> bool" where
  "all_free H as \<longleftrightarrow> (\<forall>a\<in>set as. \<not> aio_locked (the (H a)))"

text \<open>The connection a search is for.\<close>

definition is_conn :: "(addr \<rightharpoonup> aIO) \<Rightarrow> aIO_conn_e \<Rightarrow> int \<Rightarrow> addr \<Rightarrow> bool" where
  "is_conn H type fd a \<longleftrightarrow> aio_type (the (H a)) = type \<and> aio_fd (the (H a)) = fd"

definition first_conn :: "(addr \<rightharpoonup> aIO) \<Rightarrow> aIO_conn_e \<Rightarrow> int \<Rightarrow> addr list \<Rightarrow> addr" where
  "first_conn H type fd as = (case filter (is_conn H type fd) as of [] \<Rightarrow> NULL | a # _ \<Rightarrow> a)"

text \<open>The store with one lock taken.\<close>

definition held :: "(addr \<rightharpoonup> aIO) \<Rightarrow> addr \<Rightarrow> (addr \<rightharpoonup> aIO)" where
  "held H p = H(p \<mapsto> (the (H p))\<lparr>aio_locked := True\<rparr>)"

lemma lock_free:
  "p \<noteq> NULL \<Longrightarrow> H p = Some n \<Longrightarrow> \<not> aio_locked n \<Longrightarrow> mutex_lock p H = Some (Inr (held H p))"
  by (simp add: mutex_lock_def held_def)

lemma unlock_held:
  assumes "p \<noteq> NULL" and "H p = Some n" and "\<not> aio_locked n"
  shows "mutex_unlock p (held H p) = Inr H"
proof -
  have "n\<lparr>aio_locked := False\<rparr> = n" using assms(3) by simp
  then have "H(p \<mapsto> n\<lparr>aio_locked := False\<rparr>) = H" using assms(2) by (auto simp: fun_eq_iff)
  then show ?thesis using assms by (simp add: mutex_unlock_def held_def)
qed

lemma held_other: "q \<noteq> p \<Longrightarrow> held H p q = H q"
  by (simp add: held_def)

lemma held_same: "H p = Some n \<Longrightarrow> held H p p = Some (n\<lparr>aio_locked := True\<rparr>)"
  by (simp add: held_def)

lemma held_commute: "p \<noteq> q \<Longrightarrow> held (held H p) q = held (held H q) p"
  by (auto simp: held_def fun_upd_twist)

lemma first_conn_Cons:
  "first_conn H type fd (a # as) = (if is_conn H type fd a then a else first_conn H type fd as)"
  by (simp add: first_conn_def)

lemma find_loop_end:
  assumes "p \<noteq> NULL" and "H p = Some n" and "\<not> aio_locked n" and "aio_next n = NULL"
  shows "find_loop type fd p (held H p) = Some (Inr (NULL, H))"
  using assms by (subst find_loop.simps) (simp add: held_same unlock_held)

lemma find_loop_step:
  assumes "p \<noteq> NULL" and "H p = Some n" and "\<not> aio_locked n" and "aio_next n = c" and "c \<noteq> NULL"
    and "c \<noteq> p" and "H c = Some m" and "\<not> aio_locked m" and "type = TCP \<or> type = UDP"
  shows "find_loop type fd p (held H p) =
    (if is_conn H type fd c then Some (Inr (c, H)) else find_loop type fd c (held H c))"
proof -
  have l: "mutex_lock c (held H p) = Some (Inr (held (held H p) c))"
    using assms by (simp add: lock_free held_other)
  have u: "mutex_unlock p (held (held H p) c) = Inr (held H c)"
  proof -
    have "held H c p = Some n" using assms(2,6) by (simp add: held_other)
    then have "mutex_unlock p (held (held H c) p) = Inr (held H c)" using assms(1,3) by (intro unlock_held)
    then show ?thesis using held_commute [of p c H] assms(6) by simp
  qed
  have d: "deref (held (held H p) c) c = Inr (m\<lparr>aio_locked := True\<rparr>)"
    using assms(5-7) by (simp add: held_same held_other)
  show ?thesis
    using assms u l d unlock_held [of c H m]
    by (subst find_loop.simps) (auto simp: held_same is_conn_def)
qed

lemma find_loop_chain:
  assumes "chain aio_next H p (p # as)" and "all_free H (p # as)" and "type = TCP \<or> type = UDP"
  shows "find_loop type fd p (held H p) = Some (Inr (first_conn H type fd as, H))"
  using assms(1,2)
proof (induction as arbitrary: p)
  case Nil
  then show ?case
    using find_loop_end by (auto simp: chain_Cons all_free_def first_conn_def)
next
  case (Cons c as)
  then obtain n where n: "p \<noteq> NULL" "H p = Some n" "aio_next n = c" "chain aio_next H c (c # as)"
    by (auto simp: chain_Cons)
  obtain m where m: "H c = Some m" "c \<noteq> NULL" using n(4) by (auto simp: chain_Cons)
  have "c \<noteq> p" using chain_notin [OF Cons.prems(1)] by auto
  then show ?case
    using find_loop_step [of p H n c m type fd] n m Cons assms(3)
    by (auto simp: all_free_def first_conn_Cons)
qed

lemma findConnection_result:
  assumes "aio_list (aio_nodes s) as" and "all_free (aio_nodes s) (aio_head # as)"
    and "type = TCP \<or> type = UDP"
  shows "findConnection type fd s = Some (Inr (first_conn (aio_nodes s) type fd as, s))"
proof -
  obtain h where "aio_nodes s aio_head = Some h" "aio_head \<noteq> NULL"
    using assms(1) by (auto simp: aio_list_def chain_Cons)
  then have "mutex_lock aio_head (aio_nodes s) = Some (Inr (held (aio_nodes s) aio_head))"
    using assms(2) by (intro lock_free) (auto simp: all_free_def)
  then show ?thesis
    using find_loop_chain [OF assms(1) [unfolded aio_list_def] assms(2,3), of fd]
    by (simp add: findConnection_def)
qed

text \<open>
  A search for another kind of connection in a non-empty list returns with two locks held, and
  every later search waits forever.
\<close>

lemma findConnection_leaks:
  assumes "aio_list (aio_nodes s) (c # as)" and "all_free (aio_nodes s) (aio_head # c # as)"
    and "type \<noteq> TCP" and "type \<noteq> UDP"
  shows "\<exists>s'. findConnection type fd s = Some (Inr (NULL, s')) \<and> findConnection type' fd' s' = None"
proof -
  from assms(1) obtain h m where h: "aio_nodes s aio_head = Some h" "aio_head \<noteq> NULL" "aio_next h = c"
      "aio_nodes s c = Some m" "c \<noteq> NULL"
    by (auto simp: aio_list_def chain_Cons)
  have ne: "c \<noteq> aio_head" using chain_notin assms(1) unfolding aio_list_def by fastforce
  have free: "\<not> aio_locked h" "\<not> aio_locked m" using assms(2) h by (auto simp: all_free_def)
  let ?H = "held (aio_nodes s) aio_head"
  have l: "mutex_lock aio_head (aio_nodes s) = Some (Inr ?H)" using h free by (intro lock_free)
  have "mutex_lock c ?H = Some (Inr (held ?H c))"
    using h free ne by (simp add: lock_free held_other)
  then have "find_loop type fd aio_head ?H = Some (Inr (NULL, held ?H c))"
    using h assms(3,4) by (subst find_loop.simps) (simp add: held_same)
  moreover have "mutex_lock aio_head (held ?H c) = None"
    using h ne by (simp add: mutex_lock_def held_other held_same)
  ultimately show ?thesis using l by (simp add: findConnection_def)
qed

section \<open>The handler\<close>

lemma datagram_loop_ok:
  assumes "aio_bufs s (aio_buffer c) = Some buf" and "aio_buffer c \<noteq> NULL"
    and "length buf = aio_buffer_size c" and "aio_callback c = Some f"
    and "\<forall>m\<in>set ms. m \<noteq> [] \<and> is_cstring m \<and> length m \<le> aio_buffer_size c"
  shows "\<exists>s'. datagram_loop p c ms s = Inr s' \<and> aio_nodes s' = aio_nodes s \<and>
    aio_calls s' = aio_calls s @ map (\<lambda>m. (f, length m, butlast m)) ms"
  using assms(1,3,5)
proof (induction ms arbitrary: s buf)
  case (Cons m ms)
  let ?b = "butlast m @ nul # drop (length m) buf"
  have m: "m \<noteq> []" "is_cstring (butlast m)" "length m \<le> length buf"
    using Cons.prems(2,3) by (auto simp: is_cstring_def dest: in_set_butlastD)
  then obtain k where k: "length m = Suc k" by (cases m) auto
  have w1: "mem_write buf 0 m = Inr (m @ drop (length m) buf)" using m(3) by (simp add: mem_write_def)
  have "take k (m @ drop (length m) buf) = butlast m" using k by (simp add: butlast_conv_take)
  then have w2: "mem_write (m @ drop (length m) buf) k [nul] = Inr ?b"
    using k m(3) by (simp add: mem_write_def)
  have len: "c_strlen ?b = Inr k" using c_strlen_append [OF m(2)] k by simp
  have tk: "take k ?b = butlast m" using k by simp
  let ?s = "s\<lparr>aio_bufs := (aio_bufs s)(aio_buffer c \<mapsto> ?b),
    aio_calls := aio_calls s @ [(f, length m, butlast m)]\<rparr>"
  have "length ?b = aio_buffer_size c" using Cons.prems(2) m(3) k by simp
  from Cons.IH [of ?s ?b] this Cons.prems(3) obtain s' where
    "datagram_loop p c ms ?s = Inr s'" "aio_nodes s' = aio_nodes s"
    "aio_calls s' = aio_calls s @ (f, length m, butlast m) # map (\<lambda>m. (f, length m, butlast m)) ms"
    by auto
  moreover have "datagram_loop p c (m # ms) s = datagram_loop p c ms ?s"
    using Cons.prems m(1) w1 w2 len tk k assms(2,4) by (simp add: Let_def)
  ultimately show ?case by simp
qed simp

lemma handler_result:
  assumes "aio_list (aio_nodes s) as" and "all_free (aio_nodes s) (aio_head # as)"
    and "first_conn (aio_nodes s) UDP fd as = p" and "aio_nodes s p = Some c" and "aio_callback c = Some f"
    and "aio_buffer c \<noteq> NULL" and "aio_bufs s (aio_buffer c) = Some buf" and "length buf = aio_buffer_size c"
    and "\<forall>m\<in>set ms. m \<noteq> [] \<and> is_cstring m \<and> length m \<le> aio_buffer_size c" and "p \<in> set as"
  shows "\<exists>s'. aIOUDPSigHandler fd ms s = Some (Inr s') \<and> aio_nodes s' = aio_nodes s \<and>
    aio_calls s' = aio_calls s @ map (\<lambda>m. (f, length m, butlast m)) ms"
proof -
  have find: "findConnection UDP fd s = Some (Inr (p, s))"
    using findConnection_result [OF assms(1,2), of UDP fd] assms(3) by simp
  have p: "p \<noteq> NULL" using assms(1,10) chain_not_NULL [of aio_next "aio_nodes s" aio_head "aio_head # as"]
    by (auto simp: aio_list_def)
  have free: "\<not> aio_locked c" using assms(2,4,10) by (auto simp: all_free_def)
  have l: "mutex_lock p (aio_nodes s) = Some (Inr (held (aio_nodes s) p))"
    using p assms(4) free by (rule lock_free)
  let ?c = "c\<lparr>aio_locked := True\<rparr>" and ?s = "s\<lparr>aio_nodes := held (aio_nodes s) p\<rparr>"
  have "\<exists>s'. datagram_loop p ?c ms ?s = Inr s' \<and> aio_nodes s' = aio_nodes ?s \<and>
      aio_calls s' = aio_calls ?s @ map (\<lambda>m. (f, length m, butlast m)) ms"
    by (rule datagram_loop_ok) (use assms in auto)
  then obtain s2 where s2: "datagram_loop p ?c ms ?s = Inr s2" "aio_nodes s2 = held (aio_nodes s) p"
    "aio_calls s2 = aio_calls s @ map (\<lambda>m. (f, length m, butlast m)) ms" by auto
  then have "aIOUDPSigHandler fd ms s = Some (Inr (s2\<lparr>aio_nodes := aio_nodes s\<rparr>))"
    using l p assms(4) free unlock_held [of p "aio_nodes s" c] held_same [of "aio_nodes s" p c, OF assms(4)]
    by (simp add: aIOUDPSigHandler_def find)
  with s2(3) show ?thesis by simp
qed

section \<open>Properties\<close>

text \<open>
  The search with hand-over-hand locking: on a list of unlocked connections, looking for a TCP
  or UDP socket returns the first connection of that type with that descriptor, NULL when there
  is none, and leaves every lock released and the list as it was.
\<close>

theorem findConnection_first:
  assumes "aio_list (aio_nodes s) as" and "all_free (aio_nodes s) (aio_head # as)"
    and "type = TCP \<or> type = UDP"
  shows "findConnection type fd s = Some (Inr (first_conn (aio_nodes s) type fd as, s))"
  using assms by (rule findConnection_result)

theorem findConnection_first_witness:
  "findConnection UDP 4 \<lparr>aio_nodes = [aio_head \<mapsto> zero_aio\<lparr>aio_next := 64\<rparr>,
      64 \<mapsto> zero_aio\<lparr>aio_type := UDP, aio_fd := 3, aio_next := 96\<rparr>,
      96 \<mapsto> zero_aio\<lparr>aio_type := UDP, aio_fd := 4\<rparr>], aio_bufs = Map.empty, aio_calls = [], aio_closed = []\<rparr> =
    Some (Inr (96, \<lparr>aio_nodes = [aio_head \<mapsto> zero_aio\<lparr>aio_next := 64\<rparr>,
      64 \<mapsto> zero_aio\<lparr>aio_type := UDP, aio_fd := 3, aio_next := 96\<rparr>,
      96 \<mapsto> zero_aio\<lparr>aio_type := UDP, aio_fd := 4\<rparr>], aio_bufs = Map.empty, aio_calls = [], aio_closed = []\<rparr>))"
  using findConnection_first [of "\<lparr>aio_nodes = [aio_head \<mapsto> zero_aio\<lparr>aio_next := 64\<rparr>,
      64 \<mapsto> zero_aio\<lparr>aio_type := UDP, aio_fd := 3, aio_next := 96\<rparr>,
      96 \<mapsto> zero_aio\<lparr>aio_type := UDP, aio_fd := 4\<rparr>], aio_bufs = Map.empty, aio_calls = [], aio_closed = []\<rparr>"
      "[64, 96]" UDP 4]
  by (simp add: aio_list_def chain_Cons all_free_def zero_aio_def aio_head_def first_conn_def is_conn_def)

text \<open>
  The signal handler for a socket with a registered connection calls the connection's callback
  once per waiting datagram, in order, with the size of the datagram and the text without its last
  byte, which is overwritten by the terminating NUL; no buffer is overrun and all locks are
  released. A signal for a socket that is not registered dereferences NULL.
\<close>

theorem udp_handler_delivers:
  assumes "aio_list (aio_nodes s) as" and "all_free (aio_nodes s) (aio_head # as)"
    and "first_conn (aio_nodes s) UDP fd as = p" and "aio_nodes s p = Some c" and "aio_callback c = Some f"
    and "aio_buffer c \<noteq> NULL" and "aio_bufs s (aio_buffer c) = Some buf" and "length buf = aio_buffer_size c"
    and "\<forall>m\<in>set ms. m \<noteq> [] \<and> is_cstring m \<and> length m \<le> aio_buffer_size c"
    and "p \<in> set as" and "first_conn (aio_nodes s) UDP fd' as = NULL"
  shows "(\<exists>s'. aIOUDPSigHandler fd ms s = Some (Inr s') \<and> aio_nodes s' = aio_nodes s \<and>
      aio_calls s' = aio_calls s @ map (\<lambda>m. (f, length m, butlast m)) ms) \<and>
    aIOUDPSigHandler fd' ms s = Some (Inl Null_deref)"
  using handler_result [OF assms(1-10)] findConnection_result [OF assms(1,2), of UDP fd'] assms(11)
  by (simp add: aIOUDPSigHandler_def)

theorem udp_handler_delivers_witness:
  "\<exists>s'. aIOUDPSigHandler 3 [''ok!''] \<lparr>aio_nodes = [aio_head \<mapsto> zero_aio\<lparr>aio_next := 64\<rparr>,
      64 \<mapsto> zero_aio\<lparr>aio_type := UDP, aio_fd := 3, aio_buffer_size := 4, aio_buffer := 96, aio_callback := Some 7\<rparr>],
      aio_bufs = [96 \<mapsto> ''????''], aio_calls = [], aio_closed = []\<rparr> = Some (Inr s') \<and>
    aio_calls s' = [(7, 3, ''ok'')]"
proof -
  let ?s = "\<lparr>aio_nodes = [aio_head \<mapsto> zero_aio\<lparr>aio_next := 64\<rparr>,
      64 \<mapsto> zero_aio\<lparr>aio_type := UDP, aio_fd := 3, aio_buffer_size := 4, aio_buffer := 96, aio_callback := Some 7\<rparr>],
      aio_bufs = [96 \<mapsto> ''????''], aio_calls = [], aio_closed = []\<rparr>"
  have "aio_list (aio_nodes ?s) [64]"
    by (simp add: aio_list_def chain_Cons zero_aio_def aio_head_def)
  moreover have "all_free (aio_nodes ?s) [aio_head, 64]"
    by (simp add: all_free_def zero_aio_def)
  moreover have "first_conn (aio_nodes ?s) UDP 3 [64] = 64" "first_conn (aio_nodes ?s) UDP 5 [64] = 0"
    by (simp_all add: first_conn_def is_conn_def zero_aio_def)
  ultimately show ?thesis
    using udp_handler_delivers [of ?s "[64]" 3 64 _ 7 "''????''" "[''ok!'']" 5]
    by (simp add: is_cstring_def nul_def numeral_3_eq_3) blast
qed

end
