(* ===== verification/Async_Program.thy ===== *)
theory Async_Program
  imports Async_IO
begin

text \<open>
  The life of the connection list of \<open>async_UDP_multithread\<close>: opening a socket appends a connection and
  keeps the list well formed, the demo program ends up with both of its sockets registered and
  dispatches their datagrams, and the handler for \<open>SIGQUIT\<close> closes every socket once.
\<close>

section \<open>Opening\<close>

text \<open>The connection that opening a socket creates.\<close>

definition new_conn :: "int \<Rightarrow> 16 word \<Rightarrow> nat \<Rightarrow> addr \<Rightarrow> nat option \<Rightarrow> aIO" where
  "new_conn fd port sz b callback = zero_aio\<lparr>aio_type := UDP, aio_fd := fd, aio_port := port,
     aio_buffer_size := sz, aio_buffer := b, aio_callback := callback\<rparr>"

lemma new_conn_sel [simp]:
  "aio_type (new_conn fd port sz b cb) = UDP" "aio_fd (new_conn fd port sz b cb) = fd"
  "aio_next (new_conn fd port sz b cb) = NULL" "\<not> aio_locked (new_conn fd port sz b cb)"
  "aio_buffer (new_conn fd port sz b cb) = b" "aio_buffer_size (new_conn fd port sz b cb) = sz"
  "aio_callback (new_conn fd port sz b cb) = cb"
  by (simp_all add: new_conn_def zero_aio_def)

text \<open>The state with the connection appended.\<close>

definition appended :: "addr \<Rightarrow> addr list \<Rightarrow> aIO \<Rightarrow> addr \<Rightarrow> char list \<Rightarrow> aio_state \<Rightarrow> aio_state" where
  "appended a as n b buf s = s\<lparr>aio_nodes := (aio_nodes s)
       (last (aio_head # as) \<mapsto> (the (aio_nodes s (last (aio_head # as))))\<lparr>aio_next := a\<rparr>, a \<mapsto> n),
     aio_bufs := (aio_bufs s)(b \<mapsto> buf)\<rparr>"

lemma aIOOpen_locked_eq:
  assumes "aio_list (aio_nodes s) as" and "a \<notin> set (aio_head # as)" and "a \<noteq> NULL" and "b \<noteq> NULL"
    and "fd \<noteq> 0" and "fl \<noteq> 0" and "setfl \<noteq> - 1" and "own \<noteq> - 1"
  shows "aIOOpen_locked a b junk fd 0 fl setfl 0 own port sz cb s =
    Some (Inr (a, appended a as ((new_conn fd port sz b cb)\<lparr>aio_locked := True\<rparr>) b (replicate sz junk) s))"
proof -
  let ?l = "last (aio_head # as)"
  have c: "chain aio_next (aio_nodes s) aio_head (aio_head # as)" using assms(1) by (simp add: aio_list_def)
  then obtain n where n: "aio_nodes s ?l = Some n" "?l \<noteq> NULL" "?l \<in> set (aio_head # as)"
    by (rule chain_last)
  have ne: "?l \<noteq> a" using n(3) assms(2) by metis
  have last: "getLastConnection s = Some (Inr ?l)"
    unfolding getLastConnection_def by (rule last_node_chain [OF c])
  show ?thesis
    using assms(3-8) n(1,2) ne last
    by (simp add: aIOOpen_locked_def createAsyncIO_def mutex_lock_def appended_def new_conn_def zero_aio_def
        fun_upd_twist del: last.simps)
qed

lemma aIOOpenUDPSocket_eq:
  assumes "aio_list (aio_nodes s) as" and "a \<notin> set (aio_head # as)" and "a \<noteq> NULL" and "b \<noteq> NULL"
    and "fd \<noteq> 0" and "fl \<noteq> 0" and "setfl \<noteq> - 1" and "own \<noteq> - 1"
  shows "aIOOpenUDPSocket a b junk fd 0 fl setfl 0 own port sz cb s =
    Some (Inr (a, appended a as (new_conn fd port sz b cb) b (replicate sz junk) s))"
  using aIOOpen_locked_eq [OF assms] assms(3)
  by (simp add: aIOOpenUDPSocket_def mutex_unlock_def appended_def new_conn_def zero_aio_def del: last.simps)

lemma appended_list:
  assumes "aio_list (aio_nodes s) as" and "a \<notin> set (aio_head # as)" and "a \<noteq> NULL" and "aio_next n = NULL"
  shows "aio_list (aio_nodes (appended a as n b buf s)) (as @ [a])"
proof -
  have c: "chain aio_next (aio_nodes s) aio_head (aio_head # as)" using assms(1) by (simp add: aio_list_def)
  then obtain m where "aio_nodes s (last (aio_head # as)) = Some m" "last (aio_head # as) \<in> set (aio_head # as)"
    by (rule chain_last)
  moreover have "last (aio_head # as) \<noteq> a" using calculation(2) assms(2) by metis
  ultimately have "chain aio_next (aio_nodes (appended a as n b buf s)) aio_head (aio_head # as @ [a])"
    using assms by (intro aio.chain_snoc [OF c]) (auto simp: appended_def simp del: last.simps)
  then show ?thesis by (simp add: aio_list_def)
qed

text \<open>Everything but the link of the last connection is as it was.\<close>

lemma appended_old:
  assumes "x \<in> set (aio_head # as)" and "a \<notin> set (aio_head # as)" and "aio_list (aio_nodes s) as"
  obtains m y where "aio_nodes s x = Some m" and "aio_nodes (appended a as n b buf s) x = Some (m\<lparr>aio_next := y\<rparr>)"
proof -
  have "chain aio_next (aio_nodes s) aio_head (aio_head # as)" using assms(3) by (simp add: aio_list_def)
  then obtain m where m: "aio_nodes s x = Some m" using chain_dom assms(1) by metis
  have "x \<noteq> a" using assms(1,2) by metis
  with m have "aio_nodes (appended a as n b buf s) x =
      Some (m\<lparr>aio_next := if x = last (aio_head # as) then a else aio_next m\<rparr>)"
    by (auto simp: appended_def simp del: last.simps)
  with m that show thesis by blast
qed

lemma appended_conn_old:
  assumes "aio_list (aio_nodes s) as" and "a \<notin> set (aio_head # as)" and "x \<in> set as"
  shows "is_conn (aio_nodes (appended a as n b buf s)) type fd x = is_conn (aio_nodes s) type fd x"
proof -
  have "x \<in> set (aio_head # as)" using assms(3) by simp
  then obtain m y where "aio_nodes s x = Some m" "aio_nodes (appended a as n b buf s) x = Some (m\<lparr>aio_next := y\<rparr>)"
    using assms(2,1) by (rule appended_old)
  then show ?thesis by (simp add: is_conn_def)
qed

lemma appended_conn_new:
  "is_conn (aio_nodes (appended a as n b buf s)) type fd a \<longleftrightarrow> aio_type n = type \<and> aio_fd n = fd"
  by (simp add: is_conn_def appended_def)

lemma appended_free:
  assumes "aio_list (aio_nodes s) as" and "a \<notin> set (aio_head # as)" and "all_free (aio_nodes s) (aio_head # as)"
    and "\<not> aio_locked n"
  shows "all_free (aio_nodes (appended a as n b buf s)) (aio_head # as @ [a])"
proof -
  have "\<not> aio_locked (the (aio_nodes (appended a as n b buf s) x))" if x: "x \<in> set (aio_head # as)" for x
  proof -
    obtain m y where "aio_nodes s x = Some m" "aio_nodes (appended a as n b buf s) x = Some (m\<lparr>aio_next := y\<rparr>)"
      using x assms(2,1) by (rule appended_old)
    then show ?thesis using assms(3) x by (auto simp: all_free_def)
  qed
  then show ?thesis using assms(4) by (auto simp: all_free_def appended_def)
qed

lemma filter_appended:
  assumes "aio_list (aio_nodes s) as" and "a \<notin> set (aio_head # as)"
  shows "filter (is_conn (aio_nodes (appended a as n b buf s)) type fd) as = filter (is_conn (aio_nodes s) type fd) as"
  using appended_conn_old [OF assms] by (intro filter_cong) auto

text \<open>A search after opening: the old connections first, then the new one.\<close>

lemma first_conn_appended:
  assumes "aio_list (aio_nodes s) as" and "a \<notin> set (aio_head # as)"
  shows "first_conn (aio_nodes (appended a as n b buf s)) type fd (as @ [a]) =
    (if filter (is_conn (aio_nodes s) type fd) as \<noteq> [] then first_conn (aio_nodes s) type fd as
     else if aio_type n = type \<and> aio_fd n = fd then a else NULL)"
  using filter_appended [OF assms, of n b buf type fd] appended_conn_new [of a as n b buf s type fd]
  by (auto simp: first_conn_def split: list.splits)

section \<open>Closing\<close>

lemma deinit_loop_chain:
  assumes "chain aio_next (aio_nodes s) p as" and "\<forall>x\<in>set as. aio_type (the (aio_nodes s x)) \<in> {TCP, UDP}"
    and "\<forall>x\<in>set as. close_ret (aio_fd (the (aio_nodes s x))) = 0"
  shows "\<exists>s'. deinit_loop close_ret p s = Some (Inr s') \<and>
    aio_closed s' = aio_closed s @ map (\<lambda>x. aio_fd (the (aio_nodes s x))) as \<and>
    (\<forall>x. aio_nodes s' x = (if x \<in> set as then None else aio_nodes s x)) \<and>
    (\<forall>x. aio_bufs s' x = (if x \<in> (\<lambda>x. aio_buffer (the (aio_nodes s x))) ` set as then None else aio_bufs s x))"
  using assms
proof (induction as arbitrary: s p)
  case Nil
  then show ?case by (simp add: deinit_loop.simps)
next
  case (Cons a as)
  then obtain n where n: "p = a" "a \<noteq> NULL" "aio_nodes s a = Some n" "chain aio_next (aio_nodes s) (aio_next n) as"
    by (auto simp: chain_Cons)
  have a: "a \<notin> set as" by (rule chain_notin [OF Cons.prems(1)])
  let ?s = "s\<lparr>aio_nodes := (aio_nodes s)(a := None), aio_bufs := (aio_bufs s)(aio_buffer n := None),
    aio_closed := aio_closed s @ [aio_fd n]\<rparr>"
  have same: "aio_nodes ?s x = aio_nodes s x" if "x \<in> set as" for x using a that by auto
  have c: "chain aio_next (aio_nodes ?s) (aio_next n) as" using n(4) a by (simp add: chain_upd_other)
  have img: "(\<lambda>x. aio_buffer (the (aio_nodes ?s x))) ` set as = (\<lambda>x. aio_buffer (the (aio_nodes s x))) ` set as"
    and map: "map (\<lambda>x. aio_fd (the (aio_nodes ?s x))) as = map (\<lambda>x. aio_fd (the (aio_nodes s x))) as"
    using same by (auto simp del: fun_upd_apply intro!: image_cong map_cong)
  have "\<forall>x\<in>set as. aio_type (the (aio_nodes ?s x)) \<in> {TCP, UDP}"
    "\<forall>x\<in>set as. close_ret (aio_fd (the (aio_nodes ?s x))) = 0"
    using Cons.prems(2,3) same by (simp_all del: fun_upd_apply)
  from Cons.IH [OF c this] obtain s' where s': "deinit_loop close_ret (aio_next n) ?s = Some (Inr s')"
    "aio_closed s' = aio_closed ?s @ map (\<lambda>x. aio_fd (the (aio_nodes s x))) as"
    "\<forall>x. aio_nodes s' x = (if x \<in> set as then None else aio_nodes ?s x)"
    "\<forall>x. aio_bufs s' x = (if x \<in> (\<lambda>x. aio_buffer (the (aio_nodes s x))) ` set as then None else aio_bufs ?s x)"
    unfolding img map by blast
  have "deinit_loop close_ret p s = deinit_loop close_ret (aio_next n) ?s"
    using n Cons.prems(2,3) by (subst deinit_loop.simps) auto
  then show ?case using s' n by auto
qed

section \<open>Properties\<close>

text \<open>
  C19. Opening a UDP socket keeps the connection list well formed: the new connection is the last one,
  with its descriptor, port, buffer and callback, all locks are released, the earlier connections
  are found as before, and the new one is found under its descriptor unless an earlier one has it
  already.
\<close>

theorem aIOOpenUDPSocket_appends:
  assumes "aio_list (aio_nodes s) as" and "all_free (aio_nodes s) (aio_head # as)"
    and "a \<notin> set (aio_head # as)" and "a \<noteq> NULL" and "b \<noteq> NULL"
    and "fd \<noteq> 0" and "fl \<noteq> 0" and "setfl \<noteq> - 1" and "own \<noteq> - 1"
  shows "\<exists>s'. aIOOpenUDPSocket a b junk fd 0 fl setfl 0 own port sz cb s = Some (Inr (a, s')) \<and>
    aio_list (aio_nodes s') (as @ [a]) \<and> all_free (aio_nodes s') (aio_head # as @ [a]) \<and>
    aio_nodes s' a = Some (new_conn fd port sz b cb) \<and> aio_bufs s' b = Some (replicate sz junk) \<and>
    (\<forall>fd'. findConnection UDP fd' s' = Some (Inr
       (if filter (is_conn (aio_nodes s) UDP fd') as \<noteq> [] then first_conn (aio_nodes s) UDP fd' as
        else if fd' = fd then a else NULL, s')))"
proof -
  let ?s = "appended a as (new_conn fd port sz b cb) b (replicate sz junk) s"
  have l: "aio_list (aio_nodes ?s) (as @ [a])" by (rule appended_list) (use assms in auto)
  have f: "all_free (aio_nodes ?s) (aio_head # as @ [a])" by (rule appended_free) (use assms in auto)
  have "findConnection UDP fd' ?s = Some (Inr
       (if filter (is_conn (aio_nodes s) UDP fd') as \<noteq> [] then first_conn (aio_nodes s) UDP fd' as
        else if fd' = fd then a else NULL, ?s))" for fd'
    using findConnection_result [OF l f, of UDP fd'] first_conn_appended [OF assms(1,3)] by auto
  moreover have "aio_nodes ?s a = Some (new_conn fd port sz b cb)" "aio_bufs ?s b = Some (replicate sz junk)"
    by (simp_all add: appended_def)
  ultimately show ?thesis using l f aIOOpenUDPSocket_eq [OF assms(1,3-9)] by blast
qed

lemma aio_zero_list: "aio_list (aio_nodes aio_zero) []" "all_free (aio_nodes aio_zero) [aio_head]"
  by (simp_all add: aio_list_def aio_zero_def chain_Cons aio_head_def zero_aio_def all_free_def)

theorem aIOOpenUDPSocket_appends_witness:
  "\<exists>s'. aIOOpenUDPSocket 64 96 CHR ''?'' 3 0 2 0 0 0 1111 4 (Some 7) aio_zero = Some (Inr (64, s')) \<and>
    findConnection UDP 3 s' = Some (Inr (64, s')) \<and> findConnection UDP 4 s' = Some (Inr (NULL, s'))"
  using aIOOpenUDPSocket_appends [OF aio_zero_list, of 64 96 3 2 0 0 "CHR ''?''" 1111 4 "Some 7"]
  by (auto simp: aio_head_def)

section \<open>The demo program\<close>

text \<open>The results of \<open>sigaction\<close>, \<open>F_GETFL\<close>, \<open>F_SETFL\<close>, \<open>bind\<close> and \<open>F_SETOWN\<close> that pass the checks.\<close>

fun calls_ok :: "int \<times> int \<times> int \<times> int \<times> int \<Rightarrow> bool" where
  "calls_ok (act, fl, setfl, bound, own) \<longleftrightarrow> act = 0 \<and> fl \<noteq> 0 \<and> setfl \<noteq> - 1 \<and> bound = 0 \<and> own \<noteq> - 1"

text \<open>
  The callbacks of the demo program print one line each; a line is told by the socket's number, the size
  and the text. The program's output is what the callbacks, numbered 1 and 2, print.
\<close>

type_synonym udp_line = "nat \<times> nat \<times> string"

definition UDPHandlerOne :: "nat \<Rightarrow> string \<Rightarrow> udp_line" where
  "UDPHandlerOne read_size buffer = (1, read_size, buffer)"

definition UDPHandlerTwo :: "nat \<Rightarrow> string \<Rightarrow> udp_line" where
  "UDPHandlerTwo read_size buffer = (2, read_size, buffer)"

definition aio_output :: "aio_state \<Rightarrow> udp_line list" where
  "aio_output s = map (\<lambda>(f, read_size, buffer).
     if f = 1 then UDPHandlerOne read_size buffer else UDPHandlerTwo read_size buffer) (aio_calls s)"

text \<open>The state in which the demo program waits, connection by connection.\<close>

lemma aio_main_state:
  assumes "distinct [aio_head, a1, a2]" and "0 \<notin> set [a1, a2, b1, b2]" and "0 \<notin> set [fd1, fd2]"
    and "calls_ok k1" and "calls_ok k2"
  shows "aio_main 0 (a1, b1, fd1, k1) (a2, b2, fd2, k2) junk aio_zero = Some (Inr \<lparr>
    aio_nodes = [aio_head \<mapsto> zero_aio\<lparr>aio_next := a1\<rparr>,
      a1 \<mapsto> (new_conn fd1 1111 UDP_BUFFER_SIZE b1 (Some 1))\<lparr>aio_next := a2\<rparr>,
      a2 \<mapsto> new_conn fd2 2222 UDP_BUFFER_SIZE b2 (Some 2)],
    aio_bufs = [b1 \<mapsto> replicate UDP_BUFFER_SIZE junk, b2 \<mapsto> replicate UDP_BUFFER_SIZE junk],
    aio_calls = [], aio_closed = []\<rparr>)"
proof -
  let ?s1 = "appended a1 [] (new_conn fd1 1111 UDP_BUFFER_SIZE b1 (Some 1)) b1 (replicate UDP_BUFFER_SIZE junk) aio_zero"
  have l: "aio_list (aio_nodes ?s1) [a1]"
    using appended_list [OF aio_zero_list(1), of a1] assms by auto
  obtain fl1 sf1 ow1 fl2 sf2 ow2 where k: "k1 = (0, fl1, sf1, 0, ow1)" "k2 = (0, fl2, sf2, 0, ow2)"
    using assms(4,5) by (cases k1; cases k2) auto
  have "aIOOpenUDPSocket a1 b1 junk fd1 0 fl1 sf1 0 ow1 1111 UDP_BUFFER_SIZE (Some 1) aio_zero = Some (Inr (a1, ?s1))"
    by (rule aIOOpenUDPSocket_eq [OF aio_zero_list(1)]) (use assms k in auto)
  moreover have "aIOOpenUDPSocket a2 b2 junk fd2 0 fl2 sf2 0 ow2 2222 UDP_BUFFER_SIZE (Some 2) ?s1 =
      Some (Inr (a2, appended a2 [a1] (new_conn fd2 2222 UDP_BUFFER_SIZE b2 (Some 2)) b2
        (replicate UDP_BUFFER_SIZE junk) ?s1))"
    by (rule aIOOpenUDPSocket_eq [OF l]) (use assms k in auto)
  ultimately show ?thesis
    using assms(1) by (auto simp: aio_main_def k appended_def aio_zero_def fun_upd_twist)
qed

text \<open>
  C20. The whole demo program of \<open>async_UDP_multithread\<close>. Once both sockets are open, the datagrams of
  the first reach \<open>UDPHandlerOne\<close> and those of the second \<open>UDPHandlerTwo\<close>, each once and in order,
  without their last byte. \<open>SIGQUIT\<close> ends the program with status 0 after closing both sockets, once
  each, and freeing both connections with their buffers.
\<close>

theorem aio_main_dispatches:
  assumes "distinct [aio_head, a1, a2]" and "0 \<notin> set [a1, a2, b1, b2]" and "0 \<notin> set [fd1, fd2]"
    and "b1 \<noteq> b2" and "fd1 \<noteq> fd2" and "\<forall>m\<in>set ms. m \<noteq> [] \<and> is_cstring m \<and> length m \<le> UDP_BUFFER_SIZE"
    and "close_ret fd1 = 0" and "close_ret fd2 = 0" and "calls_ok k1" and "calls_ok k2"
  shows "\<exists>s. aio_main 0 (a1, b1, fd1, k1) (a2, b2, fd2, k2) junk aio_zero = Some (Inr s) \<and>
    (\<exists>s'. aIOUDPSigHandler fd1 ms s = Some (Inr s') \<and>
      aio_output s' = map (\<lambda>m. UDPHandlerOne (length m) (butlast m)) ms) \<and>
    (\<exists>s'. aIOUDPSigHandler fd2 ms s = Some (Inr s') \<and>
      aio_output s' = map (\<lambda>m. UDPHandlerTwo (length m) (butlast m)) ms) \<and>
    aIODeinit close_ret s = Some (Inl (Exit_status 0)) \<and>
    (\<exists>s'. deinit_loop close_ret a1 s = Some (Inr s') \<and> aio_closed s' = [fd1, fd2] \<and>
      dom (aio_nodes s') = {aio_head} \<and> dom (aio_bufs s') = {})"
proof -
  note main = aio_main_state [OF assms(1-3,9,10), of junk]
  let ?n1 = "(new_conn fd1 1111 UDP_BUFFER_SIZE b1 (Some 1))\<lparr>aio_next := a2\<rparr>"
    and ?n2 = "new_conn fd2 2222 UDP_BUFFER_SIZE b2 (Some 2)"
  from main obtain s where s: "aio_main 0 (a1, b1, fd1, k1) (a2, b2, fd2, k2) junk aio_zero = Some (Inr s)"
    "aio_nodes s = [aio_head \<mapsto> zero_aio\<lparr>aio_next := a1\<rparr>, a1 \<mapsto> ?n1, a2 \<mapsto> ?n2]"
    "aio_bufs s = [b1 \<mapsto> replicate UDP_BUFFER_SIZE junk, b2 \<mapsto> replicate UDP_BUFFER_SIZE junk]"
    "aio_calls s = []" "aio_closed s = []" by fastforce
  have l: "aio_list (aio_nodes s) [a1, a2]"
    using assms(1,2) by (simp add: s(2) aio_list_def chain_Cons aio_head_def)
  have f: "all_free (aio_nodes s) [aio_head, a1, a2]"
    using assms(1) by (simp add: s(2) all_free_def zero_aio_def)
  have c: "first_conn (aio_nodes s) UDP fd1 [a1, a2] = a1" "first_conn (aio_nodes s) UDP fd2 [a1, a2] = a2"
    using assms(1,5) by (simp_all add: s(2) first_conn_def is_conn_def)
  have h1: "\<exists>s'. aIOUDPSigHandler fd1 ms s = Some (Inr s') \<and> aio_nodes s' = aio_nodes s \<and>
      aio_calls s' = aio_calls s @ map (\<lambda>m. (1, length m, butlast m)) ms"
    by (rule handler_result [OF l f c(1), of ?n1 1 "replicate UDP_BUFFER_SIZE junk"])
      (use assms in \<open>auto simp: s(2,3)\<close>)
  have h2: "\<exists>s'. aIOUDPSigHandler fd2 ms s = Some (Inr s') \<and> aio_nodes s' = aio_nodes s \<and>
      aio_calls s' = aio_calls s @ map (\<lambda>m. (2, length m, butlast m)) ms"
    by (rule handler_result [OF l f c(2), of ?n2 2 "replicate UDP_BUFFER_SIZE junk"])
      (use assms in \<open>auto simp: s(2,3)\<close>)
  have ch: "chain aio_next (aio_nodes s) a1 [a1, a2]" using assms(1,2) by (simp add: chain_Cons s(2))
  have "\<exists>s'. deinit_loop close_ret a1 s = Some (Inr s') \<and>
      aio_closed s' = aio_closed s @ map (\<lambda>x. aio_fd (the (aio_nodes s x))) [a1, a2] \<and>
      (\<forall>x. aio_nodes s' x = (if x \<in> set [a1, a2] then None else aio_nodes s x)) \<and>
      (\<forall>x. aio_bufs s' x = (if x \<in> (\<lambda>x. aio_buffer (the (aio_nodes s x))) ` set [a1, a2] then None else aio_bufs s x))"
    by (rule deinit_loop_chain [OF ch]) (use assms in \<open>auto simp: s(2)\<close>)
  then obtain s' where s': "deinit_loop close_ret a1 s = Some (Inr s')" "aio_closed s' = [fd1, fd2]"
    "\<forall>x. aio_nodes s' x = (if x = a1 \<or> x = a2 then None else aio_nodes s x)"
    "\<forall>x. aio_bufs s' x = (if x = b1 \<or> x = b2 then None else aio_bufs s x)"
    using assms(1) by (auto simp: s(2,5))
  have "dom (aio_nodes s') = {aio_head}" "dom (aio_bufs s') = {}"
    using s'(3,4) assms(1) by (auto simp: s(2,3) dom_def split: if_splits)
  moreover have "aIODeinit close_ret s = Some (Inl (Exit_status 0))"
    using s' assms(1) by (simp add: aIODeinit_def s(2) aio_head_def)
  ultimately show ?thesis using s(1,4) s' h1 h2 by (auto simp: aio_output_def)
qed

theorem aio_main_dispatches_witness:
  "\<exists>s s'. aio_main 0 (64, 96, 3, 0, 2, 0, 0, 0) (128, 160, 4, 0, 2, 0, 0, 0) CHR ''?'' aio_zero = Some (Inr s) \<and>
    aIOUDPSigHandler 4 [''ok!''] s = Some (Inr s') \<and> aio_output s' = [(2, 3, ''ok'')]"
  using aio_main_dispatches [of 64 128 96 160 3 4 "[''ok!'']" "\<lambda>_. 0" "(0, 2, 0, 0, 0)" "(0, 2, 0, 0, 0)" "CHR ''?''"]
  by (auto simp: aio_head_def is_cstring_def nul_def UDP_BUFFER_SIZE_def UDPHandlerTwo_def)

end
