(* ===== verification/Async_Search.thy ===== *)
theory Async_Search
  imports Async_IO Thread_Runs
begin

text \<open>
  The search \<open>findConnection\<close> of \<open>async_UDP_multithread\<close> run by any number of threads at once on the same
  list, one call or test per step, under every schedule. Its hand-over-hand locking is what makes
  this work: no two threads hold the same lock, the threads cannot block each other for good, and
  every search returns what it would return alone.
\<close>

section \<open>The program\<close>

text \<open>The next statement of a search, with its variables \<open>prev\<close> and \<open>curr\<close>.\<close>

datatype fs_pc =
    FS_start
  | FS_next addr
  | FS_lock addr addr
  | FS_test addr addr
  | FS_unlock addr addr
  | FS_found addr addr
  | FS_unlock_found addr
  | FS_end addr
  | FS_done addr
  | FS_fault c_fault

record searchers =
  sr_nodes :: "addr \<rightharpoonup> aIO"
  sr_pc :: "nat \<Rightarrow> fs_pc"

text \<open>
  A call that waits has no step; one that faults ends the thread. \<open>mutex_lock\<close> and \<open>mutex_unlock\<close> are
  those of \<open>Async_IO\<close>.
\<close>

definition after_lock :: "(addr \<rightharpoonup> aIO) crun \<Rightarrow> fs_pc \<Rightarrow> nat \<Rightarrow> searchers \<Rightarrow> searchers option" where
  "after_lock m pc k s = (case m of
       None \<Rightarrow> None
     | Some (Inl e) \<Rightarrow> Some (s\<lparr>sr_pc := (sr_pc s)(k := FS_fault e)\<rparr>)
     | Some (Inr H) \<Rightarrow> Some (s\<lparr>sr_nodes := H, sr_pc := (sr_pc s)(k := pc)\<rparr>))"

definition after_test :: "aIO cres \<Rightarrow> (aIO \<Rightarrow> fs_pc) \<Rightarrow> nat \<Rightarrow> searchers \<Rightarrow> searchers option" where
  "after_test m f k s =
     Some (s\<lparr>sr_pc := (sr_pc s)(k := (case m of Inl e \<Rightarrow> FS_fault e | Inr n \<Rightarrow> f n))\<rparr>)"

definition find_step :: "aIO_conn_e \<Rightarrow> int \<Rightarrow> nat \<Rightarrow> searchers \<Rightarrow> searchers option" where
  "find_step type fd k s = (let H = sr_nodes s in case sr_pc s k of
       FS_start \<Rightarrow> after_lock (mutex_lock aio_head H) (FS_next aio_head) k s
     | FS_next prev \<Rightarrow> after_test (deref H prev) (\<lambda>n.
         if aio_next n = NULL then FS_end prev else FS_lock prev (aio_next n)) k s
     | FS_lock prev cur \<Rightarrow> after_lock (mutex_lock cur H) (FS_test prev cur) k s
     | FS_test prev cur \<Rightarrow> after_test (deref H cur) (\<lambda>n.
         if type = TCP \<or> type = UDP
         then (if aio_type n = type \<and> aio_fd n = fd then FS_found prev cur else FS_unlock prev cur)
         else FS_done NULL) k s
     | FS_unlock prev cur \<Rightarrow> after_lock (Some (mutex_unlock prev H)) (FS_next cur) k s
     | FS_found prev cur \<Rightarrow> after_lock (Some (mutex_unlock prev H)) (FS_unlock_found cur) k s
     | FS_unlock_found cur \<Rightarrow> after_lock (Some (mutex_unlock cur H)) (FS_done cur) k s
     | FS_end prev \<Rightarrow> after_lock (Some (mutex_unlock prev H)) (FS_done NULL) k s
     | FS_done _ \<Rightarrow> None
     | FS_fault _ \<Rightarrow> None)"

text \<open>\<open>N\<close> threads; thread \<open>k\<close> looks for a connection of type \<open>ty k\<close> and descriptor \<open>fd k\<close>.\<close>

inductive search_step :: "nat \<Rightarrow> (nat \<Rightarrow> aIO_conn_e) \<Rightarrow> (nat \<Rightarrow> int) \<Rightarrow> searchers \<Rightarrow> searchers \<Rightarrow> bool"
  for N ty fd where
  search_thread: "k < N \<Longrightarrow> find_step (ty k) (fd k) k s = Some t \<Longrightarrow> search_step N ty fd s t"

definition search_init :: "(addr \<rightharpoonup> aIO) \<Rightarrow> searchers" where
  "search_init H = \<lparr>sr_nodes = H, sr_pc = (\<lambda>_. FS_start)\<rparr>"

section \<open>Locks\<close>

text \<open>The locks a thread holds.\<close>

fun holds :: "fs_pc \<Rightarrow> addr set" where
  "holds (FS_next p) = {p}"
| "holds (FS_lock p c) = {p}"
| "holds (FS_test p c) = {p, c}"
| "holds (FS_unlock p c) = {p, c}"
| "holds (FS_found p c) = {p, c}"
| "holds (FS_unlock_found c) = {c}"
| "holds (FS_end p) = {p}"
| "holds _ = {}"

definition held_by :: "nat \<Rightarrow> (nat \<Rightarrow> fs_pc) \<Rightarrow> addr \<Rightarrow> bool" where
  "held_by N pcs a \<longleftrightarrow> (\<exists>k<N. a \<in> holds (pcs k))"

text \<open>The store in which exactly the locks the threads hold are taken.\<close>

definition relock :: "(addr \<rightharpoonup> aIO) \<Rightarrow> addr list \<Rightarrow> nat \<Rightarrow> (nat \<Rightarrow> fs_pc) \<Rightarrow> addr \<rightharpoonup> aIO" where
  "relock H L N pcs a =
     (if a \<in> set L then map_option (\<lambda>n. n\<lparr>aio_locked := held_by N pcs a\<rparr>) (H a) else H a)"

definition disjoint_locks :: "nat \<Rightarrow> (nat \<Rightarrow> fs_pc) \<Rightarrow> bool" where
  "disjoint_locks N pcs \<longleftrightarrow> (\<forall>j<N. \<forall>k<N. j \<noteq> k \<longrightarrow> holds (pcs j) \<inter> holds (pcs k) = {})"

lemma disjoint_locksD:
  "disjoint_locks N pcs \<Longrightarrow> j < N \<Longrightarrow> k < N \<Longrightarrow> j \<noteq> k \<Longrightarrow> holds (pcs j) \<inter> holds (pcs k) = {}"
  by (simp add: disjoint_locks_def)

lemma relock_same: "holds pc = holds (pcs k) \<Longrightarrow> relock H L N (pcs(k := pc)) = relock H L N pcs"
proof -
  assume "holds pc = holds (pcs k)"
  then have "held_by N (pcs(k := pc)) a = held_by N pcs a" for a by (auto simp: held_by_def)
  then show ?thesis by (simp add: relock_def fun_eq_iff)
qed

lemma relock_node:
  assumes "a \<in> set L" and "H a = Some n"
  shows "relock H L N pcs a = Some (n\<lparr>aio_locked := held_by N pcs a\<rparr>)"
  using assms by (simp add: relock_def)

lemma relock_lock:
  assumes "c \<in> set L" and "H c = Some n" and "c \<noteq> NULL" and "k < N"
    and "holds pc = insert c (holds (pcs k))"
  shows "mutex_lock c (relock H L N pcs) =
    (if held_by N pcs c then None else Some (Inr (relock H L N (pcs(k := pc)))))"
proof -
  have "relock H L N (pcs(k := pc)) = (relock H L N pcs)(c \<mapsto> n\<lparr>aio_locked := True\<rparr>)"
  proof
    fix a
    have "held_by N (pcs(k := pc)) a \<longleftrightarrow> a = c \<or> held_by N pcs a"
      using assms(4,5) by (auto simp: held_by_def split: if_splits)
    then show "relock H L N (pcs(k := pc)) a = ((relock H L N pcs)(c \<mapsto> n\<lparr>aio_locked := True\<rparr>)) a"
      using assms(1,2) by (auto simp: relock_def)
  qed
  then show ?thesis using assms(1-3) by (simp add: mutex_lock_def relock_node)
qed

lemma relock_unlock:
  assumes "p \<in> set L" and "H p = Some n" and "p \<noteq> NULL" and "k < N" and "disjoint_locks N pcs"
    and "p \<in> holds (pcs k)" and "holds pc = holds (pcs k) - {p}"
  shows "mutex_unlock p (relock H L N pcs) = Inr (relock H L N (pcs(k := pc)))"
proof -
  have "relock H L N (pcs(k := pc)) = (relock H L N pcs)(p \<mapsto> n\<lparr>aio_locked := False\<rparr>)"
  proof
    fix a
    have "held_by N (pcs(k := pc)) a \<longleftrightarrow> a \<noteq> p \<and> held_by N pcs a"
      using assms(4-7) by (auto simp: held_by_def disjoint_locks_def split: if_splits)
    then show "relock H L N (pcs(k := pc)) a = ((relock H L N pcs)(p \<mapsto> n\<lparr>aio_locked := False\<rparr>)) a"
      using assms(1,2) by (auto simp: relock_def)
  qed
  then show ?thesis using assms(1-3) by (simp add: mutex_unlock_def relock_node)
qed

lemma disjoint_locks_shrink:
  assumes "disjoint_locks N pcs" and "holds pc \<subseteq> holds (pcs k)"
  shows "disjoint_locks N (pcs(k := pc))"
  using assms by (fastforce simp: disjoint_locks_def)

lemma disjoint_locks_grow:
  assumes "disjoint_locks N pcs" and "holds pc = insert c (holds (pcs k))" and "\<not> held_by N pcs c"
  shows "disjoint_locks N (pcs(k := pc))"
  using assms by (fastforce simp: disjoint_locks_def held_by_def)

section \<open>Positions\<close>

text \<open>Where a node stands in the list.\<close>

definition pos_of :: "addr list \<Rightarrow> addr \<Rightarrow> nat" where
  "pos_of L a = length (takeWhile (\<lambda>x. x \<noteq> a) L)"

lemma pos_of_nth:
  assumes "distinct L" and "i < length L"
  shows "pos_of L (L ! i) = i"
proof -
  have L: "take i L @ L ! i # drop (Suc i) L = L" using assms(2) by (rule id_take_nth_drop [symmetric])
  have "L ! i \<notin> set (take i L)"
    using assms by (auto simp: in_set_conv_nth nth_eq_iff_index_eq)
  then have "takeWhile (\<lambda>x. x \<noteq> L ! i) (take i L @ L ! i # drop (Suc i) L) = take i L"
    by (subst takeWhile_append2) auto
  then show ?thesis using assms(2) by (simp add: L pos_of_def)
qed

lemma pos_of_prefix: "distinct (L @ ext) \<Longrightarrow> i < length L \<Longrightarrow> pos_of (L @ ext) (L ! i) = i"
  using pos_of_nth [of "L @ ext" i] by (simp add: nth_append)

lemma chain_nth:
  assumes "chain nxt H p L" and "i < length L"
  shows "\<exists>n. H (L ! i) = Some n \<and> nxt n = (if Suc i < length L then L ! Suc i else NULL) \<and> L ! i \<noteq> NULL"
  using assms
proof (induction L arbitrary: p i)
  case (Cons a L)
  then obtain n where n: "H a = Some n" "chain nxt H (nxt n) L" "a \<noteq> NULL" by (auto simp: chain_Cons)
  show ?case
  proof (cases i)
    case 0
    have "nxt n = (case L of [] \<Rightarrow> NULL | b # _ \<Rightarrow> b)" using n(2) by (cases L) (auto simp: chain_Cons)
    with n 0 show ?thesis by (cases L) auto
  next
    case (Suc j)
    with Cons.IH [OF n(2), of j] Cons.prems(2) show ?thesis by auto
  qed
qed simp

text \<open>
  What a thread knows at each statement: \<open>prev\<close> is at some position \<open>i\<close>, \<open>curr\<close> at the next one, and no
  connection up to there is the one it looks for (\<open>m\<close>). Position 0 is the head.
\<close>

definition none_to :: "addr list \<Rightarrow> (addr \<Rightarrow> bool) \<Rightarrow> nat \<Rightarrow> bool" where
  "none_to L m i \<longleftrightarrow> (\<forall>j. 0 < j \<longrightarrow> j \<le> i \<longrightarrow> \<not> m (L ! j))"

fun fs_ok :: "addr list \<Rightarrow> (addr \<Rightarrow> bool) \<Rightarrow> addr set \<Rightarrow> fs_pc \<Rightarrow> bool" where
  "fs_ok L m R FS_start = True"
| "fs_ok L m R (FS_next p) = (\<exists>i<length L. p = L ! i \<and> none_to L m i)"
| "fs_ok L m R (FS_lock p c) = (\<exists>i. Suc i < length L \<and> p = L ! i \<and> c = L ! Suc i \<and> none_to L m i)"
| "fs_ok L m R (FS_test p c) = (\<exists>i. Suc i < length L \<and> p = L ! i \<and> c = L ! Suc i \<and> none_to L m i)"
| "fs_ok L m R (FS_unlock p c) = (\<exists>i. Suc i < length L \<and> p = L ! i \<and> c = L ! Suc i \<and> none_to L m (Suc i))"
| "fs_ok L m R (FS_found p c) = (\<exists>i. Suc i < length L \<and> p = L ! i \<and> c = L ! Suc i \<and> c \<in> R)"
| "fs_ok L m R (FS_unlock_found c) = (c \<in> set L \<and> c \<in> R)"
| "fs_ok L m R (FS_end p) = (p \<in> set L \<and> NULL \<in> R)"
| "fs_ok L m R (FS_done x) = (x \<in> R)"
| "fs_ok L m R (FS_fault e) = False"

text \<open>
  What makes \<open>R\<close> the possible results of a search for connections of type \<open>ty\<close> and descriptor \<open>fd\<close>, when \<open>m\<close>
  holds for those it must not pass: the first match is in \<open>R\<close>, what it passes is not in \<open>m\<close>, and
  NULL is in \<open>R\<close> when it reaches the end.
\<close>

definition course_ok :: "(addr \<rightharpoonup> aIO) \<Rightarrow> addr list \<Rightarrow> aIO_conn_e \<Rightarrow> int \<Rightarrow> (addr \<Rightarrow> bool) \<Rightarrow> addr set \<Rightarrow> bool" where
  "course_ok H L ty fd m R \<longleftrightarrow>
     (\<forall>i. Suc i < length L \<longrightarrow> none_to L m i \<longrightarrow>
        (if is_conn H ty fd (L ! Suc i) then L ! Suc i \<in> R else \<not> m (L ! Suc i))) \<and>
     (none_to L m (length L - 1) \<longrightarrow> NULL \<in> R)"

text \<open>How far a thread has come, as a bound on its steps and as the position of its last lock.\<close>

fun fs_rank :: "addr list \<Rightarrow> fs_pc \<Rightarrow> nat" where
  "fs_rank L FS_start = 4 * length L + 4"
| "fs_rank L (FS_next p) = 4 * (length L - pos_of L p) + 3"
| "fs_rank L (FS_lock p c) = 4 * (length L - pos_of L p) + 2"
| "fs_rank L (FS_test p c) = 4 * (length L - pos_of L p) + 1"
| "fs_rank L (FS_unlock p c) = 4 * (length L - pos_of L p)"
| "fs_rank L (FS_found p c) = 4 * (length L - pos_of L p)"
| "fs_rank L (FS_unlock_found c) = 1"
| "fs_rank L (FS_end p) = 1"
| "fs_rank L _ = 0"

fun height :: "addr list \<Rightarrow> fs_pc \<Rightarrow> nat" where
  "height L (FS_next p) = Suc (pos_of L p)"
| "height L (FS_lock p c) = Suc (pos_of L p)"
| "height L (FS_test p c) = Suc (Suc (pos_of L p))"
| "height L (FS_unlock p c) = Suc (Suc (pos_of L p))"
| "height L (FS_found p c) = Suc (Suc (pos_of L p))"
| "height L (FS_unlock_found c) = Suc (pos_of L c)"
| "height L (FS_end p) = Suc (pos_of L p)"
| "height L _ = 0"

lemma holds_below:
  assumes "fs_ok L m R pc" and "distinct L" and "a \<in> holds pc"
  shows "pos_of L a < height L pc" and "a \<in> set L"
  using assms by (cases pc; auto simp: pos_of_nth)+

text \<open>The first match is after everything that does not match.\<close>

lemma first_conn_nth:
  assumes "none_to (h # as) (is_conn H ty fd) i" and "i < length as"
  shows "is_conn H ty fd ((h # as) ! Suc i) \<Longrightarrow> first_conn H ty fd as = (h # as) ! Suc i"
proof -
  assume m: "is_conn H ty fd ((h # as) ! Suc i)"
  have as: "as = take i as @ as ! i # drop (Suc i) as" using assms(2) by (rule id_take_nth_drop)
  have "\<not> is_conn H ty fd x" if "x \<in> set (take i as)" for x
  proof -
    from that obtain j where "j < i" "x = as ! j" using assms(2) by (auto simp: in_set_conv_nth)
    with assms(1) show ?thesis by (auto simp: none_to_def dest: spec [of _ "Suc j"])
  qed
  then have "filter (is_conn H ty fd) (take i as) = []" by (simp add: filter_empty_conv)
  moreover have "filter (is_conn H ty fd) as =
      filter (is_conn H ty fd) (take i as) @ filter (is_conn H ty fd) (as ! i # drop (Suc i) as)"
    by (metis as filter_append)
  ultimately show ?thesis using m by (simp add: first_conn_def)
qed

lemma first_conn_none:
  assumes "none_to (h # as) (is_conn H ty fd) (length as)"
  shows "first_conn H ty fd as = NULL"
proof -
  have "\<not> is_conn H ty fd x" if "x \<in> set as" for x
  proof -
    from that obtain j where "j < length as" "x = as ! j" by (auto simp: in_set_conv_nth)
    with assms show ?thesis by (auto simp: none_to_def dest: spec [of _ "Suc j"])
  qed
  then show ?thesis by (simp add: first_conn_def filter_False)
qed

section \<open>The invariant\<close>

definition search_inv :: "(addr \<rightharpoonup> aIO) \<Rightarrow> addr list \<Rightarrow> nat \<Rightarrow> (nat \<Rightarrow> addr \<Rightarrow> bool) \<Rightarrow> (nat \<Rightarrow> addr set) \<Rightarrow>
    searchers \<Rightarrow> bool" where
  "search_inv H as N m R s \<longleftrightarrow>
     sr_nodes s = relock H (aio_head # as) N (sr_pc s) \<and> disjoint_locks N (sr_pc s) \<and>
     (\<forall>k<N. fs_ok (aio_head # as) (m k) (R k) (sr_pc s k))"

definition search_rank :: "addr list \<Rightarrow> nat \<Rightarrow> searchers \<Rightarrow> nat" where
  "search_rank as N s = (\<Sum>k<N. fs_rank (aio_head # as) (sr_pc s k))"

definition search_ended :: "nat \<Rightarrow> searchers \<Rightarrow> bool" where
  "search_ended N s \<longleftrightarrow> (\<forall>k<N. \<exists>r. sr_pc s k = FS_done r)"

text \<open>The state after thread \<open>k\<close> has moved to a statement.\<close>

definition moved :: "(addr \<rightharpoonup> aIO) \<Rightarrow> addr list \<Rightarrow> nat \<Rightarrow> nat \<Rightarrow> fs_pc \<Rightarrow> searchers \<Rightarrow> searchers" where
  "moved H L N k pc s =
     s\<lparr>sr_nodes := relock H L N ((sr_pc s)(k := pc)), sr_pc := (sr_pc s)(k := pc)\<rparr>"

lemma moved_same:
  assumes "sr_nodes s = relock H L N (sr_pc s)" and "holds pc = holds (sr_pc s k)"
  shows "s\<lparr>sr_pc := (sr_pc s)(k := pc)\<rparr> = moved H L N k pc s"
proof -
  have "relock H L N ((sr_pc s)(k := pc)) = sr_nodes s" using assms relock_same by simp
  then show ?thesis by (simp add: moved_def)
qed

text \<open>A step of a search: where it goes, that it stays on course and gets closer to its end.\<close>

definition good_move :: "(addr \<rightharpoonup> aIO) \<Rightarrow> addr list \<Rightarrow> addr list \<Rightarrow> nat \<Rightarrow> (addr \<Rightarrow> bool) \<Rightarrow> addr set \<Rightarrow> nat \<Rightarrow>
    searchers \<Rightarrow> searchers \<Rightarrow> bool" where
  "good_move H as ext N m R k s t \<longleftrightarrow> (\<exists>pc. t = moved H (aio_head # as) N k pc s \<and>
     fs_ok (aio_head # as) m R pc \<and> disjoint_locks N ((sr_pc s)(k := pc)) \<and>
     fs_rank (aio_head # as @ ext) pc < fs_rank (aio_head # as @ ext) (sr_pc s k))"

lemma search_list:
  assumes "aio_list H as" and "i < Suc (length as)"
  shows "\<exists>n. H ((aio_head # as) ! i) = Some n \<and> (aio_head # as) ! i \<noteq> NULL \<and>
    aio_next n = (if i < length as then (aio_head # as) ! Suc i else NULL)"
  using chain_nth [of aio_next H aio_head "aio_head # as" i] assms by (auto simp: aio_list_def)

lemma search_distinct: "aio_list H as \<Longrightarrow> distinct (aio_head # as)"
  unfolding aio_list_def by (rule chain_distinct)

text \<open>The three ways a search moves: a test, taking a lock, releasing one.\<close>

lemma move_test:
  assumes "search_inv H as N m R s" and "k < N" and "H p = Some n" and "p \<in> set (aio_head # as)" and "p \<noteq> NULL"
    and "after_test (deref (sr_nodes s) p) f k s = Some t"
    and "\<And>b. f (n\<lparr>aio_locked := b\<rparr>) = pc" and "holds pc = holds (sr_pc s k)"
    and "fs_ok (aio_head # as) (m k) (R k) pc"
    and "fs_rank (aio_head # as @ ext) pc < fs_rank (aio_head # as @ ext) (sr_pc s k)"
  shows "good_move H as ext N (m k) (R k) k s t"
proof -
  have n: "sr_nodes s = relock H (aio_head # as) N (sr_pc s)" and d: "disjoint_locks N (sr_pc s)"
    using assms(1) by (simp_all add: search_inv_def)
  have "sr_nodes s p = Some (n\<lparr>aio_locked := held_by N (sr_pc s) p\<rparr>)"
    using n relock_node [where H = H, OF assms(4,3)] by simp
  then have "t = s\<lparr>sr_pc := (sr_pc s)(k := pc)\<rparr>"
    using assms(5,6,7) by (simp add: after_test_def)
  also have "\<dots> = moved H (aio_head # as) N k pc s" using n assms(8) by (rule moved_same)
  finally show ?thesis
    using assms(8-10) disjoint_locks_shrink [OF d, of pc k] by (auto simp: good_move_def)
qed

lemma move_lock:
  assumes "search_inv H as N m R s" and "k < N" and "H c = Some n" and "c \<in> set (aio_head # as)" and "c \<noteq> NULL"
    and "after_lock (mutex_lock c (sr_nodes s)) pc k s = Some t" and "holds pc = insert c (holds (sr_pc s k))"
    and "fs_ok (aio_head # as) (m k) (R k) pc"
    and "fs_rank (aio_head # as @ ext) pc < fs_rank (aio_head # as @ ext) (sr_pc s k)"
  shows "good_move H as ext N (m k) (R k) k s t"
proof -
  have n: "sr_nodes s = relock H (aio_head # as) N (sr_pc s)" and d: "disjoint_locks N (sr_pc s)"
    using assms(1) by (simp_all add: search_inv_def)
  have "mutex_lock c (sr_nodes s) = (if held_by N (sr_pc s) c then None
      else Some (Inr (relock H (aio_head # as) N ((sr_pc s)(k := pc)))))"
    unfolding n by (rule relock_lock [where H = H and pcs = "sr_pc s", OF assms(4,3,5,2,7)])
  with assms(6) have free: "\<not> held_by N (sr_pc s) c" and "t = moved H (aio_head # as) N k pc s"
    by (auto simp: after_lock_def moved_def split: if_splits)
  then show ?thesis
    using assms(8,9) disjoint_locks_grow [OF d assms(7) free] by (auto simp: good_move_def)
qed

lemma move_unlock:
  assumes "search_inv H as N m R s" and "k < N" and "H p = Some n" and "p \<in> set (aio_head # as)" and "p \<noteq> NULL"
    and "after_lock (Some (mutex_unlock p (sr_nodes s))) pc k s = Some t"
    and "p \<in> holds (sr_pc s k)" and "holds pc = holds (sr_pc s k) - {p}"
    and "fs_ok (aio_head # as) (m k) (R k) pc"
    and "fs_rank (aio_head # as @ ext) pc < fs_rank (aio_head # as @ ext) (sr_pc s k)"
  shows "good_move H as ext N (m k) (R k) k s t"
proof -
  have n: "sr_nodes s = relock H (aio_head # as) N (sr_pc s)" and d: "disjoint_locks N (sr_pc s)"
    using assms(1) by (simp_all add: search_inv_def)
  have "mutex_unlock p (sr_nodes s) = Inr (relock H (aio_head # as) N ((sr_pc s)(k := pc)))"
    unfolding n by (rule relock_unlock [where H = H and pcs = "sr_pc s", OF assms(4,3,5,2) d assms(7,8)])
  with assms(6) have "t = moved H (aio_head # as) N k pc s" by (simp add: after_lock_def moved_def)
  then show ?thesis
    using assms(8-10) disjoint_locks_shrink [OF d, of pc k] by (auto simp: good_move_def)
qed

lemma none_to_Suc: "none_to L m i \<Longrightarrow> \<not> m (L ! Suc i) \<Longrightarrow> none_to L m (Suc i)"
  by (auto simp: none_to_def le_Suc_eq)

lemma find_step_moves:
  assumes ls: "aio_list H as" and inv: "search_inv H as N m R s" and k: "k < N"
    and ext: "distinct (aio_head # as @ ext)"
    and ty: "ty k = TCP \<or> ty k = UDP" and co: "course_ok H (aio_head # as) (ty k) (fd k) (m k) (R k)" and step: "find_step (ty k) (fd k) k s = Some t"
  shows "good_move H as ext N (m k) (R k) k s t"
proof -
  let ?L = "aio_head # as" and ?m = "m k" and ?R = "R k"
  have ok: "fs_ok ?L ?m ?R (sr_pc s k)" using inv k by (simp add: search_inv_def)
  note at = search_list [OF ls] and pos = pos_of_prefix [of ?L ext, simplified, OF ext [simplified]]
  show ?thesis
  proof (cases "sr_pc s k")
    case FS_start
    from at [of 0] obtain n where n: "H aio_head = Some n" "aio_head \<noteq> NULL" by auto
    have "fs_ok ?L ?m ?R (FS_next aio_head)" by (auto simp: none_to_def intro: exI [of _ 0])
    with FS_start n show ?thesis
      using step pos [of 0]
      by (intro move_lock [OF inv k n(1) _ n(2), of "FS_next aio_head"]) (auto simp: find_step_def)
  next
    case (FS_next p)
    with ok obtain i where i: "i < length ?L" "p = ?L ! i" "none_to ?L ?m i" by auto
    from at [of i] i obtain n where n: "H p = Some n" "p \<noteq> NULL"
      "aio_next n = (if i < length as then ?L ! Suc i else NULL)" by auto
    have p: "p \<in> set ?L" using i by (simp only: nth_mem)
    have "after_test (deref (sr_nodes s) p) (\<lambda>n.
        if aio_next n = NULL then FS_end p else FS_lock p (aio_next n)) k s = Some t"
      using step FS_next by (simp add: find_step_def)
    note move = move_test [OF inv k n(1) p n(2) this]
    show ?thesis
    proof (cases "i < length as")
      case True
      with at [of "Suc i"] have "?L ! Suc i \<noteq> NULL" by auto
      with True show ?thesis
        using FS_next i n by (intro move [of "FS_lock p (?L ! Suc i)"]) auto
    next
      case False
      then have e: "i = length as" using i by simp
      then have "NULL \<in> ?R" using co i by (simp add: course_ok_def)
      then show ?thesis
        using FS_next False n pos [of i] i by (intro move [of "FS_end p"]) (use p in auto)
    qed
  next
    case (FS_lock p c)
    with ok obtain i where i: "Suc i < length ?L" "p = ?L ! i" "c = ?L ! Suc i" "none_to ?L ?m i" by auto
    from at [of "Suc i"] i obtain n where n: "H c = Some n" "c \<noteq> NULL" by auto
    have c: "c \<in> set ?L" using i nth_mem by metis
    show ?thesis
      using step FS_lock i by (intro move_lock [OF inv k n(1) c n(2), of "FS_test p c"]) (auto simp: find_step_def)
  next
    case (FS_test p c)
    with ok obtain i where i: "Suc i < length ?L" "p = ?L ! i" "c = ?L ! Suc i" "none_to ?L ?m i" by auto
    from at [of "Suc i"] i obtain n where n: "H c = Some n" "c \<noteq> NULL" by auto
    have c: "c \<in> set ?L" using i nth_mem by metis
    have "after_test (deref (sr_nodes s) c) (\<lambda>n. if ty k = TCP \<or> ty k = UDP
        then (if aio_type n = ty k \<and> aio_fd n = fd k then FS_found p c else FS_unlock p c)
        else FS_done NULL) k s = Some t"
      using step FS_test by (simp add: find_step_def)
    note move = move_test [OF inv k n(1) c n(2) this]
    show ?thesis
    proof (cases "is_conn H (ty k) (fd k) c")
      case True
      then have "c \<in> ?R" using co i by (auto simp: course_ok_def)
      with True show ?thesis
        using FS_test i n ty by (intro move [of "FS_found p c"]) (auto simp: is_conn_def)
    next
      case False
      then have "\<not> ?m c" using co i by (auto simp: course_ok_def)
      then have "none_to ?L ?m (Suc i)" using none_to_Suc i by metis
      with False show ?thesis
        using FS_test i n ty by (intro move [of "FS_unlock p c"]) (auto simp: is_conn_def)
    qed
  next
    case (FS_unlock p c)
    with ok obtain i where i: "Suc i < length ?L" "p = ?L ! i" "c = ?L ! Suc i" "none_to ?L ?m (Suc i)" by auto
    from at [of i] i obtain n where n: "H p = Some n" "p \<noteq> NULL" by auto
    have p: "p \<in> set ?L" and "p \<noteq> c"
      using i search_distinct [OF ls] nth_mem [of i ?L] nth_eq_iff_index_eq [of ?L i "Suc i"] by auto
    then show ?thesis
      using step FS_unlock i pos [of i] pos [of "Suc i"]
      by (intro move_unlock [OF inv k n(1) p n(2), of "FS_next c"]) (auto simp: find_step_def)
  next
    case (FS_found p c)
    with ok obtain i where i: "Suc i < length ?L" "p = ?L ! i" "c = ?L ! Suc i" "c \<in> ?R" by auto
    from at [of i] i obtain n where n: "H p = Some n" "p \<noteq> NULL" by auto
    have p: "p \<in> set ?L" and "c \<in> set ?L" "p \<noteq> c"
      using i search_distinct [OF ls] nth_mem [of i ?L] nth_mem [of "Suc i" ?L]
        nth_eq_iff_index_eq [of ?L i "Suc i"] by auto
    then show ?thesis
      using step FS_found i pos [of i]
      by (intro move_unlock [OF inv k n(1) p n(2), of "FS_unlock_found c"]) (auto simp: find_step_def)
  next
    case (FS_unlock_found c)
    from ok [unfolded FS_unlock_found fs_ok.simps] have c: "c \<in> set ?L" and r: "c \<in> ?R" by blast+
    from c obtain i where i: "i < length ?L" "?L ! i = c" by (metis in_set_conv_nth)
    from at [of i] i obtain n where n: "H c = Some n" "c \<noteq> NULL" by auto
    show ?thesis
      using step FS_unlock_found r
      by (intro move_unlock [OF inv k n(1) c n(2), of "FS_done c"]) (auto simp: find_step_def)
  next
    case (FS_end p)
    from ok [unfolded FS_end fs_ok.simps] have p: "p \<in> set ?L" and r: "NULL \<in> ?R" by blast+
    from p obtain i where i: "i < length ?L" "?L ! i = p" by (metis in_set_conv_nth)
    from at [of i] i obtain n where n: "H p = Some n" "p \<noteq> NULL" by auto
    show ?thesis
      using step FS_end r
      by (intro move_unlock [OF inv k n(1) p n(2), of "FS_done NULL"]) (auto simp: find_step_def)
  qed (use step in \<open>simp_all add: find_step_def\<close>)
qed

lemma good_move_inv:
  assumes "search_inv H as N m R s" and "k < N" and "good_move H as ext N (m k) (R k) k s t"
  shows "search_inv H as N m R t" and "search_rank (as @ ext) N t < search_rank (as @ ext) N s"
proof -
  from assms(3) obtain pc where pc: "t = moved H (aio_head # as) N k pc s"
    "fs_ok (aio_head # as) (m k) (R k) pc" "disjoint_locks N ((sr_pc s)(k := pc))"
    "fs_rank (aio_head # as @ ext) pc < fs_rank (aio_head # as @ ext) (sr_pc s k)"
    unfolding good_move_def by blast
  then show "search_inv H as N m R t" using assms(1) by (simp add: search_inv_def moved_def)
  show "search_rank (as @ ext) N t < search_rank (as @ ext) N s"
    unfolding search_rank_def using pc(1,4) assms(2)
    by (intro sum_strict_mono_ex1) (auto simp: moved_def)
qed

lemma search_inv_init:
  assumes "all_free H (aio_head # as)"
  shows "search_inv H as N m R (search_init H)"
proof -
  have "relock H (aio_head # as) N (\<lambda>_. FS_start) a = H a" for a
    using assms by (cases "H a") (auto simp: relock_def held_by_def all_free_def)
  then have "relock H (aio_head # as) N (\<lambda>_. FS_start) = H" by (rule ext)
  then show ?thesis by (simp add: search_inv_def search_init_def disjoint_locks_def)
qed

text \<open>
  Progress: of the threads that are not done, the one that has come furthest can take a step, since
  the lock it may wait for would be held by one that has come further.
\<close>

lemma lock_holder:
  assumes "search_inv H as N m R s" and "aio_list H as" and "held_by N (sr_pc s) a"
  shows "\<exists>j<N. pos_of (aio_head # as) a < height (aio_head # as) (sr_pc s j)"
  using assms holds_below(1) [OF _ search_distinct [OF assms(2)]]
  unfolding search_inv_def held_by_def by blast

lemma step_unless_locked:
  assumes ls: "aio_list H as" and inv: "search_inv H as N m R s" and k: "k < N" and nd: "\<nexists>r. sr_pc s k = FS_done r"
    and top: "\<forall>j<N. height (aio_head # as) (sr_pc s j) \<le> height (aio_head # as) (sr_pc s k)"
  shows "\<exists>t. find_step (ty k) (fd k) k s = Some t"
proof -
  let ?L = "aio_head # as"
  have ok: "fs_ok ?L (m k) (R k) (sr_pc s k)" and n: "sr_nodes s = relock H ?L N (sr_pc s)" using inv k by (simp_all add: search_inv_def)
  note pos = pos_of_nth [OF search_distinct [OF ls]]
  have lock: "\<exists>t. after_lock (mutex_lock c (sr_nodes s)) pc k s = Some t"
    if "i < length ?L" "c = ?L ! i" "height ?L (sr_pc s k) \<le> i" for c pc i
  proof -
    have "\<not> held_by N (sr_pc s) c"
    proof
      assume "held_by N (sr_pc s) c"
      from lock_holder [OF inv ls this] obtain j where "j < N" "pos_of ?L c < height ?L (sr_pc s j)" by blast
      moreover have "pos_of ?L c = i" using pos that(1,2) by simp
      ultimately show False using top that(3) by fastforce
    qed
    moreover from search_list [OF ls, of i] that obtain m where m: "H c = Some m" "c \<noteq> NULL" by auto
    moreover have "c \<in> set ?L" using that nth_mem by metis
    ultimately have "sr_nodes s c = Some (m\<lparr>aio_locked := False\<rparr>)" using relock_node [of c ?L H m N "sr_pc s"] n by simp
    with m show ?thesis by (simp add: mutex_lock_def after_lock_def)
  qed
  show ?thesis
  proof (cases "sr_pc s k")
    case FS_start
    with lock [of 0 aio_head "FS_next aio_head"] show ?thesis by (simp add: find_step_def)
  next
    case (FS_lock p c)
    with ok obtain i where "Suc i < length ?L" "p = ?L ! i" "c = ?L ! Suc i" by auto
    with lock [of "Suc i" c "FS_test p c"] FS_lock pos [of i] show ?thesis by (simp add: find_step_def)
  next
    case (FS_fault e)
    with ok show ?thesis by simp
  next
    case (FS_done r)
    with nd show ?thesis by simp
  qed (auto simp: find_step_def after_test_def after_lock_def sum.case_eq_if Let_def)
qed

lemma search_progress:
  assumes "aio_list H as" and "search_inv H as N m R s" and "\<not> search_ended N s"
  shows "\<exists>t. search_step N ty fd s t"
proof -
  let ?h = "\<lambda>k. height (aio_head # as) (sr_pc s k)" and ?K = "{k. k < N \<and> (\<nexists>r. sr_pc s k = FS_done r)}"
  have "finite ?K" "?K \<noteq> {}" using assms(3) by (auto simp: search_ended_def)
  then have "Max (?h ` ?K) \<in> ?h ` ?K" and le: "\<forall>j\<in>?K. ?h j \<le> Max (?h ` ?K)" by (auto intro: Max_in)
  then obtain k where k: "k \<in> ?K" "?h k = Max (?h ` ?K)" by (auto simp: image_iff)
  have "?h j \<le> ?h k" if "j < N" for j
  proof (cases "j \<in> ?K")
    case False
    with that obtain r where "sr_pc s j = FS_done r" by auto
    then show ?thesis by simp
  qed (use k le in auto)
  with step_unless_locked [OF assms(1,2), where k = k and ty = ty and fd = fd] k(1) obtain t where "find_step (ty k) (fd k) k s = Some t" by auto
  with k(1) show ?thesis by (auto intro: search_thread)
qed

text \<open>On a list that does not change, the first match is the only result.\<close>

definition alone :: "(addr \<rightharpoonup> aIO) \<Rightarrow> addr list \<Rightarrow> (nat \<Rightarrow> aIO_conn_e) \<Rightarrow> (nat \<Rightarrow> int) \<Rightarrow> nat \<Rightarrow> addr set" where
  "alone H as ty fd k = {first_conn H (ty k) (fd k) as}"

lemma course_ok_alone: "course_ok H (aio_head # as) ty fd (is_conn H ty fd) {first_conn H ty fd as}"
  using first_conn_nth [of aio_head as H ty fd] first_conn_none [of aio_head as H ty fd]
  by (auto simp: course_ok_def)

lemma search_thread_program:
  fixes fd :: "nat \<Rightarrow> int"
  assumes "aio_list H as" and "all_free H (aio_head # as)" and "\<forall>k<N. ty k = TCP \<or> ty k = UDP"
  defines "Inv \<equiv> search_inv H as N (\<lambda>k. is_conn H (ty k) (fd k)) (alone H as ty fd)"
  shows "thread_program (search_init H) (search_step N ty fd) (\<lambda>_ _. False) Inv (search_rank as N) (search_ended N)"
proof (rule thread_program.intro)
  show "Inv (search_init H)" unfolding Inv_def using assms(2) by (rule search_inv_init)
  have step: "Inv t \<and> search_rank as N t < search_rank as N s" if "Inv s" "search_step N ty fd s t" for s t
    using that(2)
  proof cases
    case (search_thread k)
    have "good_move H as [] N (is_conn H (ty k) (fd k)) (alone H as ty fd k) k s t"
      using find_step_moves [OF assms(1) that(1) [unfolded Inv_def] search_thread(1), of "[]" ty fd t]
        search_distinct [OF assms(1)] course_ok_alone [of H as "ty k" "fd k"] assms(3) search_thread
      by (simp add: alone_def)
    from good_move_inv [OF that(1) [unfolded Inv_def] search_thread(1) this] show ?thesis by (simp add: Inv_def)
  qed
  then show "Inv s \<Longrightarrow> search_step N ty fd s t \<Longrightarrow> Inv t"
    and "Inv s \<Longrightarrow> search_step N ty fd s t \<Longrightarrow> search_rank as N t < search_rank as N s" for s t
    by simp_all
  show "Inv s \<Longrightarrow> \<not> search_ended N s \<Longrightarrow> \<exists>t. search_step N ty fd s t" for s
    unfolding Inv_def by (rule search_progress [OF assms(1)])
qed simp

section \<open>The property\<close>

text \<open>
  C4. Any number of threads may search the connection list at the same time. Under every schedule, on a
  list of unlocked connections, with every thread looking for a TCP or UDP socket: no thread faults
  and no two threads hold the same lock; the threads never block each other for good, every run
  ends, and at its end every thread has returned the first connection that matches (what it would
  have returned alone) and all locks are released.
\<close>

theorem concurrent_searches:
  assumes "aio_list H as" and "all_free H (aio_head # as)" and "\<forall>k<N. ty k = TCP \<or> ty k = UDP"
    and "reaches (search_step N ty fd) (\<lambda>_ _. False) (search_init H) s"
  shows "(\<forall>k<N. \<forall>e. sr_pc s k \<noteq> FS_fault e) \<and>
    (\<forall>j<N. \<forall>k<N. j \<noteq> k \<longrightarrow> holds (sr_pc s j) \<inter> holds (sr_pc s k) = {}) \<and>
    (\<forall>n t. steps (search_step N ty fd) n s t \<longrightarrow> n \<le> N * (4 * length as + 8)) \<and>
    (\<exists>n t. steps (search_step N ty fd) n s t \<and> stuck (search_step N ty fd) t) \<and>
    (\<forall>n t. steps (search_step N ty fd) n s t \<longrightarrow> stuck (search_step N ty fd) t \<longrightarrow>
       sr_nodes t = H \<and> (\<forall>k<N. sr_pc t k = FS_done (first_conn H (ty k) (fd k) as)))"
proof -
  let ?inv = "search_inv H as N (\<lambda>k. is_conn H (ty k) (fd k)) (alone H as ty fd)"
  note tp = search_thread_program [OF assms(1-3), of fd]
  note inv = thread_program.reaches_inv [OF tp assms(4)]
  have "fs_rank (aio_head # as) pc \<le> 4 * length as + 8" for pc by (cases pc) auto
  then have "search_rank as N s \<le> of_nat (card {..<N}) * (4 * length as + 8)"
    unfolding search_rank_def by (intro sum_bounded_above) simp
  then have rank: "search_rank as N s \<le> N * (4 * length as + 8)" by simp
  have final: "sr_nodes t = H \<and> (\<forall>k<N. sr_pc t k = FS_done (first_conn H (ty k) (fd k) as))"
    if "?inv t" "search_ended N t" for t
  proof -
    have "\<not> held_by N (sr_pc t) a" for a using that(2) by (force simp: held_by_def search_ended_def)
    then have "relock H (aio_head # as) N (sr_pc t) a = H a" for a
      using assms(2) by (cases "H a") (auto simp: relock_def all_free_def)
    then have "sr_nodes t = H" using that(1) by (auto simp: search_inv_def)
    moreover have "sr_pc t k = FS_done (first_conn H (ty k) (fd k) as)" if k: "k < N" for k
    proof -
      obtain r where r: "sr_pc t k = FS_done r" using \<open>search_ended N t\<close> k by (auto simp: search_ended_def)
      have "fs_ok (aio_head # as) (is_conn H (ty k) (fd k)) (alone H as ty fd k) (sr_pc t k)"
        using \<open>?inv t\<close> k by (simp add: search_inv_def)
      then show ?thesis by (simp add: r alone_def)
    qed
    ultimately show ?thesis by blast
  qed
  have bound: "n \<le> N * (4 * length as + 8)" if "steps (search_step N ty fd) n s t" for n t
    using thread_program.steps_bounded [OF tp assms(4) that] rank by simp
  have ends: "\<exists>n t. steps (search_step N ty fd) n s t \<and> stuck (search_step N ty fd) t"
    using thread_program.runs_to_end [OF tp inv] by blast
  have result: "sr_nodes t = H \<and> (\<forall>k<N. sr_pc t k = FS_done (first_conn H (ty k) (fd k) as))"
    if "steps (search_step N ty fd) n s t" "stuck (search_step N ty fd) t" for n t
    using thread_program.stuck_ended [OF tp assms(4) that] by (intro final) simp_all
  have nofault: "sr_pc s k \<noteq> FS_fault e" if "k < N" for k e
  proof
    assume "sr_pc s k = FS_fault e"
    with inv that show False unfolding search_inv_def by (metis fs_ok.simps(10))
  qed
  have "disjoint_locks N (sr_pc s)" using inv by (simp add: search_inv_def)
  then show ?thesis using nofault bound ends result unfolding disjoint_locks_def by simp
qed

theorem concurrent_searches_witness:
  "\<exists>n t. steps (search_step 3 (\<lambda>_. UDP) (\<lambda>k. int k + 3)) n (search_init
      [aio_head \<mapsto> zero_aio\<lparr>aio_next := 64\<rparr>, 64 \<mapsto> zero_aio\<lparr>aio_type := UDP, aio_fd := 3, aio_next := 96\<rparr>,
       96 \<mapsto> zero_aio\<lparr>aio_type := UDP, aio_fd := 4\<rparr>]) t \<and>
    sr_pc t 0 = FS_done 64 \<and> sr_pc t 1 = FS_done 96 \<and> sr_pc t 2 = FS_done NULL"
proof -
  let ?H = "[aio_head \<mapsto> zero_aio\<lparr>aio_next := 64\<rparr>, 64 \<mapsto> zero_aio\<lparr>aio_type := UDP, aio_fd := 3, aio_next := 96\<rparr>,
       96 \<mapsto> zero_aio\<lparr>aio_type := UDP, aio_fd := 4\<rparr>]"
  have l: "aio_list ?H [64, 96]" "all_free ?H [aio_head, 64, 96]"
    by (simp_all add: aio_list_def chain_Cons all_free_def zero_aio_def aio_head_def)
  note all = concurrent_searches [OF l, of 3 "\<lambda>_. UDP", OF _ reaches_start, of "\<lambda>k. int k + 3"]
  from all obtain n t where t: "steps (search_step 3 (\<lambda>_. UDP) (\<lambda>k. int k + 3)) n (search_init ?H) t"
    "stuck (search_step 3 (\<lambda>_. UDP) (\<lambda>k. int k + 3)) t" by auto
  with all have "\<forall>k<3. sr_pc t k = FS_done (first_conn ?H UDP (int k + 3) [64, 96])" by blast
  from this [rule_format, of 0] this [rule_format, of 1] this [rule_format, of 2] t(1) show ?thesis
    by (auto simp: first_conn_def is_conn_def zero_aio_def aio_head_def)
qed

end
