(* ===== verification/Async_Open.thy ===== *)
theory Async_Open
  imports Async_Search Async_Program
begin

text \<open>
  Searches of \<open>async_UDP_multithread\<close> that run while another thread opens a socket, under every schedule.
  \<open>aIOOpenUDPSocket\<close> walks the list without taking a lock, links the new connection and only then locks
  and fills it. Searches may reach the connection half open; still each of them returns what it would have
  returned alone, before or after the opening.
\<close>

section \<open>The program\<close>

text \<open>
  The next statement of the opener, with its variable \<open>iterator\<close>. The calls on the new socket succeed
  (a failure ends the process), and nobody reads what they set between them, so they are one step.
\<close>

datatype op_pc =
    OP_walk addr
  | OP_create addr
  | OP_lock
  | OP_fill
  | OP_unlock
  | OP_done
  | OP_fault c_fault

text \<open>What the opener is called with, and what its allocations and \<open>socket\<close> return.\<close>

record opening_args =
  oa_conn :: addr
  oa_buffer :: addr
  oa_buffer_size :: nat
  oa_callback :: "nat option"
  oa_fd :: int
  oa_port :: "16 word"

record open_world =
  ow_search :: searchers
  ow_pc :: op_pc

text \<open>The connection as \<open>createAsyncIO\<close> returns it, and with its socket.\<close>

definition created :: "opening_args \<Rightarrow> aIO" where
  "created x = zero_aio\<lparr>aio_type := UDP, aio_buffer_size := oa_buffer_size x, aio_buffer := oa_buffer x,
     aio_callback := oa_callback x\<rparr>"

definition with_socket :: "opening_args \<Rightarrow> aIO \<Rightarrow> aIO" where
  "with_socket x n = n\<lparr>aio_port := oa_port x, aio_fd := oa_fd x\<rparr>"

definition goto_with :: "(addr \<rightharpoonup> aIO) cres \<Rightarrow> op_pc \<Rightarrow> open_world \<Rightarrow> open_world" where
  "goto_with m pc w = (case m of
       Inl e \<Rightarrow> w\<lparr>ow_pc := OP_fault e\<rparr>
     | Inr H \<Rightarrow> w\<lparr>ow_search := (ow_search w)\<lparr>sr_nodes := H\<rparr>, ow_pc := pc\<rparr>)"

definition open_step :: "opening_args \<Rightarrow> open_world \<Rightarrow> open_world option" where
  "open_step x w = (let H = sr_nodes (ow_search w); a = oa_conn x in case ow_pc w of
       OP_walk it \<Rightarrow> Some (case deref H it of
           Inl e \<Rightarrow> w\<lparr>ow_pc := OP_fault e\<rparr>
         | Inr n \<Rightarrow> w\<lparr>ow_pc := if aio_next n = NULL then OP_create it else OP_walk (aio_next n)\<rparr>)
     | OP_create it \<Rightarrow> Some (goto_with (update_at (H(a \<mapsto> created x)) it (aio_next_update (\<lambda>_. a))) OP_lock w)
     | OP_lock \<Rightarrow> map_option (\<lambda>m. goto_with m OP_fill w) (mutex_lock a H)
     | OP_fill \<Rightarrow> Some (goto_with (update_at H a (with_socket x)) OP_unlock w)
     | OP_unlock \<Rightarrow> Some (goto_with (mutex_unlock a H) OP_done w)
     | OP_done \<Rightarrow> None
     | OP_fault _ \<Rightarrow> None)"

inductive open_search_step :: "opening_args \<Rightarrow> nat \<Rightarrow> (nat \<Rightarrow> aIO_conn_e) \<Rightarrow> (nat \<Rightarrow> int) \<Rightarrow> open_world \<Rightarrow> open_world \<Rightarrow> bool"
  for x N ty fd where
  os_search: "k < N \<Longrightarrow> find_step (ty k) (fd k) k (ow_search w) = Some s \<Longrightarrow>
    open_search_step x N ty fd w (w\<lparr>ow_search := s\<rparr>)"
| os_open: "open_step x w = Some w' \<Longrightarrow> open_search_step x N ty fd w w'"

definition open_init :: "(addr \<rightharpoonup> aIO) \<Rightarrow> open_world" where
  "open_init H = \<lparr>ow_search = search_init H, ow_pc = OP_walk aio_head\<rparr>"

section \<open>The stages of the list\<close>

text \<open>The store after the connection \<open>n\<close> has been appended at \<open>a\<close>.\<close>

definition linked :: "(addr \<rightharpoonup> aIO) \<Rightarrow> addr list \<Rightarrow> addr \<Rightarrow> aIO \<Rightarrow> addr \<rightharpoonup> aIO" where
  "linked H as a n = aio_nodes (appended a as n NULL [] (aio_zero\<lparr>aio_nodes := H\<rparr>))"

fun is_linked :: "op_pc \<Rightarrow> bool" where
  "is_linked (OP_walk it) = False"
| "is_linked (OP_create it) = False"
| "is_linked pc = True"

text \<open>The store without the locks the threads hold, and the list, at each statement of the opener.\<close>

definition stage :: "opening_args \<Rightarrow> (addr \<rightharpoonup> aIO) \<Rightarrow> addr list \<Rightarrow> op_pc \<Rightarrow> addr \<rightharpoonup> aIO" where
  "stage x H as pc =
     (if \<not> is_linked pc then H
      else linked H as (oa_conn x) (if pc = OP_lock \<or> pc = OP_fill then created x else with_socket x (created x)))"

definition stage_list :: "opening_args \<Rightarrow> addr list \<Rightarrow> op_pc \<Rightarrow> addr list" where
  "stage_list x as pc = (if is_linked pc then as @ [oa_conn x] else as)"

text \<open>
  The opener takes part in the searches' invariant as one more thread: while it holds the lock of the new
  connection it is at a statement with that lock.
\<close>

definition op_ghost :: "opening_args \<Rightarrow> op_pc \<Rightarrow> fs_pc" where
  "op_ghost x pc = (if pc = OP_fill \<or> pc = OP_unlock then FS_unlock_found (oa_conn x) else FS_done NULL)"

definition with_opener :: "opening_args \<Rightarrow> nat \<Rightarrow> open_world \<Rightarrow> searchers" where
  "with_opener x N w =
     (ow_search w)\<lparr>sr_pc := (sr_pc (ow_search w))(N := op_ghost x (ow_pc w))\<rparr>"

lemma find_step_ghost:
  assumes "k \<noteq> N"
  shows "find_step ty fd k (s\<lparr>sr_pc := (sr_pc s)(N := pc)\<rparr>) =
    map_option (\<lambda>t. t\<lparr>sr_pc := (sr_pc t)(N := pc)\<rparr>) (find_step ty fd k s)"
  using assms
  by (cases "sr_pc s k") (auto simp: find_step_def after_lock_def after_test_def Let_def fun_upd_twist
      split: option.splits sum.splits)

lemma linked_list:
  assumes "aio_list H as" and "a \<notin> set (aio_head # as)" and "a \<noteq> NULL" and "aio_next n = NULL"
  shows "aio_list (linked H as a n) (as @ [a])"
  using appended_list [of "aio_zero\<lparr>aio_nodes := H\<rparr>" as a n] assms by (simp add: linked_def)

lemma linked_conn:
  assumes "aio_list H as" and "a \<notin> set (aio_head # as)" and "y \<in> set as"
  shows "is_conn (linked H as a n) ty fd y = is_conn H ty fd y"
  using appended_conn_old [of "aio_zero\<lparr>aio_nodes := H\<rparr>" as a y] assms by (simp add: linked_def)

lemma linked_new: "is_conn (linked H as a n) ty fd a \<longleftrightarrow> aio_type n = ty \<and> aio_fd n = fd"
  by (simp add: linked_def appended_conn_new)

lemma linked_free:
  assumes "aio_list H as" and "a \<notin> set (aio_head # as)" and "all_free H (aio_head # as)" and "\<not> aio_locked n"
  shows "all_free (linked H as a n) (aio_head # as @ [a])"
  using appended_free [of "aio_zero\<lparr>aio_nodes := H\<rparr>" as a n] assms by (simp add: linked_def)

lemma linked_at: "linked H as a n a = Some n"
  by (simp add: linked_def appended_def)

lemma created_sel [simp]:
  "aio_type (created x) = UDP" "aio_fd (created x) = 0" "aio_next (created x) = NULL" "\<not> aio_locked (created x)"
  "aio_type (with_socket x n) = aio_type n" "aio_fd (with_socket x n) = oa_fd x" "aio_next (with_socket x n) = aio_next n"
  "aio_locked (with_socket x n) = aio_locked n"
  by (simp_all add: created_def with_socket_def zero_aio_def)

text \<open>The list is well formed at every stage.\<close>

lemma stage_aio_list:
  assumes "aio_list H as" and "oa_conn x \<notin> set (aio_head # as)" and "oa_conn x \<noteq> NULL"
  shows "aio_list (stage x H as pc) (stage_list x as pc)"
  using assms linked_list [OF assms] by (simp add: stage_def stage_list_def)

section \<open>What a search may return\<close>

text \<open>What a search found before the opening, and after it.\<close>

definition before_after :: "opening_args \<Rightarrow> (addr \<rightharpoonup> aIO) \<Rightarrow> addr list \<Rightarrow> aIO_conn_e \<Rightarrow> int \<Rightarrow> addr set" where
  "before_after x H as ty fd = {first_conn H ty fd as,
     first_conn (linked H as (oa_conn x) (with_socket x (created x))) ty fd (as @ [oa_conn x])}"

lemma first_conn_linked:
  assumes "aio_list H as" and "a \<notin> set (aio_head # as)"
  shows "first_conn (linked H as a n) ty fd (as @ [a]) =
    (if first_conn H ty fd as \<noteq> NULL then first_conn H ty fd as
     else if aio_type n = ty \<and> aio_fd n = fd then a else NULL)"
proof -
  have f: "filter (is_conn (linked H as a n) ty fd) as = filter (is_conn H ty fd) as"
    using linked_conn [OF assms] by (intro filter_cong) auto
  have "NULL \<notin> set as" using chain_not_NULL [of aio_next H aio_head "aio_head # as"] assms(1)
    by (auto simp: aio_list_def)
  then have nz: "x \<noteq> NULL" if "filter (is_conn H ty fd) as = x # xs" for x xs
  proof -
    have "x \<in> set (filter (is_conn H ty fd) as)" using that by simp
    with \<open>NULL \<notin> set as\<close> show ?thesis by auto
  qed
  show ?thesis
    using nz by (cases "filter (is_conn H ty fd) as") (auto simp: first_conn_def f linked_new)
qed

lemma before_after_eq:
  assumes "aio_list H as" and "oa_conn x \<notin> set (aio_head # as)"
  shows "before_after x H as ty fd = (let r = first_conn H ty fd as in
    if r \<noteq> NULL then {r} else if ty = UDP \<and> fd = oa_fd x then {NULL, oa_conn x} else {NULL})"
  by (auto simp: before_after_def first_conn_linked [OF assms] Let_def)

text \<open>A search is on course at every stage; only the old connections may not be passed.\<close>

definition old_conn :: "opening_args \<Rightarrow> (addr \<rightharpoonup> aIO) \<Rightarrow> aIO_conn_e \<Rightarrow> int \<Rightarrow> addr \<Rightarrow> bool" where
  "old_conn x H ty fd y \<longleftrightarrow> y \<noteq> oa_conn x \<and> is_conn H ty fd y"

lemma none_to_old:
  assumes "oa_conn x \<notin> set (aio_head # as)" and "i \<le> length as" and "none_to (aio_head # as @ zs) (old_conn x H ty fd) i"
  shows "none_to (aio_head # as) (is_conn H ty fd) i"
  unfolding none_to_def
proof (intro allI impI)
  fix j assume j: "0 < j" "j \<le> i"
  then have e: "(aio_head # as @ zs) ! j = (aio_head # as) ! j" "(aio_head # as) ! j \<in> set (aio_head # as)"
    using assms(2) nth_append [of "aio_head # as" zs j] nth_mem [of j "aio_head # as"] by simp_all
  have "\<not> old_conn x H ty fd ((aio_head # as @ zs) ! j)" using assms(3) j by (simp add: none_to_def)
  with e assms(1) show "\<not> is_conn H ty fd ((aio_head # as) ! j)" by (auto simp: old_conn_def)
qed

lemma course_ok_stage:
  assumes "aio_list H as" and "oa_conn x \<notin> set (aio_head # as)" and "fd \<noteq> 0 \<or> ty \<noteq> UDP"
  shows "course_ok (stage x H as pc) (aio_head # stage_list x as pc) ty fd (old_conn x H ty fd) (before_after x H as ty fd)"
proof -
  let ?a = "oa_conn x" and ?m = "old_conn x H ty fd" and ?R = "before_after x H as ty fd"
  obtain zs where zs: "stage_list x as pc = as @ zs" "zs \<in> {[], [?a]}"
    by (cases "is_linked pc") (auto simp: stage_list_def)
  let ?L = "aio_head # as @ zs"
  have old: "is_conn (stage x H as pc) ty fd y = is_conn H ty fd y" if "y \<in> set as" for y
    using linked_conn [OF assms(1,2) that] by (simp add: stage_def)
  have none: "first_conn H ty fd as = NULL" if "length as \<le> i" "none_to ?L ?m i" for i
  proof (rule first_conn_none)
    have "none_to ?L ?m (length as)" using that by (auto simp: none_to_def)
    then show "none_to (aio_head # as) (is_conn H ty fd) (length as)" using none_to_old [OF assms(2)] by blast
  qed
  have "if is_conn (stage x H as pc) ty fd (?L ! Suc i) then ?L ! Suc i \<in> ?R else \<not> ?m (?L ! Suc i)"
    if i: "Suc i < length ?L" "none_to ?L ?m i" for i
  proof (cases "i < length as")
    case True
    then have e: "?L ! Suc i = as ! i" "as ! i \<in> set as" by (simp_all add: nth_append)
    have "first_conn H ty fd as = as ! i" if "is_conn H ty fd (as ! i)"
      using first_conn_nth [of aio_head as H ty fd i] none_to_old [OF assms(2) _ i(2)] True that by simp
    with old [OF e(2)] e show ?thesis by (auto simp: before_after_def old_conn_def)
  next
    case False
    then have e: "i = length as" "zs = [?a]" "?L ! Suc i = ?a" using i(1) zs(2) by (auto simp: nth_append)
    then have "is_linked pc" using zs(1) by (auto simp: stage_list_def split: if_splits)
    then have "is_conn (stage x H as pc) ty fd ?a \<longrightarrow> ty = UDP \<and> fd = oa_fd x"
      using assms(3) by (auto simp: stage_def linked_new)
    moreover have "first_conn H ty fd as = NULL" using none e(1) i(2) by blast
    ultimately show ?thesis using e by (auto simp: before_after_eq [OF assms(1,2)] old_conn_def)
  qed
  moreover have "NULL \<in> ?R" if "none_to ?L ?m (length ?L - 1)"
    using none [OF _ that] by (simp add: before_after_def)
  ultimately show ?thesis unfolding course_ok_def zs(1) by blast
qed

section \<open>The invariant\<close>

definition op_ok :: "addr list \<Rightarrow> op_pc \<Rightarrow> bool" where
  "op_ok as pc \<longleftrightarrow> (case pc of
       OP_walk it \<Rightarrow> it \<in> set (aio_head # as)
     | OP_create it \<Rightarrow> it = last (aio_head # as)
     | OP_fault e \<Rightarrow> False
     | _ \<Rightarrow> True)"

text \<open>Thread \<open>N\<close> is the opener.\<close>

definition not_pass :: "opening_args \<Rightarrow> (addr \<rightharpoonup> aIO) \<Rightarrow> (nat \<Rightarrow> aIO_conn_e) \<Rightarrow> (nat \<Rightarrow> int) \<Rightarrow> nat \<Rightarrow> addr \<Rightarrow> bool" where
  "not_pass x H ty fd k = old_conn x H (ty k) (fd k)"

definition results :: "opening_args \<Rightarrow> (addr \<rightharpoonup> aIO) \<Rightarrow> addr list \<Rightarrow> nat \<Rightarrow> (nat \<Rightarrow> aIO_conn_e) \<Rightarrow> (nat \<Rightarrow> int) \<Rightarrow> nat \<Rightarrow> addr set" where
  "results x H as N ty fd k = (if k = N then {NULL, oa_conn x} else before_after x H as (ty k) (fd k))"

definition open_inv :: "opening_args \<Rightarrow> (addr \<rightharpoonup> aIO) \<Rightarrow> addr list \<Rightarrow> nat \<Rightarrow> (nat \<Rightarrow> aIO_conn_e) \<Rightarrow> (nat \<Rightarrow> int) \<Rightarrow> open_world \<Rightarrow> bool" where
  "open_inv x H as N ty fd w \<longleftrightarrow> op_ok as (ow_pc w) \<and>
     search_inv (stage x H as (ow_pc w)) (stage_list x as (ow_pc w)) (Suc N) (not_pass x H ty fd)
       (results x H as N ty fd) (with_opener x N w)"

fun op_rank :: "addr list \<Rightarrow> op_pc \<Rightarrow> nat" where
  "op_rank L (OP_walk it) = 5 + (length L - pos_of L it)"
| "op_rank L (OP_create it) = 4"
| "op_rank L OP_lock = 3"
| "op_rank L OP_fill = 2"
| "op_rank L OP_unlock = 1"
| "op_rank L _ = 0"

definition open_rank :: "opening_args \<Rightarrow> addr list \<Rightarrow> nat \<Rightarrow> open_world \<Rightarrow> nat" where
  "open_rank x as N w = search_rank (as @ [oa_conn x]) (Suc N) (with_opener x N w) + 2 * op_rank (aio_head # as) (ow_pc w)"

definition open_ended :: "nat \<Rightarrow> open_world \<Rightarrow> bool" where
  "open_ended N w \<longleftrightarrow> ow_pc w = OP_done \<and> search_ended N (ow_search w)"

text \<open>The hypotheses of the runs considered.\<close>

definition open_setting :: "opening_args \<Rightarrow> (addr \<rightharpoonup> aIO) \<Rightarrow> addr list \<Rightarrow> nat \<Rightarrow> (nat \<Rightarrow> aIO_conn_e) \<Rightarrow> (nat \<Rightarrow> int) \<Rightarrow> bool" where
  "open_setting x H as N ty fd \<longleftrightarrow> aio_list H as \<and> all_free H (aio_head # as) \<and>
     oa_conn x \<notin> set (aio_head # as) \<and> oa_conn x \<noteq> NULL \<and>
     (\<forall>k<N. (ty k = TCP \<or> ty k = UDP) \<and> (fd k \<noteq> 0 \<or> ty k \<noteq> UDP))"

lemma open_inv_init: "open_setting x H as N ty fd \<Longrightarrow> open_inv x H as N ty fd (open_init H)"
proof -
  assume "open_setting x H as N ty fd"
  then have "search_inv H as (Suc N) (not_pass x H ty fd) (results x H as N ty fd) (search_init H)"
    using search_inv_init by (simp add: open_setting_def)
  moreover have "relock H (aio_head # as) (Suc N) ((\<lambda>_. FS_start)(N := FS_done NULL)) = relock H (aio_head # as) (Suc N) (\<lambda>_. FS_start)"
    by (rule relock_same) simp
  ultimately show ?thesis
    by (auto simp: open_inv_def open_init_def op_ok_def stage_def stage_list_def with_opener_def op_ghost_def
        search_init_def search_inv_def disjoint_locks_def results_def)
qed

text \<open>A step of a search.\<close>

lemma open_search_moves:
  assumes set: "open_setting x H as N ty fd" and inv: "open_inv x H as N ty fd w" and k: "k < N"
    and st: "find_step (ty k) (fd k) k (ow_search w) = Some s"
  shows "open_inv x H as N ty fd (w\<lparr>ow_search := s\<rparr>) \<and> open_rank x as N (w\<lparr>ow_search := s\<rparr>) < open_rank x as N w"
proof -
  let ?H = "stage x H as (ow_pc w)" and ?as = "stage_list x as (ow_pc w)" and ?w = "w\<lparr>ow_search := s\<rparr>"
  have ls: "aio_list H as" "oa_conn x \<notin> set (aio_head # as)" "oa_conn x \<noteq> NULL"
    and ty: "ty k = TCP \<or> ty k = UDP" "fd k \<noteq> 0 \<or> ty k \<noteq> UDP"
    using set k by (auto simp: open_setting_def)
  have i: "search_inv ?H ?as (Suc N) (not_pass x H ty fd) (results x H as N ty fd) (with_opener x N w)"
    using inv by (simp add: open_inv_def)
  have st': "find_step (ty k) (fd k) k (with_opener x N w) = Some (with_opener x N ?w)"
    using find_step_ghost [of k N "ty k" "fd k" "ow_search w" "op_ghost x (ow_pc w)"] k st by (simp add: with_opener_def)
  have co: "course_ok ?H (aio_head # ?as) (ty k) (fd k) (not_pass x H ty fd k) (results x H as N ty fd k)"
    using course_ok_stage [OF ls(1,2) ty(2)] k by (simp add: not_pass_def results_def)
  obtain ext where ext: "?as @ ext = as @ [oa_conn x]" by (cases "is_linked (ow_pc w)") (auto simp: stage_list_def)
  have d: "distinct (aio_head # ?as @ ext)" using search_distinct [OF ls(1)] ls(2) unfolding ext by auto
  have "good_move ?H ?as ext (Suc N) (not_pass x H ty fd k) (results x H as N ty fd k) k (with_opener x N w) (with_opener x N ?w)"
    by (rule find_step_moves [where k = k and ty = ty and fd = fd, OF stage_aio_list [OF ls] i _ d ty(1) co st']) (use k in simp)
  from good_move_inv [OF i _ this] k inv show ?thesis by (simp add: open_inv_def open_rank_def ext)
qed

text \<open>The steps of the opener.\<close>

lemma none_to_prefix: "i < length L \<Longrightarrow> none_to (L @ zs) m i = none_to L m i"
  by (auto simp: none_to_def nth_append)

lemma fs_ok_extend: "fs_ok L m R pc \<Longrightarrow> fs_ok (L @ zs) m R pc"
proof (cases pc)
  case (FS_next p)
  moreover assume "fs_ok L m R pc"
  ultimately obtain i where "i < length L" "p = L ! i" "none_to L m i" by auto
  then show ?thesis using FS_next by (auto simp: nth_append none_to_prefix intro!: exI [of _ i])
next
  case (FS_lock p c)
  moreover assume "fs_ok L m R pc"
  ultimately obtain i where "Suc i < length L" "p = L ! i" "c = L ! Suc i" "none_to L m i" by auto
  then show ?thesis using FS_lock by (auto simp: nth_append none_to_prefix intro!: exI [of _ i])
next
  case (FS_test p c)
  moreover assume "fs_ok L m R pc"
  ultimately obtain i where "Suc i < length L" "p = L ! i" "c = L ! Suc i" "none_to L m i" by auto
  then show ?thesis using FS_test by (auto simp: nth_append none_to_prefix intro!: exI [of _ i])
next
  case (FS_unlock p c)
  moreover assume "fs_ok L m R pc"
  ultimately obtain i where "Suc i < length L" "p = L ! i" "c = L ! Suc i" "none_to L m (Suc i)" by auto
  then show ?thesis using FS_unlock by (auto simp: nth_append none_to_prefix intro!: exI [of _ i])
next
  case (FS_found p c)
  moreover assume "fs_ok L m R pc"
  ultimately obtain i where "Suc i < length L" "p = L ! i" "c = L ! Suc i" "c \<in> R" by auto
  then show ?thesis using FS_found by (auto simp: nth_append intro!: exI [of _ i])
qed auto

lemma held_in_list:
  assumes "search_inv H as N m R s" and "distinct (aio_head # as)" and "held_by N (sr_pc s) y"
  shows "y \<in> set (aio_head # as)"
  using assms holds_below(2) unfolding search_inv_def held_by_def by metis

text \<open>Linking the new connection: no thread holds its lock.\<close>

lemma search_inv_link:
  assumes inv: "search_inv H as N m R s" and ls: "aio_list H as" and a: "a \<notin> set (aio_head # as)"
    and n: "\<not> aio_locked n"
  shows "\<exists>H'. update_at ((sr_nodes s)(a \<mapsto> n)) (last (aio_head # as)) (aio_next_update (\<lambda>_. a)) = Inr H' \<and>
    search_inv (linked H as a n) (as @ [a]) N m R (s\<lparr>sr_nodes := H'\<rparr>)"
proof -
  let ?L = "aio_head # as" and ?it = "last (aio_head # as)"
  have c: "chain aio_next H aio_head ?L" using ls by (simp add: aio_list_def)
  then obtain b where b: "H ?it = Some b" "?it \<noteq> NULL" "?it \<in> set ?L" by (rule chain_last)
  have ne: "?it \<noteq> a" using b(3) a by metis
  have nodes: "sr_nodes s = relock H ?L N (sr_pc s)" using inv by (simp add: search_inv_def)
  have free: "\<not> held_by N (sr_pc s) a" using held_in_list [OF inv search_distinct [OF ls]] a by blast
  have at: "sr_nodes s ?it = Some (b\<lparr>aio_locked := held_by N (sr_pc s) ?it\<rparr>)"
    unfolding nodes by (rule relock_node [where H = H, OF b(3,1)])
  have "relock (linked H as a n) (aio_head # as @ [a]) N (sr_pc s) =
      (sr_nodes s)(a \<mapsto> n, ?it \<mapsto> b\<lparr>aio_locked := held_by N (sr_pc s) ?it, aio_next := a\<rparr>)"
  proof
    fix y
    show "relock (linked H as a n) (aio_head # as @ [a]) N (sr_pc s) y =
        ((sr_nodes s)(a \<mapsto> n, ?it \<mapsto> b\<lparr>aio_locked := held_by N (sr_pc s) ?it, aio_next := a\<rparr>)) y"
      using b(1,3) ne free n a
      by (auto simp: nodes relock_def linked_def appended_def simp del: last.simps)
  qed
  then have "search_inv (linked H as a n) (as @ [a]) N m R
      (s\<lparr>sr_nodes := (sr_nodes s)(a \<mapsto> n, ?it \<mapsto> b\<lparr>aio_locked := held_by N (sr_pc s) ?it, aio_next := a\<rparr>)\<rparr>)"
    using inv fs_ok_extend [of ?L _ _ _ "[a]"] by (simp add: search_inv_def)
  moreover have "update_at ((sr_nodes s)(a \<mapsto> n)) ?it (aio_next_update (\<lambda>_. a)) =
      Inr ((sr_nodes s)(a \<mapsto> n, ?it \<mapsto> b\<lparr>aio_locked := held_by N (sr_pc s) ?it, aio_next := a\<rparr>))"
    using at b(2) ne by (simp add: update_at_def deref_def del: last.simps)
  ultimately show ?thesis by blast
qed

text \<open>Changing the new connection, and its lock.\<close>

lemma search_inv_change:
  assumes inv: "search_inv (linked H as a n) (as @ [a]) N m R s" and "a \<noteq> NULL" and "a \<notin> set (aio_head # as)"
    and f: "\<And>b. f (n\<lparr>aio_locked := b\<rparr>) = (f n)\<lparr>aio_locked := b\<rparr>"
  shows "\<exists>H'. update_at (sr_nodes s) a f = Inr H' \<and> search_inv (linked H as a (f n)) (as @ [a]) N m R (s\<lparr>sr_nodes := H'\<rparr>)"
proof -
  let ?L = "aio_head # as @ [a]"
  have nodes: "sr_nodes s = relock (linked H as a n) ?L N (sr_pc s)" using inv by (simp add: search_inv_def)
  have at: "sr_nodes s a = Some (n\<lparr>aio_locked := held_by N (sr_pc s) a\<rparr>)"
    unfolding nodes by (rule relock_node [OF _ linked_at]) simp
  have "relock (linked H as a (f n)) ?L N (sr_pc s) = (sr_nodes s)(a \<mapsto> (f n)\<lparr>aio_locked := held_by N (sr_pc s) a\<rparr>)"
    by (auto simp: nodes relock_def linked_def appended_def fun_eq_iff simp del: last.simps)
  then show ?thesis using inv at assms(2) by (simp add: update_at_def deref_def f search_inv_def)
qed

lemma search_inv_take:
  assumes inv: "search_inv H as N m R s" and "H a = Some n" and "a \<in> set as" and "a \<noteq> NULL" and "k < N"
    and "sr_pc s k = FS_done r" and "a \<in> R k" and "mutex_lock a (sr_nodes s) = Some c"
  shows "\<exists>H'. c = Inr H' \<and> search_inv H as N m R (s\<lparr>sr_nodes := H', sr_pc := (sr_pc s)(k := FS_unlock_found a)\<rparr>)"
proof -
  let ?pc = "FS_unlock_found a"
  have nodes: "sr_nodes s = relock H (aio_head # as) N (sr_pc s)" and d: "disjoint_locks N (sr_pc s)"
    using inv by (simp_all add: search_inv_def)
  have l: "mutex_lock a (sr_nodes s) = (if held_by N (sr_pc s) a then None
      else Some (Inr (relock H (aio_head # as) N ((sr_pc s)(k := ?pc)))))"
    unfolding nodes by (rule relock_lock [where H = H and pcs = "sr_pc s" and k = k, OF _ assms(2,4,5)]) (use assms(3,6) in simp_all)
  then have free: "\<not> held_by N (sr_pc s) a" using assms(8) by (auto split: if_splits)
  have "disjoint_locks N ((sr_pc s)(k := ?pc))"
    by (rule disjoint_locks_grow [OF d _ free]) (simp add: assms(6))
  with l free assms(8) inv assms(3,7) show ?thesis by (auto simp: search_inv_def)
qed

lemma search_inv_release:
  assumes inv: "search_inv H as N m R s" and "H a = Some n" and "a \<in> set as" and "a \<noteq> NULL" and "k < N"
    and "sr_pc s k = FS_unlock_found a" and "NULL \<in> R k"
  shows "\<exists>H'. mutex_unlock a (sr_nodes s) = Inr H' \<and>
    search_inv H as N m R (s\<lparr>sr_nodes := H', sr_pc := (sr_pc s)(k := FS_done NULL)\<rparr>)"
proof -
  let ?pc = "FS_done NULL"
  have nodes: "sr_nodes s = relock H (aio_head # as) N (sr_pc s)" and d: "disjoint_locks N (sr_pc s)"
    using inv by (simp_all add: search_inv_def)
  have l: "mutex_unlock a (sr_nodes s) = Inr (relock H (aio_head # as) N ((sr_pc s)(k := ?pc)))"
    unfolding nodes by (rule relock_unlock [where H = H and pcs = "sr_pc s" and k = k, OF _ assms(2,4,5) d]) (use assms(3,6) in simp_all)
  have "disjoint_locks N ((sr_pc s)(k := ?pc))" by (rule disjoint_locks_shrink [OF d]) simp
  with l inv assms(7) show ?thesis by (simp add: search_inv_def)
qed

lemma with_opener_sel [simp]:
  "sr_nodes (with_opener x N w) = sr_nodes (ow_search w)"
  "sr_pc (with_opener x N w) = (sr_pc (ow_search w))(N := op_ghost x (ow_pc w))"
  by (simp_all add: with_opener_def)

lemma with_opener_goto:
  "with_opener x N (w\<lparr>ow_search := (ow_search w)\<lparr>sr_nodes := H\<rparr>, ow_pc := pc\<rparr>) =
    (with_opener x N w)\<lparr>sr_nodes := H, sr_pc := (sr_pc (with_opener x N w))(N := op_ghost x pc)\<rparr>"
  by (simp add: with_opener_def)

lemma with_opener_pc:
  assumes "op_ghost x pc = op_ghost x (ow_pc w)"
  shows "with_opener x N (w\<lparr>ow_pc := pc\<rparr>) = with_opener x N w"
    and "(with_opener x N w)\<lparr>sr_nodes := H, sr_pc := (sr_pc (with_opener x N w))(N := op_ghost x pc)\<rparr> =
      (with_opener x N w)\<lparr>sr_nodes := H\<rparr>"
  using assms by (simp_all add: with_opener_def)

lemma open_rank_eq:
  "open_rank x as N w = (\<Sum>k<N. fs_rank (aio_head # as @ [oa_conn x]) (sr_pc (ow_search w) k)) +
    (if ow_pc w = OP_fill \<or> ow_pc w = OP_unlock then 1 else 0) + 2 * op_rank (aio_head # as) (ow_pc w)"
  by (simp add: open_rank_def search_rank_def op_ghost_def)

lemma open_walk_moves:
  assumes set: "open_setting x H as N ty fd" and inv: "open_inv x H as N ty fd w" and pc: "ow_pc w = OP_walk it"
    and st: "open_step x w = Some w'"
  shows "open_inv x H as N ty fd w' \<and> open_rank x as N w' < open_rank x as N w"
proof -
  let ?L = "aio_head # as"
  have ls: "aio_list H as" using set by (simp add: open_setting_def)
  have i: "search_inv H as (Suc N) (not_pass x H ty fd) (results x H as N ty fd) (with_opener x N w)"
    and it: "it \<in> set ?L"
    using inv pc by (simp_all add: open_inv_def op_ok_def stage_def stage_list_def)
  from it obtain i where i': "i < length ?L" "it = ?L ! i" by (metis in_set_conv_nth)
  from search_list [OF ls, of i] i' obtain n where n: "H it = Some n" "it \<noteq> NULL"
    "aio_next n = (if i < length as then ?L ! Suc i else NULL)" by auto
  have nodes: "sr_nodes (ow_search w) = relock H ?L (Suc N) (sr_pc (with_opener x N w))"
    using i unfolding search_inv_def by simp
  have "deref (sr_nodes (ow_search w)) it = Inr (n\<lparr>aio_locked := held_by (Suc N) (sr_pc (with_opener x N w)) it\<rparr>)"
    using relock_node [where H = H, OF it n(1)] n(2) unfolding nodes deref_def by simp
  then have w': "w' = w\<lparr>ow_pc := if aio_next n = NULL then OP_create it else OP_walk (aio_next n)\<rparr>"
    using st pc by (auto simp: open_step_def)
  have same: "with_opener x N w' = with_opener x N w" unfolding w' by (rule with_opener_pc) (simp add: pc op_ghost_def)
  note pos = pos_of_nth [OF search_distinct [OF ls]]
  show ?thesis
  proof (cases "i < length as")
    case True
    with search_list [OF ls, of "Suc i"] n(3) have "aio_next n \<noteq> NULL" "aio_next n = ?L ! Suc i" by auto
    moreover have p: "pos_of ?L (?L ! Suc i) = Suc i" using True by (intro pos) simp
    moreover have q: "pos_of ?L it = i" unfolding i'(2) using i'(1) by (rule pos)
    moreover have "?L ! Suc i \<in> set ?L" using True by simp
    ultimately have pc': "ow_pc w' = OP_walk (?L ! Suc i)" by (simp add: w')
    have "open_inv x H as N ty fd w'"
      unfolding open_inv_def same using pc' i \<open>?L ! Suc i \<in> set ?L\<close> by (simp add: op_ok_def stage_def stage_list_def)
    moreover have "op_rank ?L (ow_pc w') < op_rank ?L (ow_pc w)"
      using True p q by (simp add: pc pc')
    ultimately show ?thesis by (simp add: open_rank_def same)
  next
    case False
    with i' have "i = length as" by simp
    then have "aio_next n = NULL" "it = last ?L" using n(3) i' by (simp_all add: last_conv_nth)
    then have pc': "ow_pc w' = OP_create (last ?L)" by (simp add: w')
    have "open_inv x H as N ty fd w'"
      unfolding open_inv_def same using pc' i by (simp add: op_ok_def stage_def stage_list_def)
    moreover have "op_rank ?L (ow_pc w') < op_rank ?L (ow_pc w)" using pc pc' by simp
    ultimately show ?thesis by (simp add: open_rank_def same)
  qed
qed

lemma open_step_moves:
  assumes set: "open_setting x H as N ty fd" and inv: "open_inv x H as N ty fd w" and st: "open_step x w = Some w'"
  shows "open_inv x H as N ty fd w' \<and> open_rank x as N w' < open_rank x as N w"
proof -
  let ?a = "oa_conn x" and ?L = "aio_head # as" and ?s = "with_opener x N w"
  have ls: "aio_list H as" "?a \<notin> set ?L" "?a \<noteq> NULL" using set by (simp_all add: open_setting_def)
  let ?S = "\<lambda>pc s. search_inv (stage x H as pc) (stage_list x as pc) (Suc N) (not_pass x H ty fd) (results x H as N ty fd) s"
  have i: "?S (ow_pc w) ?s" and ok: "op_ok as (ow_pc w)" using inv by (simp_all add: open_inv_def)
  have r: "?a \<in> results x H as N ty fd N" "NULL \<in> results x H as N ty fd N" by (simp_all add: results_def)
  have goto: ?thesis
    if "w' = w\<lparr>ow_search := (ow_search w)\<lparr>sr_nodes := H'\<rparr>, ow_pc := pc\<rparr>" "op_ok as pc"
      "?S pc (?s\<lparr>sr_nodes := H', sr_pc := (sr_pc ?s)(N := op_ghost x pc)\<rparr>)"
      "op_rank ?L pc < op_rank ?L (ow_pc w)" "ow_pc w \<noteq> OP_lock \<or> pc = OP_fill" for H' pc
  proof -
    have "open_rank x as N w' < open_rank x as N w" using that(1,4,5) by (auto simp: open_rank_eq)
    then show ?thesis using that(1-3) by (simp add: open_inv_def with_opener_goto)
  qed
  show ?thesis
  proof (cases "ow_pc w")
    case (OP_walk it)
    then show ?thesis by (rule open_walk_moves [OF set inv _ st])
  next
    case (OP_create it)
    then have "search_inv H as (Suc N) (not_pass x H ty fd) (results x H as N ty fd) ?s" "it = last ?L"
      using i ok by (simp_all add: stage_def stage_list_def op_ok_def)
    from search_inv_link [OF this(1) ls(1,2), of "created x"] obtain H' where
      H': "update_at ((sr_nodes ?s)(?a \<mapsto> created x)) it (aio_next_update (\<lambda>_. ?a)) = Inr H'"
      "search_inv (linked H as ?a (created x)) (as @ [?a]) (Suc N) (not_pass x H ty fd) (results x H as N ty fd) (?s\<lparr>sr_nodes := H'\<rparr>)"
      using \<open>it = last ?L\<close> by auto
    have g: "op_ghost x OP_lock = op_ghost x (ow_pc w)" by (simp add: OP_create op_ghost_def)
    show ?thesis
      by (rule goto [where H' = H' and pc = OP_lock])
        (use st OP_create H' in \<open>simp_all add: open_step_def goto_with_def op_ok_def stage_def stage_list_def
           with_opener_pc(2) [OF g] del: with_opener_sel(2)\<close>)
  next
    case OP_lock
    then have i': "search_inv (linked H as ?a (created x)) (as @ [?a]) (Suc N) (not_pass x H ty fd) (results x H as N ty fd) ?s"
      using i by (simp add: stage_def stage_list_def)
    from st OP_lock obtain c where c: "mutex_lock ?a (sr_nodes ?s) = Some c" "w' = goto_with c OP_fill w"
      by (auto simp: open_step_def Let_def)
    have d: "sr_pc ?s N = FS_done NULL" by (simp add: OP_lock op_ghost_def)
    from search_inv_take [OF i' linked_at _ ls(3) _ d r(1) c(1)] obtain H' where
      H': "c = Inr H'" "search_inv (linked H as ?a (created x)) (as @ [?a]) (Suc N) (not_pass x H ty fd) (results x H as N ty fd)
        (?s\<lparr>sr_nodes := H', sr_pc := (sr_pc ?s)(N := FS_unlock_found ?a)\<rparr>)" by auto
    show ?thesis
      by (rule goto [where H' = H' and pc = OP_fill])
        (use OP_lock c H' in \<open>simp_all add: goto_with_def op_ok_def stage_def stage_list_def op_ghost_def\<close>)
  next
    case OP_fill
    then have i': "search_inv (linked H as ?a (created x)) (as @ [?a]) (Suc N) (not_pass x H ty fd) (results x H as N ty fd) ?s"
      using i by (simp add: stage_def stage_list_def)
    have "with_socket x ((created x)\<lparr>aio_locked := b\<rparr>) = (with_socket x (created x))\<lparr>aio_locked := b\<rparr>" for b
      by (simp add: with_socket_def)
    from search_inv_change [where f = "with_socket x", OF i' ls(3,2) this] obtain H' where
      H': "update_at (sr_nodes ?s) ?a (with_socket x) = Inr H'"
      "search_inv (linked H as ?a (with_socket x (created x))) (as @ [?a]) (Suc N) (not_pass x H ty fd) (results x H as N ty fd)
        (?s\<lparr>sr_nodes := H'\<rparr>)" by auto
    have g: "op_ghost x OP_unlock = op_ghost x (ow_pc w)" by (simp add: OP_fill op_ghost_def)
    show ?thesis
      by (rule goto [where H' = H' and pc = OP_unlock])
        (use st OP_fill H' in \<open>simp_all add: open_step_def goto_with_def op_ok_def stage_def stage_list_def
           with_opener_pc(2) [OF g] del: with_opener_sel(2)\<close>)
  next
    case OP_unlock
    then have i': "search_inv (linked H as ?a (with_socket x (created x))) (as @ [?a]) (Suc N) (not_pass x H ty fd)
        (results x H as N ty fd) ?s"
      using i by (simp add: stage_def stage_list_def)
    have d: "sr_pc ?s N = FS_unlock_found ?a" by (simp add: OP_unlock op_ghost_def)
    from search_inv_release [OF i' linked_at _ ls(3) _ d r(2)] obtain H' where
      H': "mutex_unlock ?a (sr_nodes ?s) = Inr H'" "search_inv (linked H as ?a (with_socket x (created x))) (as @ [?a]) (Suc N)
        (not_pass x H ty fd) (results x H as N ty fd) (?s\<lparr>sr_nodes := H', sr_pc := (sr_pc ?s)(N := FS_done NULL)\<rparr>)" by auto
    show ?thesis
      by (rule goto [where H' = H' and pc = OP_done])
        (use st OP_unlock H' in \<open>simp_all add: open_step_def goto_with_def op_ok_def stage_def stage_list_def op_ghost_def\<close>)
  qed (use st ok in \<open>simp_all add: open_step_def op_ok_def\<close>)
qed

text \<open>Some thread can step until all have ended: only the lock of the new connection can make the opener wait.\<close>

lemma open_search_ready:
  assumes set: "open_setting x H as N ty fd" and inv: "open_inv x H as N ty fd w"
    and ghost: "op_ghost x (ow_pc w) = FS_done NULL" and run: "\<not> search_ended N (ow_search w)"
  shows "\<exists>k s. k < N \<and> find_step (ty k) (fd k) k (ow_search w) = Some s"
proof -
  have ls: "aio_list H as" "oa_conn x \<notin> set (aio_head # as)" "oa_conn x \<noteq> NULL"
    using set by (simp_all add: open_setting_def)
  have i: "search_inv (stage x H as (ow_pc w)) (stage_list x as (ow_pc w)) (Suc N) (not_pass x H ty fd)
      (results x H as N ty fd) (with_opener x N w)"
    using inv by (simp add: open_inv_def)
  have "\<not> search_ended (Suc N) (with_opener x N w)" using run by (auto simp: search_ended_def)
  from search_progress [OF stage_aio_list [OF ls] i this, of ty fd] obtain k t where
    k: "k < Suc N" "find_step (ty k) (fd k) k (with_opener x N w) = Some t"
    by (auto elim: search_step.cases)
  then have "k \<noteq> N" using ghost by (auto simp: find_step_def)
  with k(1) have "k < N" by simp
  with k find_step_ghost [of k N "ty k" "fd k" "ow_search w"] show ?thesis
    by (auto simp: with_opener_def)
qed

lemma open_lock_free:
  assumes set: "open_setting x H as N ty fd" and inv: "open_inv x H as N ty fd w" and pc: "ow_pc w = OP_lock"
    and "search_ended N (ow_search w)"
  shows "\<exists>w'. open_step x w = Some w'"
proof -
  let ?a = "oa_conn x" and ?s = "with_opener x N w"
  have "sr_nodes ?s = relock (linked H as ?a (created x)) (aio_head # as @ [?a]) (Suc N) (sr_pc ?s)"
    using inv pc by (simp add: open_inv_def search_inv_def stage_def stage_list_def)
  moreover have "\<not> held_by (Suc N) (sr_pc ?s) ?a"
    using assms(4) pc by (auto simp: held_by_def search_ended_def op_ghost_def less_Suc_eq)
  ultimately have "sr_nodes (ow_search w) ?a = Some ((created x)\<lparr>aio_locked := False\<rparr>)"
    by (simp add: relock_node [OF _ linked_at])
  moreover have "?a \<noteq> NULL" using set by (simp add: open_setting_def)
  ultimately show ?thesis using pc by (simp add: open_step_def mutex_lock_def Let_def)
qed

lemma open_progress:
  assumes set: "open_setting x H as N ty fd" and inv: "open_inv x H as N ty fd w" and run: "\<not> open_ended N w"
  shows "\<exists>t. open_search_step x N ty fd w t"
proof (cases "op_ghost x (ow_pc w) = FS_done NULL \<and> \<not> search_ended N (ow_search w)")
  case True
  with open_search_ready [OF set inv] show ?thesis by (blast intro: os_search)
next
  case False
  have "\<exists>w'. open_step x w = Some w'"
  proof (cases "ow_pc w")
    case OP_lock
    then show ?thesis using False by (intro open_lock_free [OF set inv]) (auto simp: op_ghost_def)
  qed (use False run inv in \<open>auto simp: open_step_def open_inv_def op_ok_def open_ended_def op_ghost_def Let_def\<close>)
  then show ?thesis by (blast intro: os_open)
qed

lemma open_thread_program:
  assumes "open_setting x H as N ty fd"
  shows "thread_program (open_init H) (open_search_step x N ty fd) (\<lambda>_ _. False) (open_inv x H as N ty fd)
    (open_rank x as N) (open_ended N)"
proof (rule thread_program.intro)
  have step: "open_inv x H as N ty fd t \<and> open_rank x as N t < open_rank x as N w"
    if "open_inv x H as N ty fd w" "open_search_step x N ty fd w t" for w t
    using that(2)
  proof cases
    case (os_search k s)
    then show ?thesis using open_search_moves [OF assms that(1)] by simp
  next
    case os_open
    then show ?thesis using open_step_moves [OF assms that(1)] by simp
  qed
  then show "open_inv x H as N ty fd w \<Longrightarrow> open_search_step x N ty fd w t \<Longrightarrow> open_inv x H as N ty fd t"
    and "open_inv x H as N ty fd w \<Longrightarrow> open_search_step x N ty fd w t \<Longrightarrow> open_rank x as N t < open_rank x as N w" for w t
    by simp_all
qed (use open_inv_init [OF assms] open_progress [OF assms] in simp_all)

text \<open>Every run is bounded.\<close>

lemma open_rank_bound: "open_rank x as N w \<le> N * (4 * length as + 12) + 2 * length as + 13"
proof -
  have "fs_rank (aio_head # as @ [oa_conn x]) pc \<le> 4 * length as + 12" for pc by (cases pc) auto
  then have "(\<Sum>k<N. fs_rank (aio_head # as @ [oa_conn x]) (sr_pc (ow_search w) k)) \<le> of_nat (card {..<N}) * (4 * length as + 12)"
    by (intro sum_bounded_above) simp
  moreover have "(if ow_pc w = OP_fill \<or> ow_pc w = OP_unlock then 1 else 0) + 2 * op_rank (aio_head # as) (ow_pc w)
      \<le> 2 * length as + (13::nat)"
    by (cases "ow_pc w") auto
  ultimately show ?thesis by (simp add: open_rank_eq)
qed

text \<open>At its end.\<close>

lemma open_final:
  assumes set: "open_setting x H as N ty fd" and inv: "open_inv x H as N ty fd w" and e: "open_ended N w"
  shows "sr_nodes (ow_search w) = linked H as (oa_conn x) (with_socket x (created x))"
    and "k < N \<Longrightarrow> \<exists>r\<in>before_after x H as (ty k) (fd k). sr_pc (ow_search w) k = FS_done r"
proof -
  let ?H = "linked H as (oa_conn x) (with_socket x (created x))" and ?L = "aio_head # as @ [oa_conn x]"
  have i: "search_inv ?H (as @ [oa_conn x]) (Suc N) (not_pass x H ty fd) (results x H as N ty fd) (with_opener x N w)"
    using inv e by (simp add: open_inv_def open_ended_def stage_def stage_list_def)
  have free: "all_free ?H ?L" using set by (intro linked_free) (simp_all add: open_setting_def)
  have "\<not> held_by (Suc N) (sr_pc (with_opener x N w)) a" for a
    using e by (auto simp: held_by_def open_ended_def search_ended_def op_ghost_def less_Suc_eq)
  then have "relock ?H ?L (Suc N) (sr_pc (with_opener x N w)) a = ?H a" for a
    using free by (cases "?H a") (auto simp: relock_def all_free_def)
  then show "sr_nodes (ow_search w) = ?H" using i by (auto simp: search_inv_def)
  assume k: "k < N"
  then have "fs_ok ?L (not_pass x H ty fd k) (before_after x H as (ty k) (fd k)) (sr_pc (ow_search w) k)"
    using i by (auto simp: search_inv_def results_def dest: spec [of _ k])
  then show "\<exists>r\<in>before_after x H as (ty k) (fd k). sr_pc (ow_search w) k = FS_done r"
    using e k by (auto simp: open_ended_def search_ended_def)
qed

section \<open>The property\<close>

text \<open>
  C3. Any number of threads may search the connection list while another one opens a UDP socket, although
  the opening walks and extends the list without the locks. Under every schedule, on a list of
  unlocked connections, with a new connection that \<open>calloc\<close> returns outside the list and searches for TCP sockets or
  for UDP sockets other than descriptor 0: no thread faults, no two threads hold the same lock, and
  no search holds that of the new connection while it is filled; every run is bounded and can be brought to its
  end; and there the opening has ended, the list is the old one with the new connection appended and no lock taken,
  and every search has returned what it would have returned alone, before the opening or after it.
\<close>

theorem searches_during_open:
  assumes "aio_list H as" and "all_free H (aio_head # as)"
    and "oa_conn x \<notin> set (aio_head # as)" and "oa_conn x \<noteq> NULL"
    and "\<forall>k<N. ty k = TCP \<or> ty k = UDP \<and> fd k \<noteq> 0"
    and "reaches (open_search_step x N ty fd) (\<lambda>_ _. False) (open_init H) w"
  shows "(\<forall>k<N. \<forall>e. sr_pc (ow_search w) k \<noteq> FS_fault e) \<and> (\<forall>e. ow_pc w \<noteq> OP_fault e) \<and>
    (\<forall>j<N. \<forall>k<N. j \<noteq> k \<longrightarrow> holds (sr_pc (ow_search w) j) \<inter> holds (sr_pc (ow_search w) k) = {}) \<and>
    (ow_pc w = OP_fill \<or> ow_pc w = OP_unlock \<longrightarrow> (\<forall>k<N. oa_conn x \<notin> holds (sr_pc (ow_search w) k))) \<and>
    (\<forall>n t. steps (open_search_step x N ty fd) n w t \<longrightarrow> n \<le> N * (4 * length as + 12) + 2 * length as + 13) \<and>
    (\<exists>n t. steps (open_search_step x N ty fd) n w t \<and> stuck (open_search_step x N ty fd) t) \<and>
    (\<forall>n t. steps (open_search_step x N ty fd) n w t \<longrightarrow> stuck (open_search_step x N ty fd) t \<longrightarrow>
       ow_pc t = OP_done \<and> aio_list (sr_nodes (ow_search t)) (as @ [oa_conn x]) \<and>
       sr_nodes (ow_search t) = linked H as (oa_conn x) (with_socket x (created x)) \<and>
       all_free (sr_nodes (ow_search t)) (aio_head # as @ [oa_conn x]) \<and>
       (\<forall>k<N. \<exists>r\<in>before_after x H as (ty k) (fd k). sr_pc (ow_search t) k = FS_done r))"
proof -
  have set: "open_setting x H as N ty fd" using assms(1-5) by (auto simp: open_setting_def)
  note tp = open_thread_program [OF set]
  note inv = thread_program.reaches_inv [OF tp assms(6)]
  let ?H = "linked H as (oa_conn x) (with_socket x (created x))" and ?s = "with_opener x N w"
  have i: "\<forall>k<Suc N. fs_ok (aio_head # stage_list x as (ow_pc w)) (not_pass x H ty fd k) (results x H as N ty fd k) (sr_pc ?s k)"
    and d: "disjoint_locks (Suc N) (sr_pc ?s)" and ok: "op_ok as (ow_pc w)"
    using inv by (simp_all add: open_inv_def search_inv_def)
  have "sr_pc (ow_search w) k \<noteq> FS_fault e" if "k < N" for k e
    using i that by (auto dest: spec [of _ k])
  moreover have "ow_pc w \<noteq> OP_fault e" for e using ok by (auto simp: op_ok_def)
  moreover have "holds (sr_pc (ow_search w) j) \<inter> holds (sr_pc (ow_search w) k) = {}" if "j < N" "k < N" "j \<noteq> k" for j k
    using disjoint_locksD [OF d, of j k] that by simp
  moreover have "oa_conn x \<notin> holds (sr_pc (ow_search w) k)" if "ow_pc w = OP_fill \<or> ow_pc w = OP_unlock" "k < N" for k
    using disjoint_locksD [OF d, of N k] that by (auto simp: op_ghost_def)
  moreover have "n \<le> N * (4 * length as + 12) + 2 * length as + 13" if "steps (open_search_step x N ty fd) n w t" for n t
    using thread_program.steps_bounded [OF tp assms(6) that] open_rank_bound order_trans by blast
  moreover have "\<exists>n t. steps (open_search_step x N ty fd) n w t \<and> stuck (open_search_step x N ty fd) t"
    using thread_program.runs_to_end [OF tp inv] by blast
  moreover have "aio_list ?H (as @ [oa_conn x])" "all_free ?H (aio_head # as @ [oa_conn x])"
    using linked_list [OF assms(1,3,4)] linked_free [OF assms(1,3,2)] by simp_all
  moreover have "ow_pc t = OP_done \<and> sr_nodes (ow_search t) = ?H \<and>
      (\<forall>k<N. \<exists>r\<in>before_after x H as (ty k) (fd k). sr_pc (ow_search t) k = FS_done r)"
    if "steps (open_search_step x N ty fd) n w t" "stuck (open_search_step x N ty fd) t" for n t
    using thread_program.stuck_ended [OF tp assms(6) that] open_final [OF set] by (auto simp: open_ended_def)
  ultimately show ?thesis by simp
qed

theorem searches_during_open_witness:
  "\<exists>n t. steps (open_search_step \<lparr>oa_conn = 96, oa_buffer = 128, oa_buffer_size = 100, oa_callback = None,
        oa_fd = 4, oa_port = 1111\<rparr> 2 (\<lambda>_. UDP) (\<lambda>k. int k + 3)) n
      (open_init [aio_head \<mapsto> zero_aio\<lparr>aio_next := 64\<rparr>, 64 \<mapsto> zero_aio\<lparr>aio_type := UDP, aio_fd := 3\<rparr>]) t \<and>
    sr_pc (ow_search t) 0 = FS_done 64 \<and> sr_pc (ow_search t) 1 \<in> {FS_done NULL, FS_done 96} \<and>
    aio_list (sr_nodes (ow_search t)) [64, 96]"
proof -
  let ?H = "[aio_head \<mapsto> zero_aio\<lparr>aio_next := 64\<rparr>, 64 \<mapsto> zero_aio\<lparr>aio_type := UDP, aio_fd := 3\<rparr>]"
    and ?x = "\<lparr>oa_conn = 96, oa_buffer = 128, oa_buffer_size = 100, oa_callback = None, oa_fd = 4, oa_port = 1111\<rparr> :: opening_args"
  let ?step = "open_search_step ?x 2 (\<lambda>_. UDP) (\<lambda>k. int k + 3)"
  have l: "aio_list ?H [64]" "all_free ?H [aio_head, 64]" "oa_conn ?x \<notin> set [aio_head, 64]" "oa_conn ?x \<noteq> NULL"
    by (simp_all add: aio_list_def chain_Cons all_free_def zero_aio_def aio_head_def)
  have f: "\<forall>k<2. UDP = TCP \<or> UDP = UDP \<and> int k + 3 \<noteq> 0" by auto
  note all = searches_during_open [OF l f reaches_start]
  from all obtain n t where t: "steps ?step n (open_init ?H) t" "stuck ?step t" by auto
  have r: "aio_list (sr_nodes (ow_search t)) ([64] @ [oa_conn ?x])"
    "\<forall>k<2. \<exists>r\<in>before_after ?x ?H [64] UDP (int k + 3). sr_pc (ow_search t) k = FS_done r"
    using all t by blast+
  have "before_after ?x ?H [64] UDP 3 = {64}" "before_after ?x ?H [64] UDP 4 = {NULL, 96}"
    unfolding before_after_eq [OF l(1,3)] by (auto simp: first_conn_def is_conn_def zero_aio_def aio_head_def)
  then have "sr_pc (ow_search t) 0 = FS_done 64" "sr_pc (ow_search t) 1 \<in> {FS_done NULL, FS_done 96}"
    using r(2) [rule_format, of 0] r(2) [rule_format, of 1] by auto
  with r(1) t(1) show ?thesis by auto
qed

text \<open>A run under a given schedule: \<open>None\<close> is a step of the opener, \<open>Some k\<close> one of the search \<open>k\<close>.\<close>

primrec schedule :: "opening_args \<Rightarrow> (nat \<Rightarrow> aIO_conn_e) \<Rightarrow> (nat \<Rightarrow> int) \<Rightarrow> nat option list \<Rightarrow> open_world \<Rightarrow> open_world option" where
  "schedule x ty fd [] w = Some w"
| "schedule x ty fd (c # cs) w = Option.bind (case c of
       None \<Rightarrow> open_step x w
     | Some k \<Rightarrow> map_option (\<lambda>s. w\<lparr>ow_search := s\<rparr>) (find_step (ty k) (fd k) k (ow_search w))) (schedule x ty fd cs)"

lemma schedule_reaches:
  assumes "reaches (open_search_step x N ty fd) env w\<^sub>0 w" and "schedule x ty fd cs w = Some t"
    and "\<forall>k. Some k \<in> set cs \<longrightarrow> k < N"
  shows "reaches (open_search_step x N ty fd) env w\<^sub>0 t"
  using assms
proof (induction cs arbitrary: w)
  case (Cons c cs)
  then obtain u where u: "schedule x ty fd cs u = Some t" "open_search_step x N ty fd w u"
    by (auto simp: Option.bind_eq_Some_conv intro: open_search_step.intros split: option.splits)
  with Cons.IH [of u] Cons.prems show ?case by (auto intro: reaches_prog)
qed simp

text \<open>
  The hypothesis on descriptor 0 is needed: a search for it that comes between the linking and the lock
  returns the connection that is being opened, which has no socket yet.
\<close>

lemma half_open_found:
  defines "x \<equiv> \<lparr>oa_conn = 96, oa_buffer = 128, oa_buffer_size = 100, oa_callback = None, oa_fd = 4, oa_port = 1111\<rparr>"
  shows "\<exists>w. reaches (open_search_step x 1 (\<lambda>_. UDP) (\<lambda>_. 0)) (\<lambda>_ _. False) (open_init [aio_head \<mapsto> zero_aio]) w \<and>
    sr_pc (ow_search w) 0 = FS_done 96 \<and> ow_pc w = OP_lock"
proof -
  let ?cs = "[None, None, Some 0, Some 0, Some 0, Some 0, Some 0, Some 0]"
  obtain w where w: "schedule x (\<lambda>_. UDP) (\<lambda>_. 0) ?cs (open_init [aio_head \<mapsto> zero_aio]) = Some w"
    "sr_pc (ow_search w) 0 = FS_done 96" "ow_pc w = OP_lock"
    by (simp add: x_def open_step_def open_init_def search_init_def deref_def zero_aio_def aio_head_def goto_with_def
        update_at_def find_step_def after_lock_def after_test_def mutex_lock_def mutex_unlock_def created_def)
  then show ?thesis using schedule_reaches [OF reaches_start w(1)] by auto
qed

end
