(* ===== verification/Async_Interrupt.thy ===== *)
theory Async_Interrupt
  imports Async_Open
begin

text \<open>
  The signal handler of \<open>async_UDP_multithread\<close> when it interrupts \<open>aIOOpenUDPSocket\<close>: it runs on top of the opening,
  which goes on only when the handler has returned. Between the opening's calls of \<open>pthread_mutex_lock\<close> and
  \<open>pthread_mutex_unlock\<close> the new connection, the last of the list, is locked.
\<close>

section \<open>Searching a list whose last connection is locked\<close>

text \<open>A search that comes to the locked connection never returns; one that is satisfied before it does.\<close>

lemma find_loop_last_locked:
  assumes "chain aio_next H p (p # as @ [c])" and "all_free H (p # as)" and "aio_locked (the (H c))"
    and "type = TCP \<or> type = UDP"
  shows "find_loop type fd p (held H p) =
    (if filter (is_conn H type fd) as = [] then None else Some (Inr (first_conn H type fd as, H)))"
  using assms(1,2)
proof (induction as arbitrary: p)
  case Nil
  then obtain n m where "p \<noteq> NULL" "H p = Some n" "aio_next n = c" "c \<noteq> NULL" "H c = Some m"
    by (auto simp: chain_Cons)
  moreover from this have "c \<noteq> p" using chain_notin [OF Nil.prems(1)] by auto
  moreover have "mutex_lock c (held H p) = None"
    using calculation assms(3) by (simp add: mutex_lock_def held_other)
  ultimately show ?case by (subst find_loop.simps) (simp add: held_same)
next
  case (Cons a as)
  then obtain n where n: "p \<noteq> NULL" "H p = Some n" "aio_next n = a" and ch: "chain aio_next H a (a # as @ [c])"
    by (auto simp: chain_Cons)
  obtain m where m: "H a = Some m" "a \<noteq> NULL" using ch by (auto simp: chain_Cons)
  have "a \<noteq> p" using chain_notin [OF Cons.prems(1)] by auto
  moreover have "\<not> aio_locked n" "\<not> aio_locked m" using Cons.prems(2) n m by (auto simp: all_free_def)
  ultimately have "find_loop type fd p (held H p) =
      (if is_conn H type fd a then Some (Inr (a, H)) else find_loop type fd a (held H a))"
    using find_loop_step [of p H n a m type fd] n m assms(4) by simp
  with Cons.IH [OF ch] Cons.prems(2) show ?case by (simp add: all_free_def first_conn_Cons)
qed

lemma findConnection_last_locked:
  assumes "aio_list (aio_nodes s) (as @ [c])" and "all_free (aio_nodes s) (aio_head # as)"
    and "aio_locked (the (aio_nodes s c))" and "type = TCP \<or> type = UDP"
  shows "findConnection type fd s =
    (if filter (is_conn (aio_nodes s) type fd) as = [] then None
     else Some (Inr (first_conn (aio_nodes s) type fd as, s)))"
proof -
  have c: "chain aio_next (aio_nodes s) aio_head (aio_head # as @ [c])" using assms(1) by (simp add: aio_list_def)
  then obtain h where "aio_nodes s aio_head = Some h" "aio_head \<noteq> NULL" by (auto simp: chain_Cons)
  then have "mutex_lock aio_head (aio_nodes s) = Some (Inr (held (aio_nodes s) aio_head))"
    using assms(2) by (intro lock_free) (auto simp: all_free_def)
  then show ?thesis
    using find_loop_last_locked [OF c assms(2-4), of fd] by (simp add: findConnection_def)
qed

lemma first_conn_NULL:
  assumes "aio_list H as"
  shows "first_conn H ty fd as = NULL \<longleftrightarrow> filter (is_conn H ty fd) as = []"
proof -
  have "NULL \<notin> set as" using chain_not_NULL [of aio_next H aio_head "aio_head # as"] assms
    by (auto simp: aio_list_def)
  moreover have "set (filter (is_conn H ty fd) as) \<subseteq> set as" by simp
  ultimately show ?thesis by (cases "filter (is_conn H ty fd) as") (auto simp: first_conn_def)
qed

section \<open>The opening alone\<close>

text \<open>The store at each statement of an opening that no other thread disturbs.\<close>

definition between_locks :: "op_pc \<Rightarrow> bool" where
  "between_locks pc \<longleftrightarrow> pc = OP_fill \<or> pc = OP_unlock"

definition opened_node :: "opening_args \<Rightarrow> op_pc \<Rightarrow> aIO" where
  "opened_node x pc = (if pc = OP_lock \<or> pc = OP_fill then created x else with_socket x (created x))
     \<lparr>aio_locked := between_locks pc\<rparr>"

lemma opened_node_sel [simp]:
  "aio_next (opened_node x pc) = NULL" "aio_type (opened_node x pc) = UDP"
  "aio_locked (opened_node x pc) = between_locks pc"
  "aio_fd (opened_node x pc) = (if pc = OP_lock \<or> pc = OP_fill then 0 else oa_fd x)"
  by (simp_all add: opened_node_def)

lemma linked_free_old:
  assumes "aio_list H as" and "a \<notin> set (aio_head # as)" and "all_free H (aio_head # as)"
  shows "all_free (linked H as a n) (aio_head # as)"
proof -
  let ?n = "n\<lparr>aio_locked := False\<rparr>"
  have "linked H as a n y = linked H as a ?n y" if "y \<in> set (aio_head # as)" for y
    using that assms(2) by (auto simp: linked_def appended_def)
  then show ?thesis using linked_free [OF assms, of ?n] by (auto simp: all_free_def)
qed

lemma lone_nodes:
  assumes "open_setting x H as 0 ty fd" and "open_inv x H as 0 ty fd w"
  shows "sr_nodes (ow_search w) =
    (if is_linked (ow_pc w) then linked H as (oa_conn x) (opened_node x (ow_pc w)) else H)"
proof
  let ?pc = "ow_pc w" and ?a = "oa_conn x"
  let ?L = "aio_head # stage_list x as ?pc" and ?pcs = "(sr_pc (ow_search w))(0 := op_ghost x (ow_pc w))"
  fix y
  have ls: "aio_list H as" "?a \<notin> set (aio_head # as)" and free: "all_free H (aio_head # as)"
    using assms(1) by (auto simp: open_setting_def)
  have nodes: "sr_nodes (ow_search w) = relock (stage x H as ?pc) ?L (Suc 0) ?pcs"
    using assms(2) by (simp add: open_inv_def search_inv_def with_opener_def)
  have hb: "held_by (Suc 0) ?pcs y \<longleftrightarrow> between_locks ?pc \<and> y = ?a"
    by (auto simp: held_by_def with_opener_def op_ghost_def between_locks_def)
  have same: "n\<lparr>aio_locked := False\<rparr> = n" if "\<not> aio_locked n" for n using that by simp
  show "sr_nodes (ow_search w) y = (if is_linked ?pc then linked H as ?a (opened_node x ?pc) else H) y"
  proof (cases "is_linked ?pc")
    case False
    then have "\<not> between_locks ?pc" by (auto simp: between_locks_def)
    with False free same show ?thesis
      by (cases "H y") (auto simp: nodes relock_def hb stage_def stage_list_def all_free_def)
  next
    case True
    let ?n = "(opened_node x ?pc)\<lparr>aio_locked := False\<rparr>"
    have n: "?n = (if ?pc = OP_lock \<or> ?pc = OP_fill then created x else with_socket x (created x))"
      by (simp add: opened_node_def same)
    have st: "stage x H as ?pc = linked H as ?a ?n" using True by (simp add: stage_def n)
    have L: "?L = aio_head # as @ [?a]" using True by (simp add: stage_list_def)
    show ?thesis
    proof (cases "y = ?a")
      case True
      with L hb st \<open>is_linked ?pc\<close> show ?thesis by (simp add: nodes relock_def linked_at opened_node_def)
    next
      case False
      then have "linked H as ?a (opened_node x ?pc) y = linked H as ?a ?n y"
        by (auto simp: linked_def appended_def)
      moreover have "\<not> aio_locked m" if "linked H as ?a ?n y = Some m" "y \<in> set ?L" for m
        using linked_free_old [OF ls free, of ?n] that False L by (force simp: all_free_def)
      ultimately show ?thesis using False hb st \<open>is_linked ?pc\<close> same
        by (cases "linked H as ?a ?n y") (auto simp: nodes relock_def)
    qed
  qed
qed

section \<open>The search of the handler\<close>

lemma search_during_opening:
  assumes set: "open_setting x H as 0 ty ad" and inv: "open_inv x H as 0 ty ad w"
    and s: "aio_nodes s = sr_nodes (ow_search w)" and fd: "fd \<noteq> 0"
  shows "findConnection UDP fd s =
    (if first_conn H UDP fd as \<noteq> NULL then Some (Inr (first_conn H UDP fd as, s))
     else if between_locks (ow_pc w) then None
     else Some (Inr (if ow_pc w = OP_done \<and> fd = oa_fd x then oa_conn x else NULL, s)))"
proof -
  let ?pc = "ow_pc w" and ?a = "oa_conn x"
  let ?n = "opened_node x ?pc"
  have ls: "aio_list H as" "?a \<notin> set (aio_head # as)" "?a \<noteq> NULL" and free: "all_free H (aio_head # as)"
    using set by (auto simp: open_setting_def)
  have ok: "op_ok as ?pc" using inv by (simp add: open_inv_def)
  show ?thesis
  proof (cases "is_linked ?pc")
    case False
    then have "aio_nodes s = H" "\<not> between_locks ?pc" "?pc \<noteq> OP_done"
      using lone_nodes [OF set inv] s by (auto simp: between_locks_def)
    with findConnection_result [of s as UDP fd] ls free show ?thesis by simp
  next
    case True
    then have H: "aio_nodes s = linked H as ?a ?n" using lone_nodes [OF set inv] s by simp
    have l: "aio_list (aio_nodes s) (as @ [?a])" using linked_list [OF ls, of ?n] H by simp
    have old: "filter (is_conn (aio_nodes s) UDP fd) as = filter (is_conn H UDP fd) as"
      using linked_conn [OF ls(1,2)] H by (intro filter_cong) auto
    show ?thesis
    proof (cases "between_locks ?pc")
      case True
      have "findConnection UDP fd s = (if filter (is_conn (aio_nodes s) UDP fd) as = [] then None
          else Some (Inr (first_conn (aio_nodes s) UDP fd as, s)))"
        by (rule findConnection_last_locked [OF l])
          (use H True linked_free_old [OF ls(1,2) free] in \<open>simp_all add: linked_at\<close>)
      then show ?thesis
        using True old first_conn_NULL [OF ls(1), of UDP fd] by (simp add: first_conn_def)
    next
      case False
      then have dn: "?pc = OP_lock \<or> ?pc = OP_done"
        using True ok by (cases ?pc) (auto simp: between_locks_def op_ok_def)
      have "all_free (aio_nodes s) (aio_head # as @ [?a])"
        using linked_free [OF ls(1,2) free, of ?n] False H by simp
      from findConnection_result [OF l this, of UDP fd] first_conn_linked [OF ls(1,2), of ?n UDP fd] H False dn fd
      show ?thesis by auto
    qed
  qed
qed

lemma earlier_free:
  assumes set: "open_setting x H as 0 ty ad" and inv: "open_inv x H as 0 ty ad w"
    and s: "aio_nodes s = sr_nodes (ow_search w)" and "first_conn H UDP fd as \<noteq> NULL"
  shows "mutex_lock (first_conn H UDP fd as) (aio_nodes s) \<noteq> None"
proof -
  let ?e = "first_conn H UDP fd as"
  have ls: "aio_list H as" "oa_conn x \<notin> set (aio_head # as)" and free: "all_free H (aio_head # as)"
    using set by (auto simp: open_setting_def)
  obtain ys where "filter (is_conn H UDP fd) as = ?e # ys"
    using assms(4) by (cases "filter (is_conn H UDP fd) as") (auto simp: first_conn_def)
  then have "?e \<in> set (filter (is_conn H UDP fd) as)" by simp
  then have e: "?e \<in> set as" by simp
  then have "\<not> aio_locked (the (aio_nodes s ?e))"
    using lone_nodes [OF set inv] s free linked_free_old [OF ls free] by (auto simp: all_free_def)
  moreover have "mutex_lock ?e (aio_nodes s) = None \<Longrightarrow> \<exists>n. aio_nodes s ?e = Some n \<and> aio_locked n"
    by (auto simp: mutex_lock_def deref_def split: sum.splits if_splits option.splits)
  ultimately show ?thesis by (metis option.sel)
qed

text \<open>Every opening passes the two statements between which the connection is locked.\<close>

lemma goto_with_pc: "ow_pc (goto_with m pc w) = (case m of Inl e \<Rightarrow> OP_fault e | Inr _ \<Rightarrow> pc)"
  by (simp add: goto_with_def split: sum.split)

lemma open_step_pc:
  assumes "open_step x t = Some u"
  shows "ow_pc u = OP_unlock \<Longrightarrow> ow_pc t = OP_fill" and "ow_pc u = OP_done \<Longrightarrow> ow_pc t = OP_unlock"
  using assms
  by (cases "ow_pc t"; auto simp: open_step_def Let_def goto_with_pc split: sum.splits if_splits)+

lemma passed_locks:
  assumes "reaches (open_search_step x 0 ty ad) (\<lambda>_ _. False) (open_init H) t"
  shows "(ow_pc t \<in> {OP_unlock, OP_done} \<longrightarrow>
      (\<exists>u. reaches (open_search_step x 0 ty ad) (\<lambda>_ _. False) (open_init H) u \<and> ow_pc u = OP_fill)) \<and>
    (ow_pc t = OP_done \<longrightarrow>
      (\<exists>u. reaches (open_search_step x 0 ty ad) (\<lambda>_ _. False) (open_init H) u \<and> ow_pc u = OP_unlock))"
  using assms
proof induction
  case reaches_start
  then show ?case by (simp add: open_init_def)
next
  case (reaches_prog t u)
  from reaches_prog.hyps(2) have st: "open_step x t = Some u" by cases simp_all
  show ?case
    using open_step_pc [OF st] reaches_prog.IH reaches_prog.hyps(1) by blast
qed simp

lemma opening_ends:
  assumes "open_setting x H as 0 ty ad"
  shows "\<exists>t. reaches (open_search_step x 0 ty ad) (\<lambda>_ _. False) (open_init H) t \<and> ow_pc t = OP_done"
proof -
  note tp = open_thread_program [OF assms]
  obtain n t where t: "steps (open_search_step x 0 ty ad) n (open_init H) t" "stuck (open_search_step x 0 ty ad) t"
    using thread_program.runs_to_end [OF tp thread_program.reaches_inv [OF tp reaches_start]] by blast
  from thread_program.stuck_ended [OF tp reaches_start t] have "ow_pc t = OP_done" by (simp add: open_ended_def)
  with steps_reaches [OF t(1) reaches_start] show ?thesis by blast
qed

section \<open>The property\<close>

text \<open>
  C34. A signal (\<open>SIGIO\<close>, its handler installed by this opening or an earlier one) that interrupts
  \<open>aIOOpenUDPSocket\<close> at any of its statements, in a process without other threads. A signal for a socket that is
  already open (whose descriptor an earlier connection has) is found at once, and the lock of its connection is
  free. Any other signal, for the new socket or for one that is not registered, blocks the process for good at
  the statements between the locking of the new connection and its unlocking, which every opening passes: the
  handler waits for a lock that only the interrupted opening would release. Elsewhere its search returns: with the
  new connection when it is open, with NULL before.
\<close>

theorem handler_during_open:
  assumes "aio_list H as" and "all_free H (aio_head # as)" and "oa_conn x \<notin> set (aio_head # as)"
    and "oa_conn x \<noteq> NULL" and "fd \<noteq> 0"
  shows "(\<forall>w s. reaches (open_search_step x 0 ty ad) (\<lambda>_ _. False) (open_init H) w \<longrightarrow>
        aio_nodes s = sr_nodes (ow_search w) \<longrightarrow>
      (let earlier = first_conn H UDP fd as in
       if earlier \<noteq> NULL
       then findConnection UDP fd s = Some (Inr (earlier, s)) \<and> mutex_lock earlier (aio_nodes s) \<noteq> None
       else if ow_pc w = OP_fill \<or> ow_pc w = OP_unlock then aIOUDPSigHandler fd ms s = None
       else findConnection UDP fd s = Some (Inr (if ow_pc w = OP_done \<and> fd = oa_fd x then oa_conn x else NULL, s)))) \<and>
    (\<exists>w. reaches (open_search_step x 0 ty ad) (\<lambda>_ _. False) (open_init H) w \<and> ow_pc w = OP_fill) \<and>
    (\<exists>w. reaches (open_search_step x 0 ty ad) (\<lambda>_ _. False) (open_init H) w \<and> ow_pc w = OP_unlock)"
proof -
  have set: "open_setting x H as 0 ty ad" using assms(1-4) by (simp add: open_setting_def)
  have "let earlier = first_conn H UDP fd as in
       if earlier \<noteq> NULL
       then findConnection UDP fd s = Some (Inr (earlier, s)) \<and> mutex_lock earlier (aio_nodes s) \<noteq> None
       else if ow_pc w = OP_fill \<or> ow_pc w = OP_unlock then aIOUDPSigHandler fd ms s = None
       else findConnection UDP fd s = Some (Inr (if ow_pc w = OP_done \<and> fd = oa_fd x then oa_conn x else NULL, s))"
    if w: "reaches (open_search_step x 0 ty ad) (\<lambda>_ _. False) (open_init H) w"
      and s: "aio_nodes s = sr_nodes (ow_search w)" for w s
  proof -
    have inv: "open_inv x H as 0 ty ad w"
      by (rule thread_program.reaches_inv [OF open_thread_program [OF set] w])
    note f = search_during_opening [OF set inv s assms(5)]
    show ?thesis
    proof (cases "first_conn H UDP fd as = NULL")
      case True
      with f show ?thesis by (auto simp: between_locks_def aIOUDPSigHandler_def)
    next
      case False
      with f have "findConnection UDP fd s = Some (Inr (first_conn H UDP fd as, s))" by simp
      with False earlier_free [OF set inv s False] show ?thesis by simp
    qed
  qed
  with opening_ends [OF set] passed_locks show ?thesis by blast
qed

theorem handler_during_open_witness:
  "\<exists>w :: open_world. ow_pc w = OP_fill \<and>
    aIOUDPSigHandler 4 [''hi''] (aio_zero\<lparr>aio_nodes := sr_nodes (ow_search w)\<rparr>) = None \<and>
    findConnection UDP 3 (aio_zero\<lparr>aio_nodes := sr_nodes (ow_search w)\<rparr>) =
      Some (Inr (64, aio_zero\<lparr>aio_nodes := sr_nodes (ow_search w)\<rparr>))"
proof -
  let ?x = "\<lparr>oa_conn = 96, oa_buffer = 128, oa_buffer_size = 100, oa_callback = None, oa_fd = 4, oa_port = 1111\<rparr>"
  let ?H = "[aio_head \<mapsto> zero_aio\<lparr>aio_next := 64\<rparr>, 64 \<mapsto> zero_aio\<lparr>aio_type := UDP, aio_fd := 3\<rparr>]"
  have l: "aio_list ?H [64]" "all_free ?H (aio_head # [64])" "oa_conn ?x \<notin> set (aio_head # [64])" "oa_conn ?x \<noteq> NULL"
    by (simp_all add: aio_list_def chain_Cons all_free_def zero_aio_def aio_head_def)
  have f: "first_conn ?H UDP 3 [64] = 64" "first_conn ?H UDP 4 [64] = NULL"
    by (simp_all add: first_conn_def is_conn_def)
  have ne: "(3 :: int) \<noteq> 0" "(4 :: int) \<noteq> 0" by simp_all
  note three = handler_during_open [OF l ne(1), of "\<lambda>_. UDP" "\<lambda>_. 0" "[''hi'']"]
    and four = handler_during_open [OF l ne(2), of "\<lambda>_. UDP" "\<lambda>_. 0" "[''hi'']"]
  from four obtain w where w: "reaches (open_search_step ?x 0 (\<lambda>_. UDP) (\<lambda>_. 0)) (\<lambda>_ _. False) (open_init ?H) w"
    "ow_pc w = OP_fill" by blast
  let ?s = "aio_zero\<lparr>aio_nodes := sr_nodes (ow_search w)\<rparr>"
  have s: "aio_nodes ?s = sr_nodes (ow_search w)" by simp
  have "findConnection UDP 3 ?s = Some (Inr (64, ?s))"
    using conjunct1 [OF three, rule_format, OF w(1) s] unfolding Let_def f(1) by simp
  moreover have "aIOUDPSigHandler 4 [''hi''] ?s = None"
    using conjunct1 [OF four, rule_format, OF w(1) s] w(2) unfolding Let_def f(2) by simp
  ultimately show ?thesis using w(2) by blast
qed

end
