(* ===== verification/Async_Deinit.thy ===== *)
theory Async_Deinit
  imports Async_Program Thread_Runs
begin

text \<open>
  The handler for \<open>SIGQUIT\<close> of \<open>async_UDP_multithread\<close>, statement by statement. It is installed with an empty
  mask, so \<open>SIGIO\<close> can interrupt it anywhere, and \<open>aIOUDPSigHandler\<close> then runs on a list that is being freed.
\<close>

section \<open>The program\<close>

text \<open>The next statement of \<open>aIODeinit\<close>, with \<open>del\<close> and \<open>iterator\<close>.\<close>

datatype deinit_pc =
    DI_start
  | DI_test addr
  | DI_free_buffer addr addr
  | DI_close addr addr
  | DI_free addr addr
  | DI_exit int
  | DI_fault c_fault

definition deinit_step :: "(int \<Rightarrow> int) \<Rightarrow> deinit_pc \<times> aio_state \<Rightarrow> (deinit_pc \<times> aio_state) option" where
  "deinit_step close_ret = (\<lambda>(pc, s).
     let with = (\<lambda>p f. Some (case deref (aio_nodes s) p of Inl e \<Rightarrow> (DI_fault e, s) | Inr n \<Rightarrow> f n)) in
     case pc of
       DI_start \<Rightarrow> with aio_head (\<lambda>h. (DI_test (aio_next h), s))
     | DI_test it \<Rightarrow>
         if it = NULL then Some (DI_exit 0, s)
         else with it (\<lambda>n. (if aio_type n = UDP \<or> aio_type n = TCP then DI_free_buffer it (aio_next n)
                           else DI_test (aio_next n), s))
     | DI_free_buffer del it \<Rightarrow> with del (\<lambda>n. (DI_close del it, s\<lparr>aio_bufs := (aio_bufs s)(aio_buffer n := None)\<rparr>))
     | DI_close del it \<Rightarrow> with del (\<lambda>n. if close_ret (aio_fd n) \<noteq> 0 then (DI_exit (- 1), s)
                           else (DI_free del it, s\<lparr>aio_closed := aio_closed s @ [aio_fd n]\<rparr>))
     | DI_free del it \<Rightarrow> with del (\<lambda>_. (DI_test it, s\<lparr>aio_nodes := (aio_nodes s)(del := None)\<rparr>))
     | DI_exit _ \<Rightarrow> None
     | DI_fault _ \<Rightarrow> None)"

inductive deinit_moves :: "(int \<Rightarrow> int) \<Rightarrow> deinit_pc \<times> aio_state \<Rightarrow> deinit_pc \<times> aio_state \<Rightarrow> bool" for close_ret where
  "deinit_step close_ret w = Some w' \<Longrightarrow> deinit_moves close_ret w w'"

text \<open>
  A signal for descriptor \<open>fd\<close>, with the datagrams \<open>ms\<close> waiting; its handler runs to its end on top of the
  interrupted one.
\<close>

inductive sigio :: "deinit_pc \<times> aio_state \<Rightarrow> deinit_pc \<times> aio_state \<Rightarrow> bool" where
  sigio_handled: "aIOUDPSigHandler fd ms s = Some (Inr s') \<Longrightarrow> sigio (pc, s) (pc, s')"

inductive_cases deinit_movesE: "deinit_moves close_ret w w'"
inductive_cases sigioE: "sigio (pc, s) w'"

section \<open>What the signal handler leaves alone\<close>

lemma datagram_loop_frame:
  assumes "datagram_loop p c ms s = Inr s'"
  shows "aio_nodes s' = aio_nodes s \<and> aio_closed s' = aio_closed s \<and> dom (aio_bufs s') = dom (aio_bufs s)"
  using assms
proof (induction p c ms s rule: datagram_loop.induct)
  case (2 p c m ms s)
  show ?case
  proof (cases "take (aio_buffer_size c) m = []")
    case True
    then show ?thesis using 2(2) by simp
  next
    case False
    with 2(2) obtain buf buf1 buf2 n f where b: "aio_bufs s (aio_buffer c) = Some buf" and cb: "aio_callback c = Some f"
      and rest: "datagram_loop p c ms (s\<lparr>aio_bufs := (aio_bufs s)(aio_buffer c \<mapsto> buf2),
        aio_calls := aio_calls s @ [(f, length (take (aio_buffer_size c) m), take n buf2)]\<rparr>) = Inr s'"
      by (auto simp: Let_def cbind_Inr_iff deref_def simp del: length_take take_eq_Nil split: if_splits option.splits)
    from b have "dom ((aio_bufs s)(aio_buffer c \<mapsto> buf2)) = dom (aio_bufs s)" by (auto split: if_splits)
    with 2(1) [OF refl refl _ cb rest] False show ?thesis by (simp del: length_take take_eq_Nil fun_upd_apply)
  qed
qed simp

lemma handler_frame:
  assumes "aio_list (aio_nodes s) as" and "all_free (aio_nodes s) (aio_head # as)"
    and "aIOUDPSigHandler fd ms s = Some (Inr s')"
  shows "aio_nodes s' = aio_nodes s \<and> aio_closed s' = aio_closed s \<and> dom (aio_bufs s') = dom (aio_bufs s)"
proof -
  let ?p = "first_conn (aio_nodes s) UDP fd as"
  have f: "findConnection UDP fd s = Some (Inr (?p, s))" using findConnection_result [OF assms(1,2)] by simp
  from assms(3) obtain n where n: "?p \<noteq> NULL" "aio_nodes s ?p = Some n" "\<not> aio_locked n"
    by (auto simp: aIOUDPSigHandler_def f mutex_lock_def deref_def split: if_splits option.splits)
  then have l: "mutex_lock ?p (aio_nodes s) = Some (Inr (held (aio_nodes s) ?p))" by (intro lock_free)
  let ?c = "n\<lparr>aio_locked := True\<rparr>" and ?s = "s\<lparr>aio_nodes := held (aio_nodes s) ?p\<rparr>"
  from assms(3) n l obtain t where t: "datagram_loop ?p ?c ms ?s = Inr t"
    "cbind (mutex_unlock ?p (aio_nodes t)) (\<lambda>H'. Inr (t\<lparr>aio_nodes := H'\<rparr>)) = Inr s'"
    by (auto simp: aIOUDPSigHandler_def f deref_def held_same lbind_Inr_iff)
  note fr = datagram_loop_frame [OF t(1)]
  then have "s' = t\<lparr>aio_nodes := aio_nodes s\<rparr>" using t(2) unlock_held [where H = "aio_nodes s", OF n] by simp
  with fr show ?thesis by simp
qed

section \<open>The invariant\<close>

text \<open>
  The connections \<open>dn\<close> have been freed; \<open>bs\<close> and \<open>cs\<close> are those whose buffer has been freed and whose socket has been
  closed.
\<close>

definition freed :: "aio_state \<Rightarrow> addr list \<Rightarrow> addr list \<Rightarrow> addr list \<Rightarrow> aio_state \<Rightarrow> bool" where
  "freed s dn bs cs t \<longleftrightarrow> aio_nodes t = aio_nodes s |` (- set dn) \<and>
     dom (aio_bufs t) = dom (aio_bufs s) - (\<lambda>x. aio_buffer (the (aio_nodes s x))) ` set bs \<and>
     aio_closed t = aio_closed s @ map (\<lambda>x. aio_fd (the (aio_nodes s x))) cs"

definition first_of :: "addr list \<Rightarrow> addr" where
  "first_of rest = (case rest of [] \<Rightarrow> NULL | a # _ \<Rightarrow> a)"

lemma first_of_simps [simp]: "first_of [] = NULL" "first_of (a # as) = a"
  by (simp_all add: first_of_def)

definition deinit_at :: "aio_state \<Rightarrow> addr list \<Rightarrow> addr list \<Rightarrow> deinit_pc \<Rightarrow> aio_state \<Rightarrow> bool" where
  "deinit_at s dn rest pc t \<longleftrightarrow> (case pc of
       DI_start \<Rightarrow> dn = [] \<and> freed s [] [] [] t
     | DI_test it \<Rightarrow> it = first_of rest \<and> freed s dn dn dn t
     | DI_free_buffer d it \<Rightarrow> rest \<noteq> [] \<and> d = hd rest \<and> it = first_of (tl rest) \<and> freed s dn dn dn t
     | DI_close d it \<Rightarrow> rest \<noteq> [] \<and> d = hd rest \<and> it = first_of (tl rest) \<and> freed s dn (dn @ [d]) dn t
     | DI_free d it \<Rightarrow> rest \<noteq> [] \<and> d = hd rest \<and> it = first_of (tl rest) \<and> freed s dn (dn @ [d]) (dn @ [d]) t
     | DI_exit r \<Rightarrow> r = 0 \<and> rest = [] \<and> freed s dn dn dn t
     | DI_fault e \<Rightarrow> False)"

definition deinit_inv :: "aio_state \<Rightarrow> addr list \<Rightarrow> deinit_pc \<times> aio_state \<Rightarrow> bool" where
  "deinit_inv s as w \<longleftrightarrow> (\<exists>dn rest. as = dn @ rest \<and> deinit_at s dn rest (fst w) (snd w))"

text \<open>How many statements are left.\<close>

definition deinit_rank :: "addr list \<Rightarrow> deinit_pc \<times> aio_state \<Rightarrow> nat" where
  "deinit_rank as w = (let k = \<lambda>it. length (dropWhile (\<lambda>x. x \<noteq> it) as) in case fst w of
       DI_start \<Rightarrow> 4 * length as + 2
     | DI_test it \<Rightarrow> 4 * k it + 1
     | DI_free_buffer d it \<Rightarrow> 4 * k d
     | DI_close d it \<Rightarrow> 4 * k d - 1
     | DI_free d it \<Rightarrow> 4 * k d - 2
     | _ \<Rightarrow> 0)"

definition deinit_ended :: "deinit_pc \<times> aio_state \<Rightarrow> bool" where
  "deinit_ended w \<longleftrightarrow> fst w = DI_exit 0"

text \<open>The hypotheses: a list of unlocked sockets with buffers of their own, and \<open>close\<close> succeeds on each.\<close>

definition deinit_setting :: "(int \<Rightarrow> int) \<Rightarrow> aio_state \<Rightarrow> addr list \<Rightarrow> bool" where
  "deinit_setting close_ret s as \<longleftrightarrow> aio_list (aio_nodes s) as \<and> all_free (aio_nodes s) (aio_head # as) \<and>
     (\<forall>x\<in>set as. aio_type (the (aio_nodes s x)) \<in> {TCP, UDP} \<and> close_ret (aio_fd (the (aio_nodes s x))) = 0)"

lemma setting_node:
  assumes "deinit_setting close_ret s as" and "as = dn @ d # rest"
  obtains n where "aio_nodes s d = Some n" "d \<noteq> NULL" "aio_next n = first_of rest" "d \<notin> set dn" "d \<noteq> aio_head"
    "aio_type n \<in> {TCP, UDP}" "close_ret (aio_fd n) = 0"
proof -
  have c: "chain aio_next (aio_nodes s) aio_head (aio_head # as)" using assms(1) by (simp add: deinit_setting_def aio_list_def)
  have "chain aio_next (aio_nodes s) d (d # rest)"
    by (rule chain_suffix [of _ _ _ "aio_head # dn"]) (use c assms(2) in simp)
  then obtain n where n: "aio_nodes s d = Some n" "d \<noteq> NULL" "chain aio_next (aio_nodes s) (aio_next n) rest"
    by (auto simp: chain_Cons)
  have "aio_next n = first_of rest" using n(3) by (cases rest) (auto simp: chain_Cons)
  moreover have "d \<notin> set dn" "d \<noteq> aio_head" using chain_distinct [OF c] assms(2) by auto
  moreover have "aio_type n \<in> {TCP, UDP}" "close_ret (aio_fd n) = 0"
    using assms n(1) by (auto simp: deinit_setting_def)
  ultimately show thesis using n that by blast
qed

lemma setting_head:
  assumes "deinit_setting close_ret s as"
  obtains h where "aio_nodes s aio_head = Some h" "aio_head \<noteq> NULL" "aio_next h = first_of as" "\<not> aio_locked h" "aio_head \<notin> set as"
proof -
  have c: "chain aio_next (aio_nodes s) aio_head (aio_head # as)" and f: "all_free (aio_nodes s) (aio_head # as)"
    using assms by (simp_all add: deinit_setting_def aio_list_def)
  from c obtain h where h: "aio_nodes s aio_head = Some h" "aio_head \<noteq> NULL" "chain aio_next (aio_nodes s) (aio_next h) as"
    by (auto simp: chain_Cons)
  have "aio_next h = first_of as" using h(3) by (cases as) (auto simp: chain_Cons)
  moreover have "\<not> aio_locked h" using f h(1) by (simp add: all_free_def)
  ultimately show thesis using h chain_notin [OF c] that by blast
qed

lemma position:
  assumes "deinit_setting close_ret s as" and "as = dn @ rest"
  shows "length (dropWhile (\<lambda>x. x \<noteq> first_of rest) as) = length rest"
proof -
  have c: "chain aio_next (aio_nodes s) aio_head (aio_head # as)" using assms(1) by (simp add: deinit_setting_def aio_list_def)
  have "distinct as" "NULL \<notin> set as" using chain_distinct [OF c] chain_not_NULL [OF c] by auto
  then have "first_of rest \<notin> set dn" using assms(2) by (cases rest) auto
  then have "dropWhile (\<lambda>x. x \<noteq> first_of rest) as = dropWhile (\<lambda>x. x \<noteq> first_of rest) rest"
    using assms(2) by (simp add: dropWhile_append2 [of dn] dropWhile_append)
  moreover have "dropWhile (\<lambda>x. x \<noteq> first_of rest) rest = rest" by (cases rest) auto
  ultimately show ?thesis by simp
qed

lemma freed_node: "freed s dn bs cs t \<Longrightarrow> x \<notin> set dn \<Longrightarrow> aio_nodes t x = aio_nodes s x"
  by (simp add: freed_def)

text \<open>One statement.\<close>

lemma deinit_step_moves:
  assumes set: "deinit_setting close_ret s as" and split: "as = dn @ rest" and pc: "deinit_at s dn rest pc t"
    and st: "deinit_step close_ret (pc, t) = Some w"
  shows "deinit_inv s as w \<and> deinit_rank as w < deinit_rank as (pc, t)"
proof -
  have here: "\<exists>n. deref (aio_nodes t) (hd rest) = Inr n \<and> aio_nodes s (hd rest) = Some n \<and>
      aio_next n = first_of (tl rest) \<and> aio_type n \<in> {TCP, UDP} \<and> close_ret (aio_fd n) = 0"
    if "rest \<noteq> []" "freed s dn bs cs t" for bs cs
  proof -
    from that(1) split have "as = dn @ hd rest # tl rest" by simp
    with set obtain n where "aio_nodes s (hd rest) = Some n" "hd rest \<noteq> NULL" "aio_next n = first_of (tl rest)"
      "hd rest \<notin> set dn" "aio_type n \<in> {TCP, UDP}" "close_ret (aio_fd n) = 0" by (rule setting_node)
    then show ?thesis using freed_node [OF that(2)] by (simp add: deref_def)
  qed
  have pos: "length (dropWhile (\<lambda>x. x \<noteq> first_of rest) as) = length rest" by (rule position [OF set split])
  have pos': "length (dropWhile (\<lambda>x. x \<noteq> first_of (tl rest)) as) = length rest - 1" if "rest \<noteq> []"
    using position [OF set, of "dn @ [hd rest]" "tl rest"] that split by simp
  have posd: "length (dropWhile (\<lambda>x. x \<noteq> hd rest) as) = length rest" if "rest \<noteq> []"
    using pos that by (cases rest) simp_all
  have inv: "deinit_inv s as w" if "deinit_at s dn rest (fst w) (snd w)" for w using that split by (auto simp: deinit_inv_def)
  show ?thesis
  proof (cases pc)
    case DI_start
    from set obtain h where h: "aio_nodes s aio_head = Some h" "aio_head \<noteq> NULL" "aio_next h = first_of as" by (rule setting_head)
    have "dn = []" "freed s [] [] [] t" using pc DI_start by (simp_all add: deinit_at_def)
    with h st DI_start have w: "w = (DI_test (first_of rest), t)"
      using split freed_node [of s "[]" "[]" "[]" t aio_head] by (simp add: deinit_step_def deref_def)
    have "deinit_inv s as w" by (rule inv) (simp add: w deinit_at_def \<open>dn = []\<close> \<open>freed s [] [] [] t\<close>)
    then show ?thesis using pos split \<open>dn = []\<close> by (simp add: w DI_start deinit_rank_def)
  next
    case (DI_test it)
    then have it: "it = first_of rest" "freed s dn dn dn t" using pc by (simp_all add: deinit_at_def)
    show ?thesis
    proof (cases "rest = []")
      case True
      then have "w = (DI_exit 0, t)" using st DI_test it by (simp add: deinit_step_def)
      then show ?thesis using True it DI_test by (auto intro!: inv simp: deinit_at_def deinit_rank_def)
    next
      case False
      then have "it = hd rest" using it by (cases rest) simp_all
      with here [OF False it(2)] st DI_test have "w = (DI_free_buffer (hd rest) (first_of (tl rest)), t)"
        by (auto simp: deinit_step_def deref_def split: if_splits)
      then show ?thesis using False it posd \<open>it = hd rest\<close> DI_test by (auto intro!: inv simp: deinit_at_def deinit_rank_def)
    qed
  next
    case (DI_free_buffer d it)
    then have d: "rest \<noteq> []" "d = hd rest" "it = first_of (tl rest)" "freed s dn dn dn t"
      using pc by (auto simp: deinit_at_def)
    from here [OF d(1,4)] obtain n where n: "deref (aio_nodes t) d = Inr n" "aio_nodes s d = Some n" using d(2) by auto
    then have w: "w = (DI_close d it, t\<lparr>aio_bufs := (aio_bufs t)(aio_buffer n := None)\<rparr>)"
      using st DI_free_buffer by (simp add: deinit_step_def)
    have "freed s dn (dn @ [d]) dn (snd w)" using d(4) n(2) w by (auto simp: freed_def)
    then show ?thesis using d w posd DI_free_buffer by (cases rest) (auto intro!: inv simp: deinit_at_def deinit_rank_def)
  next
    case (DI_close d it)
    then have d: "rest \<noteq> []" "d = hd rest" "it = first_of (tl rest)" "freed s dn (dn @ [d]) dn t"
      using pc by (auto simp: deinit_at_def)
    from here [OF d(1,4)] obtain n where n: "deref (aio_nodes t) d = Inr n" "aio_nodes s d = Some n" "close_ret (aio_fd n) = 0"
      using d(2) by auto
    then have w: "w = (DI_free d it, t\<lparr>aio_closed := aio_closed t @ [aio_fd n]\<rparr>)"
      using st DI_close by (simp add: deinit_step_def)
    have "freed s dn (dn @ [d]) (dn @ [d]) (snd w)" using d(4) n(2) w by (simp add: freed_def)
    then show ?thesis using d w posd DI_close by (cases rest) (auto intro!: inv simp: deinit_at_def deinit_rank_def)
  next
    case (DI_free d it)
    then have d: "rest \<noteq> []" "d = hd rest" "it = first_of (tl rest)" "freed s dn (dn @ [d]) (dn @ [d]) t"
      using pc by (auto simp: deinit_at_def)
    from here [OF d(1,4)] obtain n where n: "deref (aio_nodes t) d = Inr n" using d(2) by auto
    then have w: "w = (DI_test it, t\<lparr>aio_nodes := (aio_nodes t)(d := None)\<rparr>)"
      using st DI_free by (simp add: deinit_step_def)
    have "freed s (dn @ [d]) (dn @ [d]) (dn @ [d]) (snd w)" using d(4) w by (auto simp: freed_def restrict_map_def)
    then have "deinit_at s (dn @ [d]) (tl rest) (fst w) (snd w)" using w d(3) by (simp add: deinit_at_def)
    moreover have "as = (dn @ [d]) @ tl rest" using split d(1,2) by simp
    ultimately have "deinit_inv s as w" unfolding deinit_inv_def by blast
    then show ?thesis using d w posd pos' DI_free by (cases rest) (auto simp: deinit_rank_def)
  qed (use pc st in \<open>simp_all add: deinit_at_def deinit_step_def\<close>)
qed

section \<open>A signal in between\<close>

text \<open>The first connection has been freed, and the head still points to it.\<close>

lemma handler_after_free:
  assumes set: "deinit_setting close_ret s as" and a: "as = a # as'" and t: "aio_nodes t = aio_nodes s |` (- set dn)"
    and dn: "a \<in> set dn" "set dn \<subseteq> set as"
  shows "aIOUDPSigHandler fd ms t = Some (Inl Bad_pointer)"
proof -
  from set obtain h where h: "aio_nodes s aio_head = Some h" "aio_head \<noteq> NULL" "aio_next h = first_of as" "\<not> aio_locked h"
    "aio_head \<notin> set as" by (rule setting_head)
  from set have "a \<noteq> NULL" by (rule setting_node [of _ _ _ "[]"]) (use a in auto)
  have "aio_head \<notin> set dn" using h(5) dn(2) by auto
  then have ht: "aio_nodes t aio_head = Some h" using h(1) t by simp
  then have l: "mutex_lock aio_head (aio_nodes t) = Some (Inr (held (aio_nodes t) aio_head))" using h by (intro lock_free)
  have ne: "a \<noteq> aio_head" using h(5) a by auto
  then have "mutex_lock a (held (aio_nodes t) aio_head) = Some (Inl Bad_pointer)"
    using t dn(1) \<open>a \<noteq> NULL\<close> by (simp add: mutex_lock_def deref_def held_other)
  then have "find_loop UDP fd aio_head (held (aio_nodes t) aio_head) = Some (Inl Bad_pointer)"
    using ht h(2,3) a \<open>a \<noteq> NULL\<close> by (subst find_loop.simps) (simp add: deref_def held_same)
  then show ?thesis by (simp add: aIOUDPSigHandler_def findConnection_def l)
qed

text \<open>Only its buffer has been freed.\<close>

lemma handler_freed_buffer:
  assumes set: "deinit_setting close_ret s as" and t: "aio_nodes t = aio_nodes s" and a: "first_conn (aio_nodes s) UDP fd as = a"
    and n: "aio_nodes s a = Some n" "a \<noteq> NULL" "a \<in> set as" and b: "aio_bufs t (aio_buffer n) = None" "aio_buffer n \<noteq> NULL"
    and m: "0 < aio_buffer_size n" "m \<noteq> []"
  shows "aIOUDPSigHandler fd (m # ms) t = Some (Inl Bad_pointer)"
proof -
  have f: "findConnection UDP fd t = Some (Inr (a, t))"
    using findConnection_result [of t as UDP fd] set a t by (simp add: deinit_setting_def)
  have "\<not> aio_locked n" using set n(1,3) by (auto simp: deinit_setting_def all_free_def)
  then have l: "mutex_lock a (aio_nodes s) = Some (Inr (held (aio_nodes s) a))" using n by (intro lock_free) simp_all
  have "take (aio_buffer_size n) m \<noteq> []" using m by simp
  then show ?thesis using n(1) b t n(2)
    by (simp add: aIOUDPSigHandler_def f l t deref_def held_same Let_def del: take_eq_Nil length_take)
qed

lemma deinit_inv_cases:
  assumes "deinit_inv s as (pc, t)"
  obtains dn rest bs cs where "as = dn @ rest" "freed s dn bs cs t" "deinit_at s dn rest pc t"
  using assms by (cases pc) (auto simp: deinit_inv_def deinit_at_def)

lemma freed_same:
  assumes "aio_nodes t' = aio_nodes t" and "aio_closed t' = aio_closed t" and "dom (aio_bufs t') = dom (aio_bufs t)"
  shows "deinit_at s dn rest pc t' = deinit_at s dn rest pc t"
  using assms by (simp add: deinit_at_def freed_def split: deinit_pc.split)

lemma sigio_keeps:
  assumes set: "deinit_setting close_ret s as" and inv: "deinit_inv s as w" and sig: "sigio w w'"
  shows "deinit_inv s as w'"
proof -
  obtain pc t where w: "w = (pc, t)" by (cases w)
  from sig obtain fd ms t' where h: "aIOUDPSigHandler fd ms t = Some (Inr t')" "w' = (pc, t')"
    unfolding w by (auto elim: sigioE)
  from inv obtain dn rest bs cs where i: "as = dn @ rest" "freed s dn bs cs t" "deinit_at s dn rest pc t"
    unfolding w by (rule deinit_inv_cases)
  have nodes: "aio_nodes t = aio_nodes s |` (- set dn)" using i(2) by (simp add: freed_def)
  have "dn = []"
  proof (rule ccontr)
    assume "dn \<noteq> []"
    then have "as = hd dn # (tl dn @ rest)" "hd dn \<in> set dn" "set dn \<subseteq> set as" using i(1) by auto
    then have "aIOUDPSigHandler fd ms t = Some (Inl Bad_pointer)" using nodes by (intro handler_after_free [OF set])
    with h(1) show False by simp
  qed
  with nodes have "aio_nodes t = aio_nodes s" by (simp add: restrict_map_def)
  then have "aio_nodes t' = aio_nodes t \<and> aio_closed t' = aio_closed t \<and> dom (aio_bufs t') = dom (aio_bufs t)"
    using set by (intro handler_frame [OF _ _ h(1), of as]) (simp_all add: deinit_setting_def)
  then have "deinit_at s dn rest pc t'" using i(3) freed_same [of t' t] by simp
  with i(1) h(2) show ?thesis by (auto simp: deinit_inv_def)
qed

lemma deinit_progress:
  assumes "deinit_inv s as w" and "\<not> deinit_ended w"
  shows "\<exists>w'. deinit_moves close_ret w w'"
proof -
  obtain pc t where w: "w = (pc, t)" by (cases w)
  have "\<exists>w'. deinit_step close_ret (pc, t) = Some w'"
    using assms unfolding w by (cases pc) (auto simp: deinit_step_def deinit_inv_def deinit_at_def deinit_ended_def Let_def)
  then show ?thesis by (auto simp: w intro: deinit_moves.intros)
qed

lemma deinit_thread_program:
  assumes "deinit_setting close_ret s as"
  shows "thread_program (DI_start, s) (deinit_moves close_ret) sigio (deinit_inv s as) (deinit_rank as) deinit_ended"
proof (rule thread_program.intro)
  have "freed s [] [] [] s" by (simp add: freed_def restrict_map_def)
  then show "deinit_inv s as (DI_start, s)" by (auto simp: deinit_inv_def deinit_at_def)
  have step: "deinit_inv s as w' \<and> deinit_rank as w' < deinit_rank as w" if "deinit_inv s as w" "deinit_moves close_ret w w'" for w w'
  proof -
    obtain pc t where w: "w = (pc, t)" by (cases w)
    from that(1) obtain dn rest where "as = dn @ rest" "deinit_at s dn rest pc t" by (auto simp: w deinit_inv_def)
    from that(2) show ?thesis unfolding w
      by (rule deinit_movesE) (rule deinit_step_moves [OF assms \<open>as = dn @ rest\<close> \<open>deinit_at s dn rest pc t\<close>])
  qed
  then show "deinit_inv s as w \<Longrightarrow> deinit_moves close_ret w w' \<Longrightarrow> deinit_inv s as w'"
    and "deinit_inv s as w \<Longrightarrow> deinit_moves close_ret w w' \<Longrightarrow> deinit_rank as w' < deinit_rank as w" for w w'
    by simp_all
qed (use sigio_keeps [OF assms] deinit_progress in blast)+

section \<open>The same function in one go\<close>

text \<open>Where the statements lead when \<open>deinit_loop\<close> of \<open>Async_IO\<close> returns \<open>r\<close>.\<close>

fun deinit_outcome :: "aio_state cres \<Rightarrow> deinit_pc" where
  "deinit_outcome (Inr s) = DI_exit 0"
| "deinit_outcome (Inl (Exit_status r)) = DI_exit r"
| "deinit_outcome (Inl e) = DI_fault e"

lemma deref_not_exit: "deref H p = Inl e \<Longrightarrow> deinit_outcome (Inl e) = DI_fault e"
  by (auto simp: deref_def split: if_splits option.splits)

lemma deinit_body_steps:
  assumes ih: "\<And>it s r. rec close_ret it s = Some r \<Longrightarrow>
      \<exists>k t. steps (deinit_moves close_ret) k (DI_test it, s) (deinit_outcome r, t) \<and> (\<forall>s'. r = Inr s' \<longrightarrow> t = s')"
    and body: "(if it = NULL then Some (Inr s)
      else (case deref (aio_nodes s) it of
          Inl e \<Rightarrow> Some (Inl e)
        | Inr n \<Rightarrow>
            if aio_type n = UDP \<or> aio_type n = TCP then
              (if close_ret (aio_fd n) \<noteq> 0 then Some (Inl (Exit_status (- 1)))
               else rec close_ret (aio_next n)
                 (s\<lparr>aio_nodes := (aio_nodes s)(it := None),
                    aio_bufs := (aio_bufs s)(aio_buffer n := None),
                    aio_closed := aio_closed s @ [aio_fd n]\<rparr>))
            else rec close_ret (aio_next n) s)) = Some r"
  shows "\<exists>k t. steps (deinit_moves close_ret) k (DI_test it, s) (deinit_outcome r, t) \<and> (\<forall>s'. r = Inr s' \<longrightarrow> t = s')"
proof -
  let ?m = "deinit_moves close_ret"
  show ?thesis
  proof (cases "it = NULL")
    case True
    then have m: "?m (DI_test it, s) (DI_exit 0, s)" by (simp add: deinit_moves.simps deinit_step_def)
    have "r = Inr s" using body True by simp
    then show ?thesis using steps_more [where prog = ?m, OF m steps_none [of ?m]] by auto
  next
    case it: False
    show ?thesis
    proof (cases "deref (aio_nodes s) it")
      case (Inl e)
      then have m: "?m (DI_test it, s) (DI_fault e, s)" using it by (simp add: deinit_moves.simps deinit_step_def)
      have "r = Inl e" using body it Inl by simp
      then show ?thesis using steps_more [where prog = ?m, OF m steps_none [of ?m]] deref_not_exit [OF Inl] by auto
    next
      case n: (Inr n)
      show ?thesis
      proof (cases "aio_type n = UDP \<or> aio_type n = TCP")
        case False
        then have m: "?m (DI_test it, s) (DI_test (aio_next n), s)" using it n by (simp add: deinit_moves.simps deinit_step_def)
        have "rec close_ret (aio_next n) s = Some r" using body it n False by simp
        from ih [OF this] obtain k t where t: "steps ?m k (DI_test (aio_next n), s) (deinit_outcome r, t)"
          "\<forall>s'. r = Inr s' \<longrightarrow> t = s'" by blast
        show ?thesis using steps_more [where prog = ?m, OF m t(1)] t(2) by blast
      next
        case ty: True
        let ?s1 = "s\<lparr>aio_bufs := (aio_bufs s)(aio_buffer n := None)\<rparr>"
        let ?s2 = "?s1\<lparr>aio_closed := aio_closed s @ [aio_fd n]\<rparr>"
        let ?s3 = "?s2\<lparr>aio_nodes := (aio_nodes s)(it := None)\<rparr>"
        have m: "?m (DI_test it, s) (DI_free_buffer it (aio_next n), s)"
          "?m (DI_free_buffer it (aio_next n), s) (DI_close it (aio_next n), ?s1)"
          using it n ty by (simp_all add: deinit_moves.simps deinit_step_def)
        show ?thesis
        proof (cases "close_ret (aio_fd n) = 0")
          case True
          then have m': "?m (DI_close it (aio_next n), ?s1) (DI_free it (aio_next n), ?s2)"
            "?m (DI_free it (aio_next n), ?s2) (DI_test (aio_next n), ?s3)"
            using n by (simp_all add: deinit_moves.simps deinit_step_def)
          have "s\<lparr>aio_nodes := (aio_nodes s)(it := None), aio_bufs := (aio_bufs s)(aio_buffer n := None),
              aio_closed := aio_closed s @ [aio_fd n]\<rparr> = ?s3" by simp
          then have "rec close_ret (aio_next n) ?s3 = Some r" using body it n ty True by (simp only: sum.case if_False if_True not_True_eq_False simp_thms)
          from ih [OF this] obtain k t where t: "steps ?m k (DI_test (aio_next n), ?s3) (deinit_outcome r, t)"
            "\<forall>s'. r = Inr s' \<longrightarrow> t = s'" by blast
          show ?thesis
            using steps_more [where prog = ?m, OF m(1) steps_more [where prog = ?m, OF m(2) steps_more [where prog = ?m, OF m'(1) steps_more [where prog = ?m, OF m'(2) t(1)]]]] t(2) by blast
        next
          case False
          then have m': "?m (DI_close it (aio_next n), ?s1) (DI_exit (- 1), ?s1)"
            using n by (simp add: deinit_moves.simps deinit_step_def)
          have "r = Inl (Exit_status (- 1))" using body it n ty False by simp
          then show ?thesis using steps_more [where prog = ?m, OF m(1) steps_more [where prog = ?m, OF m(2) steps_more [where prog = ?m, OF m' steps_none [of ?m]]]] by auto
        qed
      qed
    qed
  qed
qed

lemma deinit_loop_steps:
  assumes "deinit_loop close_ret it s = Some r"
  shows "\<exists>k t. steps (deinit_moves close_ret) k (DI_test it, s) (deinit_outcome r, t) \<and> (\<forall>s'. r = Inr s' \<longrightarrow> t = s')"
proof -
  let ?P = "\<lambda>close_ret it s r. \<exists>k t. steps (deinit_moves close_ret) k (DI_test it, s) (deinit_outcome r, t) \<and>
    (\<forall>s'. r = Inr s' \<longrightarrow> t = s')"
  show ?thesis
    by (rule deinit_loop.raw_induct [of ?P, OF _ assms]) (rule deinit_body_steps)
qed

section \<open>The property\<close>

text \<open>
  C24. \<open>SIGIO\<close> while \<open>SIGQUIT\<close> is handled. On a list of unlocked sockets whose \<open>close\<close> succeeds, with signals handled
  in between at any statement: as long as no handler faults, \<open>aIODeinit\<close> ends after at most four statements per
  connection with status 0, having closed every socket once and freed every connection and buffer. But once the first
  connection has been freed, every signal, for whatever socket, makes the handler read it through the static head;
  and when its buffer is gone already, a datagram for it is stored there. Before that the list is untouched.
\<close>

theorem signals_during_deinit:
  assumes "aio_list (aio_nodes s) as" and "all_free (aio_nodes s) (aio_head # as)" and "as = a # as'"
    and "\<forall>x\<in>set as. aio_type (the (aio_nodes s x)) \<in> {TCP, UDP} \<and> close_ret (aio_fd (the (aio_nodes s x))) = 0"
    and "aio_nodes s a = Some n" and "aio_buffer n \<noteq> NULL" and "0 < aio_buffer_size n"
    and "reaches (deinit_moves close_ret) sigio (DI_start, s) (pc, t)"
  shows "(\<forall>k w. steps (deinit_moves close_ret) k (pc, t) w \<longrightarrow> k \<le> 4 * length as + 2) \<and>
    (\<exists>k w. steps (deinit_moves close_ret) k (pc, t) w \<and> stuck (deinit_moves close_ret) w) \<and>
    (\<forall>k w. steps (deinit_moves close_ret) k (pc, t) w \<longrightarrow> stuck (deinit_moves close_ret) w \<longrightarrow>
       fst w = DI_exit 0 \<and> aio_nodes (snd w) = aio_nodes s |` (- set as) \<and>
       dom (aio_bufs (snd w)) = dom (aio_bufs s) - (\<lambda>x. aio_buffer (the (aio_nodes s x))) ` set as \<and>
       aio_closed (snd w) = aio_closed s @ map (\<lambda>x. aio_fd (the (aio_nodes s x))) as) \<and>
    (if aio_nodes t a = None then \<forall>fd ms. aIOUDPSigHandler fd ms t = Some (Inl Bad_pointer)
     else aio_nodes t = aio_nodes s \<and>
       (\<forall>fd m ms. aio_bufs t (aio_buffer n) = None \<longrightarrow> first_conn (aio_nodes s) UDP fd as = a \<longrightarrow> m \<noteq> [] \<longrightarrow>
          aIOUDPSigHandler fd (m # ms) t = Some (Inl Bad_pointer)))"
proof -
  have set: "deinit_setting close_ret s as" using assms(1,2,4) by (simp add: deinit_setting_def)
  note tp = deinit_thread_program [OF set]
  note inv = thread_program.reaches_inv [OF tp assms(8)]
  from inv obtain dn rest bs cs where i: "as = dn @ rest" "freed s dn bs cs t" by (rule deinit_inv_cases)
  have nodes: "aio_nodes t = aio_nodes s |` (- set dn)" using i(2) by (simp add: freed_def)
  have rank: "deinit_rank as (pc, t) \<le> 4 * length as + 2"
    by (cases pc) (auto simp: deinit_rank_def length_dropWhile_le intro!: le_SucI le_trans [OF diff_le_self])
  have final: "fst w = DI_exit 0 \<and> freed s as as as (snd w)" if "deinit_inv s as w" "deinit_ended w" for w
    using that by (auto simp: deinit_inv_def deinit_at_def deinit_ended_def)
  have bound: "k \<le> 4 * length as + 2" if "steps (deinit_moves close_ret) k (pc, t) w" for k w
    using thread_program.steps_bounded [OF tp assms(8) that] rank by simp
  have ends: "\<exists>k w. steps (deinit_moves close_ret) k (pc, t) w \<and> stuck (deinit_moves close_ret) w"
    using thread_program.runs_to_end [OF tp inv] by blast
  have result: "fst w = DI_exit 0 \<and> freed s as as as (snd w)"
    if "steps (deinit_moves close_ret) k (pc, t) w" "stuck (deinit_moves close_ret) w" for k w
    using thread_program.stuck_ended [OF tp assms(8) that] final by blast
  have "a \<notin> set dn \<Longrightarrow> aio_nodes t = aio_nodes s"
    using i(1) assms(3) nodes by (cases dn) (auto simp: restrict_map_def)
  moreover have "a \<in> set dn \<Longrightarrow> aIOUDPSigHandler fd ms t = Some (Inl Bad_pointer)" for fd ms
    using i(1) by (intro handler_after_free [OF set assms(3) nodes]) auto
  moreover have "a \<noteq> NULL" using assms(1,3) by (auto simp: aio_list_def chain_Cons)
  then have "aIOUDPSigHandler fd (m # ms) t = Some (Inl Bad_pointer)"
    if "aio_nodes t = aio_nodes s" "aio_bufs t (aio_buffer n) = None" "first_conn (aio_nodes s) UDP fd as = a" "m \<noteq> []" for fd m ms
    using handler_freed_buffer [OF set that(1,3) assms(5) _ _ that(2) assms(6,7) that(4)] assms(3) by simp
  moreover have "aio_nodes t a = None \<longleftrightarrow> a \<in> set dn" using nodes assms(5) by (simp add: restrict_map_def)
  ultimately show ?thesis using bound ends result by (simp add: freed_def)
qed

theorem signals_during_deinit_witness:
  "\<exists>t. reaches (deinit_moves (\<lambda>_. 0)) sigio (DI_start, \<lparr>aio_nodes = [aio_head \<mapsto> zero_aio\<lparr>aio_next := 64\<rparr>,
        64 \<mapsto> zero_aio\<lparr>aio_type := UDP, aio_fd := 3, aio_buffer_size := 4, aio_buffer := 128, aio_next := 96\<rparr>,
        96 \<mapsto> zero_aio\<lparr>aio_type := UDP, aio_fd := 4, aio_buffer_size := 4, aio_buffer := 160\<rparr>],
      aio_bufs = [128 \<mapsto> ''????'', 160 \<mapsto> ''????''], aio_calls = [], aio_closed = []\<rparr>) (DI_test 96, t) \<and>
    aIOUDPSigHandler 4 [''ok''] t = Some (Inl Bad_pointer)"
proof -
  let ?n = "zero_aio\<lparr>aio_type := UDP, aio_fd := 3, aio_buffer_size := 4, aio_buffer := 128, aio_next := 96\<rparr>"
  let ?H = "[aio_head \<mapsto> zero_aio\<lparr>aio_next := 64\<rparr>, 64 \<mapsto> ?n,
    96 \<mapsto> zero_aio\<lparr>aio_type := UDP, aio_fd := 4, aio_buffer_size := 4, aio_buffer := 160\<rparr>]"
  let ?s = "\<lparr>aio_nodes = ?H, aio_bufs = [128 \<mapsto> ''????'', 160 \<mapsto> ''????''], aio_calls = [], aio_closed = []\<rparr>"
  let ?m = "deinit_moves (\<lambda>_. 0)"
  have h: "aio_list (aio_nodes ?s) [64, 96]" "all_free (aio_nodes ?s) [aio_head, 64, 96]"
    by (simp_all add: aio_list_def chain_Cons all_free_def zero_aio_def aio_head_def)
  define s1 where "s1 = ?s\<lparr>aio_bufs := (aio_bufs ?s)(128 := None)\<rparr>"
  define s2 where "s2 = s1\<lparr>aio_closed := [3]\<rparr>"
  define t where "t = s2\<lparr>aio_nodes := (aio_nodes s2)(64 := None)\<rparr>"
  have "?m (DI_start, ?s) (DI_test 64, ?s)" "?m (DI_test 64, ?s) (DI_free_buffer 64 96, ?s)"
    "?m (DI_free_buffer 64 96, ?s) (DI_close 64 96, s1)" "?m (DI_close 64 96, s1) (DI_free 64 96, s2)"
    "?m (DI_free 64 96, s2) (DI_test 96, t)"
    by (simp_all add: deinit_moves.simps deinit_step_def deref_def zero_aio_def aio_head_def s1_def s2_def t_def)
  then have r: "reaches ?m sigio (DI_start, ?s) (DI_test 96, t)" by (meson reaches_start reaches_prog)
  have "aio_nodes t 64 = None" by (simp add: t_def)
  then have "aIOUDPSigHandler 4 [''ok''] t = Some (Inl Bad_pointer)"
    using signals_during_deinit [OF h refl _ _ _ _ r, of ?n] by (simp add: zero_aio_def aio_head_def)
  with r show ?thesis by blast
qed

end
