(* ===== verification/Tcp_Conversation.thy ===== *)
theory Tcp_Conversation
  imports Echo_Replies
begin

text \<open>
  The client of \<open>TCP_sockets\<close> and its two servers together: the replies the client gets are what a server sends back
  for the client's words. The arrays of both sides are not initialised; the result is given for all their contents.
\<close>

section \<open>The client and its replies\<close>

text \<open>What a server has written.\<close>

fun written :: "sock_event list \<Rightarrow> string list" where
  "written [] = []"
| "written (Wrote w # es) = w # written es"
| "written (e # es) = written es"

lemma written_append [simp]: "written (es @ es') = written es @ written es'"
  by (induction es rule: written.induct) auto

lemma written_echo: "written (concat (map (\<lambda>m. [Printed m, Wrote m]) ms)) = ms"
  by (induction ms) auto

text \<open>What the client does in rounds with the given words, when it takes the replies for the given strings.\<close>

definition rounds :: "string list \<Rightarrow> string list \<Rightarrow> sock_event list" where
  "rounds ws rs = concat (map2 (\<lambda>w r. [Wrote w, Printed r]) ws rs)"

lemma rounds_simps [simp]:
  "rounds [] rs = []" "rounds (w # ws) (r # rs) = Wrote w # Printed r # rounds ws rs"
  by (simp_all add: rounds_def)

text \<open>The replies \<open>rs\<close> arrive one at a time; after the last one a call of \<open>send\<close> fails.\<close>

definition replies_then_failure :: "string list \<Rightarrow> (bool \<times> recv_result) list" where
  "replies_then_failure rs = map (\<lambda>r. (True, Data r)) rs @ [(False, Disconnected)]"

lemma client_rounds_Data:
  "client_rounds (w # ws) ((True, Data r) # rs) cbuf sbuf out =
    (case cbind (c_strcpy cbuf 0 w) (\<lambda>b. cbind (c_strlen b) (\<lambda>n. Inr (b, take n b))) of
       Inl e \<Rightarrow> Some (Inl e)
     | Inr (b, msg) \<Rightarrow> (case receive sbuf r of
           Inl e \<Rightarrow> Some (Inl e)
         | Inr (s, sbuf') \<Rightarrow> client_rounds ws rs b sbuf' (out @ [Wrote msg, Printed s])))"
  by (simp add: receive_def split: sum.split)

lemma client_rounds_reads:
  assumes "length ws = length rs" and "\<forall>w\<in>set ws. is_cstring w \<and> length w < length cbuf"
    and "\<forall>r\<in>set rs. is_cstring r \<and> length r \<le> length sjunk" and "ends_at_nul sjunk z"
    and "ws = [] \<longrightarrow> nul \<in> set cbuf"
  shows "client_rounds ws (replies_then_failure rs) cbuf (cleared sjunk z) out =
    Some (if overruns sjunk rs then Inl Out_of_bounds else Inr (1, out @ rounds ws (strings_read sjunk z rs)))"
  using assms
proof (induction ws rs arbitrary: cbuf z out rule: list_induct2)
  case Nil
  then show ?case by (simp add: c_strlen_c_str overruns_def replies_then_failure_def)
next
  case (Cons w ws r rs)
  let ?c = "w @ nul # drop (Suc (length w)) cbuf"
  have w: "is_cstring w" "length w < length cbuf" using Cons.prems(1) by simp_all
  have r: "is_cstring r" "length r \<le> length sjunk" using Cons.prems(2) by simp_all
  have l: "length ?c = length cbuf" using w(2) by simp
  note step = receive_cleared [OF r Cons.prems(3)] and unfold = replies_then_failure_def client_rounds_Data
    c_strcpy_start [OF w(2)] c_strlen_append [OF w(1)] overruns_def
  show ?case
  proof (cases "nul \<in> set (drop (length r) sjunk)")
    case True
    let ?z = "max z (length (taken_for sjunk z r))"
    have "client_rounds ws (replies_then_failure rs) ?c (cleared sjunk ?z) out' =
        Some (if overruns sjunk rs then Inl Out_of_bounds else Inr (1, out' @ rounds ws (strings_read sjunk ?z rs)))" for out'
    proof (rule Cons.IH)
      show "\<forall>w\<in>set ws. is_cstring w \<and> length w < length ?c" unfolding l using Cons.prems(1) by simp
      show "ws = [] \<longrightarrow> nul \<in> set ?c" by simp
    qed (use step(2) [OF True] Cons.prems in simp_all)
    with True step(1) show ?thesis by (simp add: unfold Let_def del: client_rounds.simps)
  next
    case False
    with step(1) show ?thesis by (simp add: unfold del: client_rounds.simps)
  qed
qed

section \<open>What is printed for a word\<close>

lemma strings_read_prefix: "i < length ms \<Longrightarrow> prefix (ms ! i) (strings_read junk z ms ! i)"
  using strings_read_nth [of i ms z junk] by (auto simp: taken_for_def)

lemma strings_read_cstring:
  assumes "\<forall>m\<in>set ms. is_cstring m \<and> length m \<le> length junk" and "\<not> overruns junk ms"
  shows "\<forall>r\<in>set (strings_read junk z ms). is_cstring r \<and> length r \<le> length junk"
proof
  fix r assume "r \<in> set (strings_read junk z ms)"
  then obtain i where i: "i < length ms" "r = strings_read junk z ms ! i" by (auto simp: in_set_conv_nth)
  let ?d = "drop (length (ms ! i)) junk"
  obtain y where y: "r = taken_for junk y (ms ! i)" using strings_read_nth [OF i(1)] i(2) by blast
  have m: "is_cstring (ms ! i)" "length (ms ! i) \<le> length junk" using assms(1) i(1) by simp_all
  have "nul \<in> set ?d" using assms(2) i(1) by (simp add: overruns_def)
  from c_str_nth [OF this] have "length (ms ! i) + length (c_str ?d) < length junk" by auto
  with m is_cstring_c_str [of ?d] y show "is_cstring r \<and> length r \<le> length junk"
    by (auto simp: taken_for_def is_cstring_def)
qed

section \<open>The property\<close>

text \<open>
  C16. A client of the TCP server, for any initial contents of the arrays on both sides. The client reads the words \<open>ws\<close>
  (each fits its array of 1999 bytes with the NUL); every word, and every reply, arrives in one piece, and after the last
  one \<open>send\<close> fails. The server of \<open>server.c\<close> reads beyond its array when a word ends where no NUL follows in it; otherwise
  it writes one reply for each word, \<open>rs\<close>, which is the word followed by what the array held there. The client that gets
  these replies reads beyond its own array when no NUL follows a reply in it, and otherwise prints after each word one
  string that starts with the reply to it, so with the word; it prints the word itself when both arrays held a NUL where
  the word ends. A client of \<open>multi_server.c\<close> is one reply behind: the handler sends a greeting first, which is what the
  client gets for its first word; it gets the reply to a word as the one to the next, and never the last.
\<close>

theorem tcp_conversation:
  assumes "ws \<noteq> []" and "\<forall>w\<in>set ws. w \<noteq> [] \<and> is_cstring w \<and> length w < BUFFER_LENGTH - 1"
    and "length junk = BUFFER_LENGTH" and "length sbuf = BUFFER_LENGTH" and "length cbuf = BUFFER_LENGTH - 1"
    and "0 \<le> sock" "0 \<le> bound" "0 \<le> client" "0 \<le> sock'" "0 \<le> conn" and "rs = strings_read junk 0 ws"
    and "talk = (\<lambda>replies. tcp_client_main sock' conn ws (replies_then_failure replies) cbuf sbuf)"
  shows "(overruns junk ws \<longrightarrow>
      tcp_server_main sock bound client (map Data ws @ [Disconnected]) junk = Some (Inl Out_of_bounds) \<and>
      recv_loop True True (map Data ws @ [Disconnected]) junk [Wrote greeting] = Some (Inl Out_of_bounds)) \<and>
    (\<not> overruns junk ws \<longrightarrow> (\<exists>out.
      tcp_server_main sock bound client (map Data ws @ [Disconnected]) junk = Some (Inr (0, out)) \<and>
      recv_loop True True (map Data ws @ [Disconnected]) junk [Wrote greeting] = Some (Inr (Wrote greeting # out)) \<and>
      written out = rs) \<and>
      talk rs = Some (if overruns sbuf rs then Inl Out_of_bounds else Inr (1, rounds ws (strings_read sbuf 0 rs))) \<and>
      talk (greeting # butlast rs) = Some (if overruns sbuf (greeting # butlast rs) then Inl Out_of_bounds
        else Inr (1, rounds ws (strings_read sbuf 0 (greeting # butlast rs))))) \<and>
    length rs = length ws \<and>
    (\<forall>i<length ws. prefix (ws ! i) (rs ! i) \<and> prefix (rs ! i) (strings_read sbuf 0 rs ! i)) \<and>
    (\<forall>i. Suc i < length ws \<longrightarrow> prefix (rs ! i) (strings_read sbuf 0 (greeting # butlast rs) ! Suc i)) \<and>
    ((\<forall>w\<in>set ws. junk ! length w = nul \<and> sbuf ! length w = nul) \<longrightarrow> talk rs = Some (Inr (1, rounds ws ws)))"
proof -
  let ?e = "concat (map (\<lambda>s. [Printed s, Wrote s]) rs) @ [Ended Disconnected]" and ?gs = "greeting # butlast rs"
  have ws: "\<forall>m\<in>set ws. m \<noteq> [] \<and> is_cstring m \<and> length m \<le> length junk" using assms(2,3) by auto
  have loop: "recv_loop True True (map Data ws @ [Disconnected]) junk out =
      Some (if overruns junk ws then Inl Out_of_bounds else Inr (out @ ?e))" for out
    using recv_loop_reads [OF ws, of 0 True True "[]" out] assms(11) by (simp add: ends_at_nul_def round_events_simps)
  have len: "length rs = length ws" using assms(11) by simp
  have g: "is_cstring greeting" "length greeting \<le> BUFFER_LENGTH"
    by (simp_all add: greeting_def is_cstring_def nul_def BUFFER_LENGTH_def)
  have cs: "\<forall>w\<in>set ws. is_cstring w \<and> length w < length cbuf" using assms(2,5) by auto
  have talk: "talk xs = Some (if overruns sbuf xs then Inl Out_of_bounds else Inr (1, rounds ws (strings_read sbuf 0 xs)))"
    if "length xs = length ws" "\<forall>r\<in>set xs. is_cstring r \<and> length r \<le> length sbuf" for xs
    using client_rounds_reads [OF that(1) [symmetric] cs that(2), of 0 "[]"] assms(1,9,10,12)
    by (simp add: ends_at_nul_def tcp_client_main_def)
  have rs: "\<forall>r\<in>set rs. is_cstring r \<and> length r \<le> length sbuf" if "\<not> overruns junk ws"
    using strings_read_cstring [OF _ that, of 0] ws assms(3,4,11) by auto
  then have gs: "\<forall>r\<in>set ?gs. is_cstring r \<and> length r \<le> length sbuf" if "\<not> overruns junk ws"
    using that g assms(4) by (auto dest: in_set_butlastD)
  have glen: "length ?gs = length ws" using assms(1) len by (cases ws) auto
  have exact: "talk rs = Some (Inr (1, rounds ws ws))" if "\<forall>w\<in>set ws. junk ! length w = nul \<and> sbuf ! length w = nul"
  proof -
    have j: "\<forall>m\<in>set ws. length m < length junk \<and> junk ! length m = nul"
      and s: "\<forall>m\<in>set ws. length m < length sbuf \<and> sbuf ! length m = nul" using that assms(2-4) by auto
    have "rs = ws" using reads_exact(2) [OF j] assms(11) by simp
    with talk [OF len rs [OF reads_exact(1) [OF j]]] reads_exact [OF s] show ?thesis by simp
  qed
  have behind: "prefix (rs ! i) (strings_read sbuf 0 ?gs ! Suc i)" if "Suc i < length ws" for i
    using strings_read_prefix [of "Suc i" ?gs sbuf 0] that glen len by (simp add: nth_butlast)
  have "tcp_server_main sock bound client (map Data ws @ [Disconnected]) junk =
      Some (if overruns junk ws then Inl Out_of_bounds else Inr (0, ?e))"
    using loop [of "[]"] assms(6-8) by (simp add: tcp_server_main_def)
  moreover have "written ?e = rs" by (simp add: written_echo)
  ultimately show ?thesis
    using loop [of "[Wrote greeting]"] talk [OF len rs] talk [OF glen gs] exact behind len
      strings_read_prefix [of _ ws junk 0] strings_read_prefix [of _ rs sbuf 0] assms(11)
    by simp
qed

text \<open>The server's array holds stale bytes after the second byte; the client's is full of zeros.\<close>

theorem tcp_conversation_witness:
  "tcp_client_main 3 0 [''hi'', ''bye''] (replies_then_failure [''hicd'', ''bye'']) (replicate 1999 nul) (replicate 2000 nul) =
    Some (Inr (1, [Wrote ''hi'', Printed ''hicd'', Wrote ''bye'', Printed ''bye'']))"
proof -
  let ?junk = "''abcd'' @ replicate 1996 nul" and ?s = "replicate 2000 nul"
  have w: "\<forall>w\<in>set [''hi'', ''bye'']. w \<noteq> [] \<and> is_cstring w \<and> length w < BUFFER_LENGTH - 1"
    by (simp add: is_cstring_def nul_def BUFFER_LENGTH_def)
  have r: "[''hicd'', ''bye''] = strings_read ?junk 0 [''hi'', ''bye'']"
    by (simp add: taken_for_def Let_def c_str_def nul_def)
  have o: "\<not> overruns ?junk [''hi'', ''bye'']" "\<not> overruns ?s [''hicd'', ''bye'']" by (simp_all add: overruns_def)
  have s: "strings_read ?s 0 [''hicd'', ''bye''] = [''hicd'', ''bye'']" by (simp add: taken_for_def Let_def c_str_def)
  from tcp_conversation [OF _ w, of ?junk ?s "replicate 1999 nul" 3 0 4 3 0, OF _ _ _ _ _ _ _ _ _ r refl] o s
  show ?thesis by (simp add: BUFFER_LENGTH_def)
qed

end
