(* ===== verification/Spec2Isabelle.thy ===== *)
theory Spec2Isabelle
  imports Ring_Buffer Linked_List State_Machine Buttons My_String Anybase Yahtzee Yahtzee_Game
    Conditional_Wait Posix_Mutex Regex Simple_Prompt Small_Programs
    AI_Governor Governor_Session Governor_Phases Governor_Types Message_Queues MQ_Notification MQ_Threads MQ_Handlers Async_MQ_Server
    Signal_IO Sockets Client_Threads Async_Clients Multi_Clients Async_IO Async_Program Async_Search Async_Open Async_Interrupt Async_Deinit
    Echo_Replies Tcp_Conversation
begin

text \<open>
  A verification of a collection of C programs: small, independent snippets, each in a directory of
  its own, that show one data structure or one facility of POSIX, Linux or an embedded kernel.

  \<^bold>\<open>The parts and their theories.\<close>

  \<^item> \<open>C_Prelude\<close>: what stops a C function (failed assertions, NULL and dangling pointers,
    accesses out of bounds, division by zero, signed overflow, \<open>exit\<close>), results that are such a
    fault or a value (\<open>cres\<close>), computations that may also run forever (\<open>crun\<close>, \<open>None\<close> when they do),
    stores, bounds-checked buffers, NUL-terminated strings. \<open>C_Stdio\<close>: \<open>scanf("%d")\<close>, \<open>getchar\<close> and
    \<open>fgets\<close> on standard input as a list of characters.
  \<^item> \<open>Bounded_Fifo\<close>, \<open>Ring_Buffer\<close> (\<open>ring_buffer/src/rbuf.c\<close>, \<open>main.c\<close>): the ring buffer on an
    explicit heap, with its block of items byte by byte and its indices as 64-bit words. The
    locale \<open>bounded_fifo\<close> is the contract of a bounded first-in-first-out queue; its
    interpretation shows that the C functions refine it.
  \<^item> \<open>Linked_List\<close> (\<open>linked_list_advanced\<close>): the circular doubly linked list in a store; insertion is
    correct at every position, deletion breaks the backward links.
  \<^item> \<open>Sentinel_List\<close>: singly linked lists that start at a static node, their two traversal
    loops, and the locale \<open>linked_node\<close> for appending and unlinking. Its clients are
    \<open>State_Machine\<close> (\<open>state_machine/src/sm.c\<close>), \<open>Buttons\<close> (\<open>embedded_button_checker/src/buttons.c\<close>),
    \<open>Message_Queues\<close> and \<open>Async_IO\<close>, each of which interprets the locale on its own node type.
  \<^item> \<open>My_String\<close> (\<open>oo_string_one\<close> to \<open>oo_string_four\<close>): string objects on the heap and in a static
    buffer. The locale \<open>string_object\<close> and its extension \<open>guarded_string_object\<close> state what both
    promise; they are interpreted on the two implementations.
  \<^item> \<open>Anybase\<close> (\<open>recursive_function\<close>): printing a number in a base, with truncating division.
  \<^item> \<open>Yahtzee\<close> (\<open>yahtzee\<close>): the cup of dice, the prompts and the command loop; \<open>Yahtzee_Game\<close>: the whole
    program against a reference game on lists.
  \<^item> \<open>Thread_Runs\<close>: runs of multi-threaded programs as step relations over all schedules, one call or
    assignment per step. The locale \<open>thread_program\<close> turns facts about single steps (an invariant, a
    rank that decreases, progress) into facts about whole runs. Its clients are \<open>Conditional_Wait\<close>
    (\<open>conditional_wait\<close>), \<open>Posix_Mutex\<close> (\<open>posix_mutex\<close>), \<open>Async_Clients\<close>, \<open>Async_Search\<close>,
    \<open>Async_Open\<close>, \<open>Async_Deinit\<close>, \<open>MQ_Notification\<close> and \<open>MQ_Handlers\<close>.
  \<^item> \<open>Regex\<close> (\<open>regex\<close>): the two interactive loops, for any \<open>regcomp\<close> and \<open>regexec\<close>. \<open>Simple_Prompt\<close>
    (\<open>simple_prompt\<close>) and \<open>Small_Programs\<close> (\<open>TCP_sockets/src/main.c\<close>, \<open>template_C_project\<close>,
    \<open>linked_list\<close>, \<open>rpi_module\<close>, \<open>SIGIO\<close> and the other programs that say hello): the programs of a few lines. The list
    of \<open>linked_list\<close> is a parameter, since its implementation is not in the repository.
  \<^item> \<open>AI_Governor\<close> (\<open>IOctl\<close>): the driver's \<open>ioctl\<close> handler on user memory, the loading and unloading of
    the module, and the user program that calls it; the kernel's interface is a parameter.
    \<open>Governor_Session\<close>: the driver as a whole refines a register of bytes, and what the user
    program can do to it. \<open>C_Layout\<close>: how a compiler lays out structs, on any ABI. \<open>Governor_Phases\<close>:
    the declarations of \<open>AI_gov_phases.h\<close>. \<open>Governor_Types\<close>: the structs of \<open>AI_gov_types.h\<close> and those that
    driver and program exchange, in memory.
  \<^item> \<open>Message_Queues\<close> (\<open>posix_message_queues\<close>, \<open>async_posix_message_queues\<close> and the queue operations of
    \<open>async_posix_message_queues_SIGEV_THREAD\<close>), \<open>Async_MQ_Server\<close> (the server of the second for every
    outcome of its calls), \<open>MQ_Threads\<close> (the whole program of the third),
    \<open>MQ_Handlers\<close> (its sender and its handler threads under every schedule),
    \<open>MQ_Notification\<close> (client and handler of \<open>async_posix_message_queues\<close> under every schedule, with the
    kernel's rule for when a message is announced).
  \<^item> \<open>Signal_IO\<close> (\<open>sigaction\<close>, \<open>tty_serial\<close>, \<open>async_UDP\<close>, and the start of \<open>async_TCP\<close> and
    \<open>async_TCP_multithread\<close>): signal actions, their masks, descriptors in asynchronous mode, terminal
    settings, in a record \<open>process\<close> of what the kernel keeps for a process.
  \<^item> \<open>Sockets\<close> (\<open>TCP_sockets\<close>, the handlers of \<open>async_TCP\<close>, \<open>async_TCP_multithread\<close> and \<open>async_UDP\<close>): the
    receive loops, the server and the client; \<open>Echo_Replies\<close>: exactly what the loops read, for any contents of
    their uninitialised arrays; \<open>Tcp_Conversation\<close>: client and server together. \<open>Client_Threads\<close>, with \<open>Async_Clients\<close>
    (\<open>async_TCP_multithread\<close>) and \<open>Multi_Clients\<close> (\<open>TCP_sockets/src/multi_server.c\<close>): the servers with one
    thread per connection, under every schedule.
  \<^item> \<open>Async_IO\<close> (\<open>async_UDP_multithread\<close>): the list of connections and its operations; \<open>Async_Program\<close>: opening
    and the whole program; \<open>Async_Search\<close>: any number of threads that search
    the list at once; \<open>Async_Open\<close>: the same while one more thread opens a socket;
    \<open>Async_Interrupt\<close>: the signal handler at every statement of an opening; \<open>Async_Deinit\<close>: the signal handler while the list is being freed.

  \<^bold>\<open>How code becomes definitions.\<close> A struct is a record, an enum a datatype; objects that the
  code reaches through pointers live in stores, maps from addresses to records, so that aliasing,
  freed objects and NULL are visible. Integers are words of their width, or \<open>int\<close> with the
  overflow check where the code computes with \<open>int\<close>. Every definition follows its function
  statement by statement, early returns and failing calls included; what an allocation or a
  system call returns is an argument. Loops over a finite range or over what arrives are
  structural recursions; loops that may not end are \<open>partial_function (option)\<close>. Programs with several
  threads are inductive step relations; a call that waits has no step. There is no fuel
  anywhere: that a loop ends is proved as such (the search loops on chains, \<open>anybase\<close>, the rolls of
  \<open>Yahtzee\<close>, the client of \<open>Message_Queues\<close>), and so is that a loop does not end where the code has that defect.

  \<^bold>\<open>What the theorems show.\<close> The ring buffer refines a bounded queue. The insertion operations
  of the linked list keep well-formed rings. The string objects hold what was last set. The
  number printer round-trips for bases up to 19. The dice game plays the reference game on every input and
  stops each roll at the first match. The regular-expression program reports what \<open>regexec\<close> says.
  The threads of \<open>conditional_wait\<close> print in order and always end, those of \<open>posix_mutex\<close> count to
  two. The server of \<open>async_TCP_multithread\<close> keeps its clients apart under every
  schedule, and sends each of them what its handler would send it alone, unless the process ends: since the
  threads' arrays are not initialised, that can be more than the client sent, or a read beyond the array. Any number of searches of \<open>async_UDP_multithread\<close> run together without
  deadlock and find what they would find alone, also while a socket is opened; opening keeps the list well formed, and
  every datagram reaches the callback of its socket. The driver is a register of twenty
  bytes, also on its error paths, and these bytes are the struct of its header on every ABI. The handler
  of the state machine never runs a state as the program stands; its loop, entered with a current state, follows a protocol: only the
  current state runs, and a change leaves the old state before it enters the new one. No two handler threads of a message queue run at once. Client and server of the message queues agree on the
  conversation; of TCP it is said what each side reads, whatever its array holds. The string objects of versions three and four are interchangeable on strings that
  fit. Where the code does not do what it is for, a
  theorem says what it does instead: the backward links after \<open>ll_del\<close>, the identifiers of the state
  machine and of the buttons, the initialisation of the state machine and the items it receives into one byte, the handlers that use
  freed memory, the echo loops on uninitialised arrays, the digit table, the commands of the
  governor program and the phase that overruns its variable, the debouncing that never happens, the variable that the threads of \<open>multi_server.c\<close> share, the lock that is held while
  a signal for an unknown socket can arrive, the list that is freed while a signal can arrive, the stale bytes in what a server reads,
  the buffer that keeps the end of a longer message, the messages that are never announced.

  \<^bold>\<open>What is not modelled.\<close> The text of messages to the user where nothing depends on it. In \<open>MQ_Handlers\<close> the
  endless loop of the sender is cut off after any number of rounds; in \<open>Async_Open\<close> the calls that set up the
  new socket succeed, since a failure ends the process, and are one step, since nothing reads what they set; in
  \<open>Async_Deinit\<close> the handler of \<open>SIGIO\<close> runs to its end before the interrupted function goes on, as it does on one
  thread. The functions that \<open>AI_gov_phases.h\<close> only declares, and the copies of \<open>oo_string_two\<close> in itself and in other directories, which are
  identical to it.
\<close>

end
